(* ===== verification/Prelude.thy ===== *)
theory Prelude
  imports Main "HOL-Library.Word"
begin

text \<open>
  Shared vocabulary of the development: the integer types of
  \<^verbatim>\<open>include/neug/utils/property/types.h\<close>, the collections of simplification rules the
  component theories extend, and the generic facts on lists and words they share.
\<close>

unbundle bit_operations_syntax

section \<open>Types of the storage engine\<close>

type_synonym timestamp_t = "32 word"
type_synonym vid_t = "32 word"
type_synonym label_t = "8 word"

text \<open>
  The reserved timestamps: the largest one a transaction may carry, and the one that marks a
  deleted vertex or edge (\<^verbatim>\<open>std::numeric_limits<timestamp_t>::max()\<close> in the code).
\<close>

definition MAX_TIMESTAMP :: timestamp_t where
  "MAX_TIMESTAMP = 0xFFFFFFFE"

definition INVALID_TIMESTAMP :: timestamp_t where
  "INVALID_TIMESTAMP = 0xFFFFFFFF"

section \<open>Collections\<close>

named_theorems bit_simps \<open>how the bit sets of words and bitmaps change\<close>
named_theorems frame_simps \<open>what an operation leaves as it was\<close>
named_theorems codec_simps \<open>reading back what a serializer wrote\<close>

section \<open>Words\<close>

lemma unat_INVALID: "unat INVALID_TIMESTAMP = 2 ^ 32 - 1"
  by (simp add: INVALID_TIMESTAMP_def)

lemma unat_timestamp_le: "unat (ts :: timestamp_t) \<le> 2 ^ 32 - 1"
  using unsigned_less [where 'a = nat and w = ts] by simp

lemma timestamp_le_INVALID [simp]: "ts \<le> INVALID_TIMESTAMP"
  unfolding word_le_nat_alt unat_INVALID by (rule unat_timestamp_le)

lemma unat_Suc_word:
  fixes w :: "'a::len word"
  assumes "unat w < 2 ^ LENGTH('a) - 1"
  shows "unat (w + 1) = Suc (unat w)"
proof -
  have "unat (w + 1) = (unat w + unat (1 :: 'a word)) mod 2 ^ LENGTH('a)"
    by (rule unat_word_ariths)
  moreover have "unat w + 1 < 2 ^ LENGTH('a)"
    using assms by linarith
  ultimately show ?thesis by simp
qed

lemma unat_of_nat_less: "n < 2 ^ LENGTH('a::len) \<Longrightarrow> unat (of_nat n :: 'a word) = n"
  by (simp add: unsigned_of_nat take_bit_nat_eq_self)

section \<open>Lists\<close>

lemma length_filter_list_update:
  assumes "i < length xs" and "P (xs ! i)" and "\<not> P x"
  shows "length (filter P (xs[i := x])) + 1 = length (filter P xs)"
  using assms by (induction xs arbitrary: i) (auto split: nat.splits)

end
