(* ===== verification/Bitset.thy ===== *)
theory Bitset
  imports Prelude
begin

text \<open>
  The bitmap of \<^verbatim>\<open>include/neug/utils/bitset.h\<close>: an aligned array of 64-bit words with a
  size and a capacity. The ring buffer of released timestamps in the version manager is one.

  \<^verbatim>\<open>data_\<close> is the allocated array, \<open>None\<close> when the pointer is null. Memory that
  \<^verbatim>\<open>aligned_alloc\<close> or \<^verbatim>\<open>malloc\<close> returns is indeterminate: the operations that
  allocate take its contents as an argument \<open>junk\<close>. Sizes are far below \<open>2 ^ 64\<close>, so
  \<^verbatim>\<open>size_t\<close> is \<open>nat\<close>. A null pointer that is written through is the result \<open>None\<close>.
\<close>

section \<open>State and operations\<close>

record bitset =
  bs_data :: "64 word list option"
  bs_size :: nat
  bs_size_in_words :: nat
  bs_capacity :: nat
  bs_capacity_in_words :: nat

definition WORD_SIZE :: "nat \<Rightarrow> nat" where
  "WORD_SIZE n = (n + 63) div 64"

definition WORD_INDEX :: "nat \<Rightarrow> nat" where
  "WORD_INDEX i = i div 64"

definition BIT_OFFSET :: "nat \<Rightarrow> nat" where
  "BIT_OFFSET i = i mod 64"

definition kAlignment :: nat where
  "kAlignment = 64"

definition bitset_empty :: bitset where
  "bitset_empty = \<lparr>bs_data = None, bs_size = 0, bs_size_in_words = 0, bs_capacity = 0,
     bs_capacity_in_words = 0\<rparr>"

text \<open>The allocated words; an access past them is undefined behaviour and reads as zero here.\<close>

definition bs_words :: "bitset \<Rightarrow> 64 word list" where
  "bs_words b = (case bs_data b of None \<Rightarrow> [] | Some ws \<Rightarrow> ws)"

definition bs_word :: "bitset \<Rightarrow> nat \<Rightarrow> 64 word" where
  "bs_word b w = (if w < length (bs_words b) then bs_words b ! w else 0)"

definition bs_store :: "bitset \<Rightarrow> nat \<Rightarrow> 64 word \<Rightarrow> bitset" where
  "bs_store b w x = b\<lparr>bs_data := map_option (\<lambda>ws. ws[w := x]) (bs_data b)\<rparr>"

definition bs_get :: "bitset \<Rightarrow> nat \<Rightarrow> bool" where
  "bs_get b i = (bs_word b (WORD_INDEX i) AND push_bit (BIT_OFFSET i) 1 \<noteq> 0)"

definition bs_set :: "bitset \<Rightarrow> nat \<Rightarrow> bitset" where
  "bs_set b i = bs_store b (WORD_INDEX i) (bs_word b (WORD_INDEX i) OR push_bit (BIT_OFFSET i) 1)"

definition bs_reset :: "bitset \<Rightarrow> nat \<Rightarrow> bitset" where
  "bs_reset b i =
     bs_store b (WORD_INDEX i) (bs_word b (WORD_INDEX i) AND NOT (push_bit (BIT_OFFSET i) 1))"

text \<open>
  The atomic variants fetch the old word and store the new one in a single step; the last two
  return the old bit.
\<close>

definition atomic_set :: "bitset \<Rightarrow> nat \<Rightarrow> bitset" where
  "atomic_set b i =
     (let mask = push_bit (BIT_OFFSET i) 1
      in bs_store b (WORD_INDEX i) (bs_word b (WORD_INDEX i) OR mask))"

definition atomic_reset :: "bitset \<Rightarrow> nat \<Rightarrow> bitset" where
  "atomic_reset b i =
     (let mask = push_bit (BIT_OFFSET i) 1
      in bs_store b (WORD_INDEX i) (bs_word b (WORD_INDEX i) AND NOT mask))"

definition atomic_set_with_ret :: "bitset \<Rightarrow> nat \<Rightarrow> bool \<times> bitset" where
  "atomic_set_with_ret b i =
     (let mask = push_bit (BIT_OFFSET i) 1; ret = bs_word b (WORD_INDEX i)
      in (ret AND mask \<noteq> 0, bs_store b (WORD_INDEX i) (ret OR mask)))"

definition atomic_reset_with_ret :: "bitset \<Rightarrow> nat \<Rightarrow> bool \<times> bitset" where
  "atomic_reset_with_ret b i =
     (let mask = push_bit (BIT_OFFSET i) 1; ret = bs_word b (WORD_INDEX i)
      in (ret AND mask \<noteq> 0, bs_store b (WORD_INDEX i) (ret AND NOT mask)))"

definition bs_clear :: "bitset \<Rightarrow> bitset" where
  "bs_clear b = b\<lparr>bs_size := 0, bs_size_in_words := 0\<rparr>"

text \<open>\<^verbatim>\<open>memset\<close> of \<open>n\<close> words from word \<open>k\<close> on.\<close>

definition zero_words :: "nat \<Rightarrow> nat \<Rightarrow> 64 word list \<Rightarrow> 64 word list" where
  "zero_words k n ws = take k ws @ replicate (min n (length ws - k)) 0 @ drop (k + n) ws"

definition reset_all :: "bitset \<Rightarrow> bitset" where
  "reset_all b = b\<lparr>bs_data := map_option (zero_words 0 (bs_size_in_words b)) (bs_data b)\<rparr>"

definition bs_reserve :: "(nat \<Rightarrow> 64 word) \<Rightarrow> bitset \<Rightarrow> nat \<Rightarrow> bitset" where
  "bs_reserve junk b cap0 =
     (let cap = max cap0 (kAlignment * 8);
          new_cap_in_words = max (WORD_SIZE cap) (kAlignment div 8)
      in if new_cap_in_words \<le> bs_capacity_in_words b then b\<lparr>bs_capacity := cap\<rparr>
         else let fresh = map junk [0..<new_cap_in_words];
                  new_data = (case bs_data b of
                      None \<Rightarrow> fresh
                    | Some ws \<Rightarrow> take (bs_size_in_words b) ws @ drop (bs_size_in_words b) fresh)
              in b\<lparr>bs_data := Some new_data, bs_capacity := cap,
                   bs_capacity_in_words := new_cap_in_words\<rparr>)"

definition bs_resize :: "(nat \<Rightarrow> 64 word) \<Rightarrow> bitset \<Rightarrow> nat \<Rightarrow> bitset option" where
  "bs_resize junk b new_size =
     (if new_size \<le> bs_size b
      then Some (b\<lparr>bs_size := new_size, bs_size_in_words := WORD_SIZE new_size\<rparr>)
      else let r = bs_reserve junk b new_size; new_size_in_words = WORD_SIZE new_size
           in case bs_data r of
                None \<Rightarrow> None
              | Some ws \<Rightarrow>
                  let ws1 = zero_words (bs_size_in_words b) (new_size_in_words - bs_size_in_words b) ws;
                      ws2 = (if bs_size_in_words b \<noteq> 0 \<and> BIT_OFFSET (bs_size b) \<noteq> 0
                             then ws1[bs_size_in_words b - 1 :=
                                    ws1 ! (bs_size_in_words b - 1) AND mask (BIT_OFFSET (bs_size b))]
                             else ws1)
                  in Some (r\<lparr>bs_data := Some ws2, bs_size := new_size,
                             bs_size_in_words := new_size_in_words\<rparr>))"

definition popcount :: "64 word \<Rightarrow> nat" where
  "popcount w = length (filter (bit w) [0..<64])"

definition bs_count :: "bitset \<Rightarrow> nat" where
  "bs_count b = sum_list (map popcount (take (bs_size_in_words b) (bs_words b)))"

text \<open>
  Copy and move assignment return the new value of the target and, for the move, of the source.
  The move assignment zeroes \<^verbatim>\<open>other.size_in_words_\<close> twice and leaves
  \<^verbatim>\<open>other.capacity_in_words_\<close> as it was.
\<close>

definition bitset_move_ctor :: "bitset \<Rightarrow> bitset \<times> bitset" where
  "bitset_move_ctor other =
     (other, other\<lparr>bs_data := None, bs_size := 0, bs_size_in_words := 0, bs_capacity := 0,
        bs_capacity_in_words := 0\<rparr>)"

definition bitset_move_assign :: "bitset \<Rightarrow> bitset \<times> bitset" where
  "bitset_move_assign other =
     (other, other\<lparr>bs_data := None, bs_size := 0, bs_size_in_words := 0, bs_capacity := 0\<rparr>)"

definition bitset_copy :: "bitset \<Rightarrow> bitset" where
  "bitset_copy other =
     (if bs_capacity other = 0 then other\<lparr>bs_data := None\<rparr>
      else other\<lparr>bs_data := Some (take (bs_capacity_in_words other) (bs_words other))\<rparr>)"

section \<open>Bits\<close>

lemma bs_get_bit: "bs_get b i \<longleftrightarrow> bit (bs_word b (i div 64)) (i mod 64)"
  by (simp add: bs_get_def WORD_INDEX_def BIT_OFFSET_def bit_iff_and_push_bit_not_eq_0)

lemma bs_words_store [simp]: "bs_words (bs_store b w x) = (bs_words b)[w := x]"
  by (cases "bs_data b") (simp_all add: bs_words_def bs_store_def)

lemma bs_word_store:
  "w < length (bs_words b) \<Longrightarrow> bs_word (bs_store b w x) v = (if v = w then x else bs_word b v)"
  by (simp add: bs_word_def)

lemma bs_store_outside: "length (bs_words b) \<le> w \<Longrightarrow> bs_word (bs_store b w x) v = bs_word b v"
  by (simp add: bs_word_def list_update_beyond)

lemma bs_get_bound: "bs_get b i \<Longrightarrow> i < 64 * length (bs_words b)"
  by (auto simp: bs_get_bit bs_word_def split: if_splits)

lemma div_mod_64_eq: "(i :: nat) = j \<longleftrightarrow> i div 64 = j div 64 \<and> i mod 64 = j mod 64"
  by (metis div_mult_mod_eq)

lemma index_in_words: "i < 64 * n \<Longrightarrow> (i :: nat) div 64 < n"
  by (simp add: less_mult_imp_div_less mult.commute)

lemma bs_get_set:
  assumes "i < 64 * length (bs_words b)"
  shows "bs_get (bs_set b i) j \<longleftrightarrow> j = i \<or> bs_get b j"
  using index_in_words [OF assms]
  by (auto simp: bs_get_bit bs_set_def bs_word_store WORD_INDEX_def BIT_OFFSET_def bit_or_iff
      bit_exp_iff possible_bit_word div_mod_64_eq [of j i])

lemma bs_get_reset: "bs_get (bs_reset b i) j \<longleftrightarrow> j \<noteq> i \<and> bs_get b j"
proof (cases "i div 64 < length (bs_words b)")
  case True
  then show ?thesis
    by (auto simp: bs_get_bit bs_reset_def bs_word_store WORD_INDEX_def BIT_OFFSET_def bit_and_iff
      bit_not_iff bit_exp_iff possible_bit_word div_mod_64_eq [of j i])
next
  case False
  then have "bs_word (bs_reset b i) v = bs_word b v" for v
    by (simp add: bs_reset_def bs_store_outside WORD_INDEX_def)
  moreover have "\<not> bs_get b i"
    using False bs_get_bound index_in_words by blast
  ultimately show ?thesis
    by (auto simp: bs_get_bit)
qed

lemma atomic_set_eq: "atomic_set b i = bs_set b i"
  by (simp add: atomic_set_def bs_set_def Let_def)

lemma atomic_reset_eq: "atomic_reset b i = bs_reset b i"
  by (simp add: atomic_reset_def bs_reset_def Let_def)

lemma atomic_set_with_ret_eq: "atomic_set_with_ret b i = (bs_get b i, bs_set b i)"
  by (simp add: atomic_set_with_ret_def bs_set_def bs_get_def Let_def)

lemma atomic_reset_with_ret_eq: "atomic_reset_with_ret b i = (bs_get b i, bs_reset b i)"
  by (simp add: atomic_reset_with_ret_def bs_reset_def bs_get_def Let_def)

lemma length_bs_set [simp]: "length (bs_words (bs_set b i)) = length (bs_words b)"
  by (simp add: bs_set_def)

lemma length_bs_reset [simp]: "length (bs_words (bs_reset b i)) = length (bs_words b)"
  by (simp add: bs_reset_def)

section \<open>The interface the version manager relies on\<close>

text \<open>
  A bitmap with a capacity, a test, an insertion and a test-and-reset. Its client sees the set of
  members; every index handed to an insertion is below the capacity.
\<close>

locale bitmap =
  fixes cap :: "'b \<Rightarrow> nat"
    and mem :: "'b \<Rightarrow> nat \<Rightarrow> bool"
    and ins :: "'b \<Rightarrow> nat \<Rightarrow> 'b"
    and test_reset :: "'b \<Rightarrow> nat \<Rightarrow> bool \<times> 'b"
  assumes mem_cap: "mem b i \<Longrightarrow> i < cap b"
    and mem_ins: "i < cap b \<Longrightarrow> mem (ins b i) j \<longleftrightarrow> j = i \<or> mem b j"
    and cap_ins: "cap (ins b i) = cap b"
    and fst_test_reset: "fst (test_reset b i) \<longleftrightarrow> mem b i"
    and mem_test_reset: "mem (snd (test_reset b i)) j \<longleftrightarrow> j \<noteq> i \<and> mem b j"
    and cap_test_reset: "cap (snd (test_reset b i)) = cap b"
begin

definition members :: "'b \<Rightarrow> nat set" where
  "members b = {i. mem b i}"

lemma members_iff: "i \<in> members b \<longleftrightarrow> mem b i"
  by (simp add: members_def)

lemma finite_members [simp]: "finite (members b)"
  by (rule finite_subset [of _ "{..<cap b}"]) (auto simp: members_def dest: mem_cap)

lemma members_ins: "i < cap b \<Longrightarrow> members (ins b i) = insert i (members b)"
  by (auto simp: members_def mem_ins)

lemma members_test_reset: "members (snd (test_reset b i)) = members b - {i}"
  by (auto simp: members_def mem_test_reset)

lemma card_test_reset:
  assumes "fst (test_reset b i)"
  shows "card (members (snd (test_reset b i))) < card (members b)"
proof -
  have "i \<in> members b" using assms by (simp add: members_iff fst_test_reset)
  then show ?thesis unfolding members_test_reset by (simp only: card_Diff1_less finite_members)
qed

lemma members_reinsert: "mem b i \<Longrightarrow> members (ins (snd (test_reset b i)) i) = members b"
  using mem_cap [of b i] by (auto simp: members_ins members_test_reset cap_test_reset members_iff)

end

definition bs_bits :: "bitset \<Rightarrow> nat" where
  "bs_bits b = 64 * length (bs_words b)"

interpretation bs: bitmap bs_bits bs_get atomic_set atomic_reset_with_ret
  by unfold_locales
    (auto simp: bs_bits_def bs_get_bound bs_get_set bs_get_reset atomic_set_eq
      atomic_reset_with_ret_eq)

section \<open>Well-formedness, growth and shrinking\<close>

definition bs_wf :: "bitset \<Rightarrow> bool" where
  "bs_wf b \<longleftrightarrow> bs_size_in_words b = WORD_SIZE (bs_size b) \<and>
     bs_size_in_words b \<le> bs_capacity_in_words b \<and>
     bs_capacity_in_words b = length (bs_words b)"

lemma bs_wf_empty: "bs_wf bitset_empty"
  by (simp add: bs_wf_def bitset_empty_def bs_words_def WORD_SIZE_def)

lemma bs_set_frame [simp]:
  "bs_size (bs_set b i) = bs_size b" "bs_size_in_words (bs_set b i) = bs_size_in_words b"
  "bs_capacity_in_words (bs_set b i) = bs_capacity_in_words b"
  by (simp_all add: bs_set_def bs_store_def)

lemma bs_reset_frame [simp]:
  "bs_size (bs_reset b i) = bs_size b" "bs_size_in_words (bs_reset b i) = bs_size_in_words b"
  "bs_capacity_in_words (bs_reset b i) = bs_capacity_in_words b"
  by (simp_all add: bs_reset_def bs_store_def)

lemma bs_wf_set: "bs_wf b \<Longrightarrow> bs_wf (bs_set b i)"
  by (simp add: bs_wf_def)

lemma bs_wf_reset: "bs_wf b \<Longrightarrow> bs_wf (bs_reset b i)"
  by (simp add: bs_wf_def)

lemma length_zero_words: "length (zero_words k n ws) = length ws"
  by (simp add: zero_words_def)

lemma nth_zero_words:
  "v < length ws \<Longrightarrow> zero_words k n ws ! v = (if k \<le> v \<and> v < k + n then 0 else ws ! v)"
  by (auto simp: zero_words_def nth_append min_def)

lemma reset_all_words: "bs_words (reset_all b) = zero_words 0 (bs_size_in_words b) (bs_words b)"
  by (cases "bs_data b") (simp_all add: reset_all_def bs_words_def zero_words_def)

lemma bs_wf_reset_all: "bs_wf b \<Longrightarrow> bs_wf (reset_all b)"
  by (simp add: bs_wf_def reset_all_words length_zero_words) (simp add: reset_all_def)

lemma WORD_SIZE_bounds: "n \<le> 64 * WORD_SIZE n" "64 * WORD_SIZE n < n + 64"
  by (simp_all add: WORD_SIZE_def)

lemma bs_wf_bits: "bs_wf b \<Longrightarrow> bs_size b \<le> bs_bits b"
  using WORD_SIZE_bounds(1) [of "bs_size b"] by (auto simp: bs_wf_def bs_bits_def)

lemma bs_get_reset_all: "bs_wf b \<Longrightarrow> i < bs_size b \<Longrightarrow> \<not> bs_get (reset_all b) i"
  using WORD_SIZE_bounds(1) [of "bs_size b"]
  by (auto simp: bs_get_bit bs_word_def reset_all_words length_zero_words nth_zero_words bs_wf_def)

text \<open>What \<^verbatim>\<open>reserve\<close> keeps: the words in use, and at least the words asked for.\<close>

lemma bs_reserve_wf:
  assumes "bs_wf b"
  shows "\<exists>ws. bs_data (bs_reserve junk b n) = Some ws \<and> length ws = bs_capacity_in_words (bs_reserve junk b n)
     \<and> WORD_SIZE n \<le> length ws \<and> bs_size_in_words b \<le> length ws
     \<and> take (bs_size_in_words b) ws = take (bs_size_in_words b) (bs_words b)"
proof -
  have mono: "WORD_SIZE n \<le> WORD_SIZE (max n (kAlignment * 8))"
    by (simp add: WORD_SIZE_def div_le_mono)
  show ?thesis
  proof (cases "max (WORD_SIZE (max n (kAlignment * 8))) (kAlignment div 8) \<le> bs_capacity_in_words b")
    case True
    moreover from this assms have "bs_words b \<noteq> []" by (auto simp: bs_wf_def kAlignment_def)
    ultimately show ?thesis
      using assms mono by (auto simp: bs_reserve_def Let_def bs_wf_def bs_words_def split: option.splits)
  next
    case False
    then show ?thesis
      using assms mono
      by (auto simp: bs_reserve_def Let_def bs_wf_def bs_words_def split: option.splits)
  qed
qed

lemma WORD_SIZE_eq: "r < 64 \<Longrightarrow> WORD_SIZE (64 * q + r) = (if r = 0 then q else Suc q)"
  by (auto simp: WORD_SIZE_def)

lemma bit_before_size:
  assumes "w = WORD_SIZE n" and "i div 64 < w"
  shows "i < n \<longleftrightarrow> (i div 64 = w - 1 \<and> n mod 64 \<noteq> 0 \<longrightarrow> i mod 64 < n mod 64)"
proof -
  obtain q r where n: "n = 64 * q + r" "r < 64"
    using that [of "n div 64" "n mod 64"] by simp
  obtain p s where i: "i = 64 * p + s" "s < 64"
    using that [of "i div 64" "i mod 64"] by simp
  show ?thesis
    using assms n i by (auto simp: WORD_SIZE_eq)
qed

lemma bs_resize_grow:
  assumes "bs_wf b" and "bs_size b < n"
  obtains b' ws where "bs_resize junk b n = Some b'" and "bs_words b' = ws" and "bs_size b' = n"
    and "bs_wf b'"
    and "\<And>v. v < WORD_SIZE n \<Longrightarrow> ws ! v =
       (if bs_size_in_words b \<le> v then 0
        else if v = bs_size_in_words b - 1 \<and> BIT_OFFSET (bs_size b) \<noteq> 0
          then bs_words b ! v AND mask (BIT_OFFSET (bs_size b)) else bs_words b ! v)"
proof -
  let ?siw = "bs_size_in_words b" and ?r = "bs_reserve junk b n"
  obtain rs where rs: "bs_data ?r = Some rs" "length rs = bs_capacity_in_words ?r"
    "WORD_SIZE n \<le> length rs" "?siw \<le> length rs" "take ?siw rs = take ?siw (bs_words b)"
    using bs_reserve_wf [OF assms(1), of junk n] by blast
  define ws1 where "ws1 = zero_words ?siw (WORD_SIZE n - ?siw) rs"
  define ws2 where "ws2 = (if ?siw \<noteq> 0 \<and> BIT_OFFSET (bs_size b) \<noteq> 0
     then ws1[?siw - 1 := ws1 ! (?siw - 1) AND mask (BIT_OFFSET (bs_size b))] else ws1)"
  define b' where "b' = ?r\<lparr>bs_data := Some ws2, bs_size := n, bs_size_in_words := WORD_SIZE n\<rparr>"
  have res: "bs_resize junk b n = Some b'"
    using assms(2) rs(1) by (simp add: bs_resize_def Let_def b'_def ws2_def ws1_def)
  have len: "length ws2 = length rs" by (simp add: ws2_def ws1_def length_zero_words)
  have old: "v < ?siw \<Longrightarrow> rs ! v = bs_words b ! v" for v
    using rs(5) by (metis nth_take)
  have words: "ws2 ! v =
       (if ?siw \<le> v then 0
        else if v = ?siw - 1 \<and> BIT_OFFSET (bs_size b) \<noteq> 0
          then bs_words b ! v AND mask (BIT_OFFSET (bs_size b)) else bs_words b ! v)"
    if "v < WORD_SIZE n" for v
    using that rs(3,4) old [of v]
    by (cases "v < ?siw") (auto simp: ws2_def ws1_def nth_zero_words nth_list_update length_zero_words)
  have "bs_wf b'"
    using rs(2,3) len by (simp add: bs_wf_def b'_def bs_words_def)
  then show thesis
    using that [OF res _ _ _ words] by (simp add: b'_def bs_words_def)
qed

lemma bs_resize_get:
  assumes wf: "bs_wf b"
  shows "\<exists>b'. bs_resize junk b n = Some b' \<and> bs_wf b' \<and> bs_size b' = n \<and>
    (\<forall>i. i < n \<longrightarrow> bs_get b' i = (i < bs_size b \<and> bs_get b i))"
proof (cases "n \<le> bs_size b")
  case True
  have "WORD_SIZE n \<le> WORD_SIZE (bs_size b)"
    using True by (simp add: WORD_SIZE_def div_le_mono)
  then show ?thesis
    using True wf
    by (auto simp: bs_resize_def bs_wf_def bs_get_def bs_word_def bs_words_def)
next
  case False
  then have lt: "bs_size b < n" by simp
  obtain b' ws where b': "bs_resize junk b n = Some b'" "bs_words b' = ws" "bs_size b' = n" "bs_wf b'"
    and ws: "\<And>v. v < WORD_SIZE n \<Longrightarrow> ws ! v =
       (if bs_size_in_words b \<le> v then 0
        else if v = bs_size_in_words b - 1 \<and> BIT_OFFSET (bs_size b) \<noteq> 0
          then bs_words b ! v AND mask (BIT_OFFSET (bs_size b)) else bs_words b ! v)"
    using bs_resize_grow [OF wf lt] by metis
  have "bs_get b' i = (i < bs_size b \<and> bs_get b i)" if i: "i < n" for i
  proof -
    have v: "i div 64 < WORD_SIZE n"
      using i WORD_SIZE_bounds(1) [of n] by linarith
    have vl: "i div 64 < length ws"
      using v b'(2-4) by (auto simp: bs_wf_def)
    have siw: "bs_size_in_words b = WORD_SIZE (bs_size b)" "bs_size_in_words b \<le> length (bs_words b)"
      using wf by (simp_all add: bs_wf_def)
    show ?thesis
    proof (cases "bs_size_in_words b \<le> i div 64")
      case True
      then have "\<not> i < bs_size b"
        using siw(1) WORD_SIZE_bounds(1) [of "bs_size b"] by linarith
      with True show ?thesis
        using ws [OF v] vl b'(2) by (simp add: bs_get_bit bs_word_def)
    next
      case False
      then have "i div 64 < bs_size_in_words b" by simp
      from bit_before_size [OF siw(1) this] False show ?thesis
        using ws [OF v] vl b'(2) siw(2)
        by (auto simp: bs_get_bit bs_word_def BIT_OFFSET_def bit_and_iff bit_mask_iff)
    qed
  qed
  with b' show ?thesis by blast
qed

lemma sum_popcount:
  "sum_list (map popcount ws) = card {i. i < 64 * length ws \<and> bit (ws ! (i div 64)) (i mod 64)}"
proof (induction ws rule: rev_induct)
  case Nil
  then show ?case by simp
next
  case (snoc w ws)
  let ?n = "64 * length ws"
  have split: "{i. i < 64 * length (ws @ [w]) \<and> bit ((ws @ [w]) ! (i div 64)) (i mod 64)} =
      {i. i < ?n \<and> bit (ws ! (i div 64)) (i mod 64)} \<union> (\<lambda>k. ?n + k) ` {k. k < 64 \<and> bit w k}"
    (is "?L = ?A \<union> ?B")
  proof (rule set_eqI, rule iffI)
    fix i assume i: "i \<in> ?L"
    show "i \<in> ?A \<union> ?B"
    proof (cases "i < ?n")
      case True
      with i index_in_words [OF True] show ?thesis by (auto simp: nth_append)
    next
      case False
      then obtain k where k: "i = ?n + k" "k < 64"
        using i that [of "i - ?n"] by auto
      then show ?thesis using i by (auto simp: nth_append)
    qed
  qed (auto simp: nth_append dest: index_in_words)
  have "card ?L = card ?A + card ?B"
    unfolding split by (rule card_Un_disjoint) auto
  moreover have "card ?B = popcount w"
    by (simp add: card_image popcount_def length_filter_conv_card cong: conj_cong)
  ultimately show ?case using snoc by simp
qed

lemma bs_count_get:
  assumes "bs_wf b" and "\<And>i. bs_size b \<le> i \<Longrightarrow> i < 64 * bs_size_in_words b \<Longrightarrow> \<not> bs_get b i"
  shows "bs_count b = card {i. i < bs_size b \<and> bs_get b i}"
proof -
  have len: "bs_size_in_words b \<le> length (bs_words b)" "bs_size b \<le> 64 * bs_size_in_words b"
    using assms(1) WORD_SIZE_bounds(1) [of "bs_size b"] by (simp_all add: bs_wf_def)
  have same: "bs_get b i = bit (take (bs_size_in_words b) (bs_words b) ! (i div 64)) (i mod 64)"
    if "i < 64 * bs_size_in_words b" for i
    using index_in_words [OF that] len(1) by (simp add: bs_get_bit bs_word_def)
  have "bs_count b = card {i. i < 64 * bs_size_in_words b \<and> bs_get b i}"
    using len(1) by (simp add: bs_count_def sum_popcount same cong: conj_cong)
  also have "{i. i < 64 * bs_size_in_words b \<and> bs_get b i} = {i. i < bs_size b \<and> bs_get b i}"
    using assms(2) len(2) by (auto intro: not_le_imp_less)
  finally show ?thesis .
qed

section \<open>Properties of the bitmap\<close>

text \<open>
  Resizing a well-formed bitmap never goes through a null pointer and keeps it well-formed; the
  new bitmap has the requested size, every bit below both sizes keeps its value, and every bit that
  is new is clear, whatever the allocator returned and whatever was left behind by an earlier
  shrink.
\<close>

theorem bitset_resize_spec:
  assumes "bs_wf b"
  shows "\<exists>b'. bs_resize junk b n = Some b' \<and> bs_wf b' \<and> bs_size b' = n \<and>
    (\<forall>i. i < n \<longrightarrow> bs_get b' i = (i < bs_size b \<and> bs_get b i))"
  using assms by (rule bs_resize_get)

definition bitset_example :: bitset where
  "bitset_example = \<lparr>bs_data = Some (replicate 8 (- 1)), bs_size = 70, bs_size_in_words = 2,
     bs_capacity = 512, bs_capacity_in_words = 8\<rparr>"

lemma bitset_example_wf: "bs_wf bitset_example"
  by (simp add: bs_wf_def bitset_example_def bs_words_def WORD_SIZE_def)

theorem bitset_resize_spec_witness:
  "\<exists>b'. bs_resize (\<lambda>_. 7) bitset_example 100 = Some b' \<and> bs_get b' 69 \<and> \<not> bs_get b' 70"
proof -
  have "bs_get bitset_example 69"
    by (simp add: bs_get_bit bs_word_def bs_words_def bitset_example_def)
  then show ?thesis
    using bitset_resize_spec [OF bitset_example_wf, of "\<lambda>_. 7" 100]
    by (auto simp: bitset_example_def)
qed

text \<open>
  After \<^verbatim>\<open>a = std::move(b)\<close> the moved-from bitmap cannot be reused: the move assignment
  leaves its word capacity in place, so a resize that fits the old capacity allocates nothing and
  writes through the null pointer, where the move constructor leaves a bitmap that resizes.
\<close>

theorem bitset_move_assign_source_unusable:
  assumes "bs_wf b" and "0 < n" and "WORD_SIZE (max n (kAlignment * 8)) \<le> bs_capacity_in_words b"
  shows "bs_resize junk (snd (bitset_move_assign b)) n = None \<and>
    (\<exists>b'. bs_resize junk (snd (bitset_move_ctor b)) n = Some b' \<and> bs_size b' = n)"
proof
  have "8 \<le> WORD_SIZE (max n (kAlignment * 8))"
    by (simp add: WORD_SIZE_def kAlignment_def)
  then show "bs_resize junk (snd (bitset_move_assign b)) n = None"
    using assms(2,3)
    by (simp add: bs_resize_def bitset_move_assign_def bs_reserve_def Let_def kAlignment_def)
  have "bs_wf (snd (bitset_move_ctor b))"
    by (simp add: bitset_move_ctor_def bs_wf_def bs_words_def WORD_SIZE_def)
  from bs_resize_get [OF this] show
    "\<exists>b'. bs_resize junk (snd (bitset_move_ctor b)) n = Some b' \<and> bs_size b' = n" by blast
qed

theorem bitset_move_assign_source_unusable_witness:
  "bs_resize (\<lambda>_. 0) (snd (bitset_move_assign bitset_example)) 10 = None"
proof -
  have "WORD_SIZE (max 10 (kAlignment * 8)) \<le> bs_capacity_in_words bitset_example"
    by (simp add: WORD_SIZE_def kAlignment_def bitset_example_def)
  then show ?thesis
    using bitset_move_assign_source_unusable [OF bitset_example_wf, of 10 "\<lambda>_. 0"] by simp
qed

end
