(* ===== verification/Version_Manager.thy ===== *)
theory Version_Manager
  imports Bitset
begin

text \<open>
  The version manager of \<^verbatim>\<open>src/transaction/version_manager.cc\<close>: it hands out read, insert and
  update timestamps, and advances the read timestamp when the transactions below it are finished.

  The first part translates every member function of \<^verbatim>\<open>TPVersionManager\<close> as a function on the
  state \<open>vm\<close>. The second part is the concurrent system: any number of threads call the acquire, release
  and revert functions (not \<^verbatim>\<open>clear()\<close>, whose race with them is shown at the end),
  one atomic instruction at a time, and a step of the relation \<open>vm_step\<close> is one atomic instruction
  of one thread (the section between \<^verbatim>\<open>lock_.lock()\<close> and \<^verbatim>\<open>lock_.unlock()\<close> is one step,
  the spin lock serialises it). The counters \<^verbatim>\<open>pending_reqs_\<close> and
  \<^verbatim>\<open>pending_update_reqs_\<close> stay within a few times the number of threads, so they are
  \<open>int\<close>; timestamps are 32-bit words that wrap.
\<close>

section \<open>State and member functions\<close>

record vm =
  thread_num :: int
  write_ts :: timestamp_t
  read_ts :: timestamp_t
  pending_reqs :: int
  pending_update_reqs :: int
  buf :: bitset

definition ring_buf_size :: "32 word" where
  "ring_buf_size = 1024 * 1024"

definition ring_index_mask :: "32 word" where
  "ring_index_mask = ring_buf_size - 1"

definition ring_index :: "timestamp_t \<Rightarrow> nat" where
  "ring_index ts = unat (ts AND ring_index_mask)"

text \<open>
  The constructor resizes the ring and clears it. \<^verbatim>\<open>thread_num_\<close> has no initializer, its value
  is the argument \<open>t\<close> here until \<^verbatim>\<open>init_ts\<close> sets it.
\<close>

definition vm_ctor :: "int \<Rightarrow> (nat \<Rightarrow> 64 word) \<Rightarrow> vm option" where
  "vm_ctor t junk =
     (case bs_resize junk bitset_empty (unat ring_buf_size) of
        None \<Rightarrow> None
      | Some b \<Rightarrow> Some \<lparr>thread_num = t, write_ts = 1, read_ts = 0, pending_reqs = 0,
          pending_update_reqs = 0, buf = reset_all b\<rparr>)"

definition init_ts :: "vm \<Rightarrow> timestamp_t \<Rightarrow> int \<Rightarrow> vm" where
  "init_ts s ts n = s\<lparr>write_ts := ts + 1, read_ts := ts, thread_num := n\<rparr>"

definition vm_clear :: "vm \<Rightarrow> vm" where
  "vm_clear s = s\<lparr>write_ts := 1, read_ts := 0, pending_reqs := 0, buf := reset_all (buf s)\<rparr>"

text \<open>
  The loop of \<^verbatim>\<open>release_insert_timestamp\<close>: while the next timestamp is marked as released,
  unmark it and move on. Every round clears a set bit, so the loop ends.
\<close>

function drain :: "bitset \<Rightarrow> timestamp_t \<Rightarrow> bitset \<times> timestamp_t" where
  "drain b ts =
     (let r = atomic_reset_with_ret b (ring_index (ts + 1))
      in if fst r then drain (snd r) (ts + 1) else (snd r, ts))"
  by pat_completeness auto
termination
  by (relation "measure (\<lambda>(b, ts). card (bs.members b))") (auto intro: bs.card_test_reset)

declare drain.simps [simp del]

text \<open>The critical section of \<^verbatim>\<open>release_insert_timestamp\<close>, under the spin lock.\<close>

definition insert_publish :: "vm \<Rightarrow> timestamp_t \<Rightarrow> vm" where
  "insert_publish s ts =
     (if ts = read_ts s + 1
      then let r = drain (buf s) ts in s\<lparr>buf := fst r, read_ts := snd r\<rparr>
      else s\<lparr>buf := atomic_set (buf s) (ring_index ts)\<rparr>)"

definition release_insert_timestamp :: "vm \<Rightarrow> timestamp_t \<Rightarrow> vm" where
  "release_insert_timestamp s ts =
     (let s' = insert_publish s ts in s'\<lparr>pending_reqs := pending_reqs s' - 1\<rparr>)"

definition release_read_timestamp :: "vm \<Rightarrow> vm" where
  "release_read_timestamp s = s\<lparr>pending_reqs := pending_reqs s - 1\<rparr>"

text \<open>
  The critical section of \<^verbatim>\<open>release_update_timestamp\<close>; its second branch is the one that
  logs an error.
\<close>

definition update_publish :: "vm \<Rightarrow> timestamp_t \<Rightarrow> vm" where
  "update_publish s ts =
     (if ts = read_ts s + 1 then s\<lparr>read_ts := ts\<rparr>
      else s\<lparr>buf := atomic_set (buf s) (ring_index ts)\<rparr>)"

definition release_update_timestamp :: "vm \<Rightarrow> timestamp_t \<Rightarrow> vm" where
  "release_update_timestamp s ts =
     (let s' = update_publish s ts
      in s'\<lparr>pending_reqs := pending_reqs s' + thread_num s', pending_update_reqs := 0\<rparr>)"

definition revert_update_timestamp :: "vm \<Rightarrow> timestamp_t \<Rightarrow> bool \<times> vm" where
  "revert_update_timestamp s ts =
     (let expected_ts = ts + 1
      in if write_ts s = expected_ts
         then (True, s\<lparr>write_ts := ts, pending_reqs := pending_reqs s + thread_num s,
                       pending_update_reqs := 0\<rparr>)
         else (False, s))"

section \<open>The concurrent system\<close>

text \<open>
  Where a thread stands in its current call. \<open>R\<close>: \<^verbatim>\<open>acquire_read_timestamp\<close> and its
  release, \<open>I\<close>: the insert functions, \<open>U\<close>: the update functions.
  \<^item> \<open>R_try\<close>: before \<^verbatim>\<open>fetch_add(1)\<close>; \<open>R_load\<close>: \<^verbatim>\<open>pr >= 0\<close>, before the
    timestamp is read; \<open>R_undo\<close>: \<^verbatim>\<open>pr < 0\<close>, before \<^verbatim>\<open>--pending_reqs_\<close>;
    \<open>R_wait\<close>: in the sleep loop; \<open>R_hold ts\<close>: returned \<open>ts\<close>.
  \<^item> \<open>I_done\<close>: after the critical section of the release, before \<^verbatim>\<open>fetch_sub(1)\<close>.
  \<^item> \<open>U_spin\<close>: in the compare-exchange loop; \<open>U_sub\<close>: before
    \<^verbatim>\<open>fetch_sub(thread_num_)\<close>; \<open>U_wait\<close>: in the loop on
    \<^verbatim>\<open>-thread_num_\<close>; \<open>U_get\<close>: before \<^verbatim>\<open>write_ts_.fetch_add(1)\<close>;
    \<open>U_add\<close>: released or reverted, before \<^verbatim>\<open>pending_reqs_ += thread_num_\<close>;
    \<open>U_clr\<close>: before \<^verbatim>\<open>pending_update_reqs_.store(0)\<close>.
\<close>

datatype pc =
    Idle
  | R_try | R_load | R_undo | R_wait | R_hold timestamp_t
  | I_try | I_load | I_undo | I_wait | I_hold timestamp_t | I_done
  | U_spin | U_sub | U_wait | U_get | U_hold timestamp_t | U_add | U_clr

record sys =
  mgr :: vm
  pcs :: "nat \<Rightarrow> pc"

definition goto :: "sys \<Rightarrow> nat \<Rightarrow> pc \<Rightarrow> vm \<Rightarrow> sys" where
  "goto s i p m = \<lparr>mgr = m, pcs = (pcs s)(i := p)\<rparr>"

inductive vm_step :: "nat \<Rightarrow> sys \<Rightarrow> sys \<Rightarrow> bool" for N :: nat where
  read_begin: "i < N \<Longrightarrow> pcs s i = Idle \<Longrightarrow> vm_step N s (goto s i R_try (mgr s))"
| read_ok: "i < N \<Longrightarrow> pcs s i = R_try \<Longrightarrow> pending_reqs (mgr s) \<ge> 0 \<Longrightarrow>
    vm_step N s (goto s i R_load ((mgr s)\<lparr>pending_reqs := pending_reqs (mgr s) + 1\<rparr>))"
| read_busy: "i < N \<Longrightarrow> pcs s i = R_try \<Longrightarrow> pending_reqs (mgr s) < 0 \<Longrightarrow>
    vm_step N s (goto s i R_undo ((mgr s)\<lparr>pending_reqs := pending_reqs (mgr s) + 1\<rparr>))"
| read_load: "i < N \<Longrightarrow> pcs s i = R_load \<Longrightarrow>
    vm_step N s (goto s i (R_hold (read_ts (mgr s))) (mgr s))"
| read_undo: "i < N \<Longrightarrow> pcs s i = R_undo \<Longrightarrow>
    vm_step N s (goto s i R_wait ((mgr s)\<lparr>pending_reqs := pending_reqs (mgr s) - 1\<rparr>))"
| read_retry: "i < N \<Longrightarrow> pcs s i = R_wait \<Longrightarrow> pending_reqs (mgr s) \<ge> 0 \<Longrightarrow>
    vm_step N s (goto s i R_try (mgr s))"
| read_release: "i < N \<Longrightarrow> pcs s i = R_hold ts \<Longrightarrow>
    vm_step N s (goto s i Idle (release_read_timestamp (mgr s)))"
| ins_begin: "i < N \<Longrightarrow> pcs s i = Idle \<Longrightarrow> vm_step N s (goto s i I_try (mgr s))"
| ins_ok: "i < N \<Longrightarrow> pcs s i = I_try \<Longrightarrow> pending_reqs (mgr s) \<ge> 0 \<Longrightarrow>
    vm_step N s (goto s i I_load ((mgr s)\<lparr>pending_reqs := pending_reqs (mgr s) + 1\<rparr>))"
| ins_busy: "i < N \<Longrightarrow> pcs s i = I_try \<Longrightarrow> pending_reqs (mgr s) < 0 \<Longrightarrow>
    vm_step N s (goto s i I_undo ((mgr s)\<lparr>pending_reqs := pending_reqs (mgr s) + 1\<rparr>))"
| ins_load: "i < N \<Longrightarrow> pcs s i = I_load \<Longrightarrow>
    vm_step N s (goto s i (I_hold (write_ts (mgr s))) ((mgr s)\<lparr>write_ts := write_ts (mgr s) + 1\<rparr>))"
| ins_undo: "i < N \<Longrightarrow> pcs s i = I_undo \<Longrightarrow>
    vm_step N s (goto s i I_wait ((mgr s)\<lparr>pending_reqs := pending_reqs (mgr s) - 1\<rparr>))"
| ins_retry: "i < N \<Longrightarrow> pcs s i = I_wait \<Longrightarrow> pending_reqs (mgr s) \<ge> 0 \<Longrightarrow>
    vm_step N s (goto s i I_try (mgr s))"
| ins_publish: "i < N \<Longrightarrow> pcs s i = I_hold ts \<Longrightarrow>
    vm_step N s (goto s i I_done (insert_publish (mgr s) ts))"
| ins_release: "i < N \<Longrightarrow> pcs s i = I_done \<Longrightarrow>
    vm_step N s (goto s i Idle ((mgr s)\<lparr>pending_reqs := pending_reqs (mgr s) - 1\<rparr>))"
| upd_begin: "i < N \<Longrightarrow> pcs s i = Idle \<Longrightarrow> vm_step N s (goto s i U_spin (mgr s))"
| upd_cas: "i < N \<Longrightarrow> pcs s i = U_spin \<Longrightarrow> pending_update_reqs (mgr s) = 0 \<Longrightarrow>
    vm_step N s (goto s i U_sub ((mgr s)\<lparr>pending_update_reqs := 1\<rparr>))"
| upd_sub: "i < N \<Longrightarrow> pcs s i = U_sub \<Longrightarrow>
    vm_step N s (goto s i (if pending_reqs (mgr s) \<noteq> 0 then U_wait else U_get)
      ((mgr s)\<lparr>pending_reqs := pending_reqs (mgr s) - thread_num (mgr s)\<rparr>))"
| upd_wait: "i < N \<Longrightarrow> pcs s i = U_wait \<Longrightarrow> pending_reqs (mgr s) = - thread_num (mgr s) \<Longrightarrow>
    vm_step N s (goto s i U_get (mgr s))"
| upd_get: "i < N \<Longrightarrow> pcs s i = U_get \<Longrightarrow>
    vm_step N s (goto s i (U_hold (write_ts (mgr s))) ((mgr s)\<lparr>write_ts := write_ts (mgr s) + 1\<rparr>))"
| upd_publish: "i < N \<Longrightarrow> pcs s i = U_hold ts \<Longrightarrow>
    vm_step N s (goto s i U_add (update_publish (mgr s) ts))"
| upd_revert: "i < N \<Longrightarrow> pcs s i = U_hold ts \<Longrightarrow> write_ts (mgr s) = ts + 1 \<Longrightarrow>
    vm_step N s (goto s i U_add ((mgr s)\<lparr>write_ts := ts\<rparr>))"
| upd_add: "i < N \<Longrightarrow> pcs s i = U_add \<Longrightarrow>
    vm_step N s (goto s i U_clr
      ((mgr s)\<lparr>pending_reqs := pending_reqs (mgr s) + thread_num (mgr s)\<rparr>))"
| upd_clr: "i < N \<Longrightarrow> pcs s i = U_clr \<Longrightarrow>
    vm_step N s (goto s i Idle ((mgr s)\<lparr>pending_update_reqs := 0\<rparr>))"

text \<open>
  The system starts with \<^verbatim>\<open>init_ts\<close> on a fresh manager. \<open>in_window\<close> bounds the part of a
  run that the ring buffer and the 32-bit counter can represent: at most \<open>2 ^ 20\<close> timestamps beyond
  the first unfinished one are handed out, and the counter has not reached its maximum. The code has
  no check for either bound; \<open>vm_reach\<close> takes steps only from states within it.
\<close>

definition in_window :: "vm \<Rightarrow> bool" where
  "in_window m \<longleftrightarrow> unat (write_ts m) < 2 ^ 32 - 1 \<and>
     unat (write_ts m) \<le> unat (read_ts m) + unat ring_buf_size"

inductive vm_reach :: "nat \<Rightarrow> sys \<Rightarrow> sys \<Rightarrow> bool" for N :: nat and s0 :: sys where
  reach_start: "vm_reach N s0 s0"
| reach_step: "vm_reach N s0 s \<Longrightarrow> in_window (mgr s) \<Longrightarrow> vm_step N s t \<Longrightarrow> vm_reach N s0 t"

definition vm_initial :: "nat \<Rightarrow> sys \<Rightarrow> bool" where
  "vm_initial N s \<longleftrightarrow> 0 < N \<and> pcs s = (\<lambda>_. Idle) \<and>
     (\<exists>m t junk ts n. vm_ctor t junk = Some m \<and> mgr s = init_ts m ts n \<and>
        unat ts < 2 ^ 32 - 2 \<and> int N \<le> n)"

section \<open>The ring buffer\<close>

lemma ring_index_mask_eq: "ring_index_mask = mask 20"
  by (simp add: ring_index_mask_def ring_buf_size_def mask_eq_exp_minus_1)

lemma unat_ring_buf_size: "unat ring_buf_size = 2 ^ 20"
  by (simp add: ring_buf_size_def)

lemma ring_index_mod: "ring_index ts = unat ts mod 2 ^ 20"
  unfolding ring_index_def ring_index_mask_eq take_bit_eq_mask [symmetric] unsigned_take_bit_eq
  by (rule take_bit_eq_mod)

lemma ring_index_bound: "ring_index ts < 2 ^ 20"
  by (simp add: ring_index_mod)

lemma mod_window_inj:
  assumes "(m :: nat) mod 2 ^ 20 = n mod 2 ^ 20" and "m \<le> n" and "n < m + 2 ^ 20"
  shows "m = n"
  using assms mod_eq_dvd_iff_nat [of m n "2 ^ 20"] dvd_imp_le [of "2 ^ 20" "n - m"]
  by (cases "m = n") auto

text \<open>
  The abstract manager: the read timestamp, the next timestamp to hand out, and the set of finished
  timestamps that the read timestamp has not reached yet. Finishing a timestamp moves the read
  timestamp to the end of the gap-free prefix.
\<close>

definition rts :: "vm \<Rightarrow> nat" where
  "rts m = unat (read_ts m)"

definition wts :: "vm \<Rightarrow> nat" where
  "wts m = unat (write_ts m)"

definition finished :: "vm \<Rightarrow> nat set" where
  "finished m = {n. rts m < n \<and> n < wts m \<and> bs_get (buf m) (n mod 2 ^ 20)}"

record spec_vm =
  spec_read :: nat
  spec_next :: nat
  spec_done :: "nat set"

definition abs_vm :: "vm \<Rightarrow> spec_vm" where
  "abs_vm m = \<lparr>spec_read = rts m, spec_next = wts m, spec_done = finished m\<rparr>"

definition prefix_end :: "nat set \<Rightarrow> nat \<Rightarrow> nat" where
  "prefix_end D r = (LEAST n. r \<le> n \<and> Suc n \<notin> D)"

definition spec_finish :: "spec_vm \<Rightarrow> nat \<Rightarrow> spec_vm" where
  "spec_finish a t =
     (let D = insert t (spec_done a); r = prefix_end D (spec_read a)
      in a\<lparr>spec_read := r, spec_done := D - {..r}\<rparr>)"

lemma prefix_end_props:
  assumes "finite D"
  shows "r \<le> prefix_end D r" and "Suc (prefix_end D r) \<notin> D"
    and "\<And>n. r < n \<Longrightarrow> n \<le> prefix_end D r \<Longrightarrow> n \<in> D"
proof -
  obtain b where b: "\<forall>n\<in>D. n < b"
    using assms finite_nat_set_iff_bounded by blast
  have ex: "r \<le> r + b \<and> Suc (r + b) \<notin> D"
    using b by auto
  show "r \<le> prefix_end D r" "Suc (prefix_end D r) \<notin> D"
    using LeastI [of "\<lambda>n. r \<le> n \<and> Suc n \<notin> D", OF ex] by (simp_all add: prefix_end_def)
  fix n assume n: "r < n" "n \<le> prefix_end D r"
  then have "n - 1 < prefix_end D r" by simp
  from not_less_Least [OF this [unfolded prefix_end_def]] n(1) show "n \<in> D"
    by (auto simp: prefix_end_def)
qed

lemma prefix_end_unique:
  assumes "r \<le> e" and "Suc e \<notin> D" and "\<And>n. r < n \<Longrightarrow> n \<le> e \<Longrightarrow> n \<in> D"
  shows "prefix_end D r = e"
  unfolding prefix_end_def
proof (rule Least_equality)
  fix n assume n: "r \<le> n \<and> Suc n \<notin> D"
  show "e \<le> n"
  proof (rule ccontr)
    assume "\<not> e \<le> n"
    then show False using n assms(3) [of "Suc n"] by auto
  qed
qed (use assms in auto)

text \<open>
  The ring invariant: timestamps are in a window that the ring can represent, and every set bit
  stands for a timestamp after the first unfinished one.
\<close>

definition ring_ok :: "vm \<Rightarrow> bool" where
  "ring_ok m \<longleftrightarrow> rts m < wts m \<and> wts m \<le> rts m + 2 ^ 20 + 1 \<and> 2 ^ 20 \<le> bs_bits (buf m) \<and>
     (\<forall>i. bs_get (buf m) i \<longrightarrow> (\<exists>n. Suc (rts m) < n \<and> n < wts m \<and> i = n mod 2 ^ 20))"

lemma ring_ok_bit:
  assumes "ring_ok m" and "bs_get (buf m) (n mod 2 ^ 20)" and "rts m < n" and "n \<le> wts m"
  shows "n \<in> finished m \<and> Suc (rts m) < n"
proof -
  from assms(1,2) obtain k where k: "Suc (rts m) < k" "k < wts m" "n mod 2 ^ 20 = k mod 2 ^ 20"
    unfolding ring_ok_def by blast
  have "wts m \<le> rts m + 2 ^ 20 + 1" using assms(1) by (simp add: ring_ok_def)
  then have "n = k"
    using mod_window_inj [of n k] mod_window_inj [of k n] k assms(3,4)
    by (cases "n \<le> k") auto
  then show ?thesis using k assms by (simp add: finished_def)
qed

definition marked :: "bitset \<Rightarrow> nat \<Rightarrow> nat \<Rightarrow> nat set" where
  "marked b r w = {n. r < n \<and> n < w \<and> bs_get b (n mod 2 ^ 20)}"

definition marks_in :: "bitset \<Rightarrow> nat \<Rightarrow> nat \<Rightarrow> bool" where
  "marks_in b r w \<longleftrightarrow> r < w \<and> w \<le> r + 2 ^ 20 + 1 \<and>
     (\<forall>i. bs_get b i \<longrightarrow> (\<exists>n. r < n \<and> n < w \<and> i = n mod 2 ^ 20))"

lemma finite_marked [simp]: "finite (marked b r w)"
  by (rule finite_subset [of _ "{..<w}"]) (auto simp: marked_def)

lemma window_index_eq:
  assumes "w \<le> r + 2 ^ 20 + 1" and "r < n" "n < w" "r < k" "k < (w :: nat)"
  shows "n mod 2 ^ 20 = k mod 2 ^ 20 \<longleftrightarrow> n = k"
  using mod_window_inj [of n k] mod_window_inj [of k n] assms by (cases "n \<le> k") auto

lemma marks_in_marked:
  assumes "marks_in b r w"
  shows "bs_get b i \<longleftrightarrow> (\<exists>n \<in> marked b r w. i = n mod 2 ^ 20)"
  using assms unfolding marks_in_def marked_def by blast

lemma marks_in_next:
  assumes "marks_in b r w"
  shows "bs_get b (Suc r mod 2 ^ 20) \<longleftrightarrow> Suc r \<in> marked b r w"
proof
  assume "bs_get b (Suc r mod 2 ^ 20)"
  then obtain n where n: "n \<in> marked b r w" "Suc r mod 2 ^ 20 = n mod 2 ^ 20"
    using marks_in_marked [OF assms] by blast
  have "Suc r = n"
    using n assms mod_window_inj [of "Suc r" n] by (auto simp: marked_def marks_in_def)
  then show "Suc r \<in> marked b r w" using n by simp
qed (simp add: marked_def)

lemma marked_reset:
  assumes "marks_in b r w" and "Suc r < w"
  shows "marked (bs_reset b (Suc r mod 2 ^ 20)) (Suc r) w = marked b r w - {Suc r}"
    and "marks_in (bs_reset b (Suc r mod 2 ^ 20)) (Suc r) w"
proof -
  have w: "w \<le> r + 2 ^ 20 + 1" using assms(1) by (simp add: marks_in_def)
  have eq: "n mod 2 ^ 20 = Suc r mod 2 ^ 20 \<longleftrightarrow> n = Suc r" if "r < n" "n < w" for n
    using window_index_eq [OF w that, of "Suc r"] assms(2) by simp
  then show "marked (bs_reset b (Suc r mod 2 ^ 20)) (Suc r) w = marked b r w - {Suc r}"
    by (auto simp: marked_def bs_get_reset)
  show "marks_in (bs_reset b (Suc r mod 2 ^ 20)) (Suc r) w"
    unfolding marks_in_def
  proof (intro conjI allI impI)
    fix i assume "bs_get (bs_reset b (Suc r mod 2 ^ 20)) i"
    then have i: "bs_get b i" "i \<noteq> Suc r mod 2 ^ 20" by (auto simp: bs_get_reset)
    then obtain n where n: "r < n" "n < w" "i = n mod 2 ^ 20"
      using assms(1) unfolding marks_in_def by blast
    then have "Suc r < n" using i(2) by (cases "n = Suc r") auto
    then show "\<exists>n>Suc r. n < w \<and> i = n mod 2 ^ 20" using n by blast
  qed (use assms w in auto)
qed

lemma prefix_end_step:
  assumes "finite D" and "Suc r \<in> D"
  shows "prefix_end (D - {Suc r}) (Suc r) = prefix_end D r"
proof (rule prefix_end_unique)
  note pe = prefix_end_props [OF assms(1), of r]
  show "Suc r \<le> prefix_end D r"
    using pe(1,2) assms(2) by (cases "prefix_end D r = r") auto
  show "Suc (prefix_end D r) \<notin> D - {Suc r}" using pe(2) by simp
  show "n \<in> D - {Suc r}" if "Suc r < n" "n \<le> prefix_end D r" for n
    using pe(3) [of n] that by simp
qed

lemma prefix_end_none: "Suc r \<notin> D \<Longrightarrow> prefix_end D r = r"
  by (rule prefix_end_unique) auto

lemma drain_spec:
  assumes "marks_in b (unat ts) w" and "w < 2 ^ 32"
  shows "unat (snd (drain b ts)) = prefix_end (marked b (unat ts) w) (unat ts) \<and>
    bs_bits (fst (drain b ts)) = bs_bits b \<and>
    (\<forall>i. bs_get (fst (drain b ts)) i \<longleftrightarrow>
      (\<exists>n\<in>marked b (unat ts) w. prefix_end (marked b (unat ts) w) (unat ts) < n \<and> i = n mod 2 ^ 20))"
  using assms
proof (induction b ts rule: drain.induct)
  case (1 b ts)
  let ?D = "marked b (unat ts) w"
  have ts: "unat ts < w" using "1.prems"(1) by (simp add: marks_in_def)
  then have next_ts: "unat (ts + 1) = Suc (unat ts)"
    using "1.prems"(2) by (intro unat_Suc_word) simp
  note nxt = marks_in_next [OF "1.prems"(1)]
  show ?case
  proof (cases "bs_get b (Suc (unat ts) mod 2 ^ 20)")
    case False
    have "drain b ts = (bs_reset b (Suc (unat ts) mod 2 ^ 20), ts)"
      using False by (subst drain.simps)
        (simp add: atomic_reset_with_ret_eq ring_index_mod next_ts)
    moreover have "prefix_end ?D (unat ts) = unat ts"
      using False nxt by (simp add: prefix_end_none)
    moreover have "bs_get (bs_reset b (Suc (unat ts) mod 2 ^ 20)) i \<longleftrightarrow>
        (\<exists>n\<in>?D. unat ts < n \<and> i = n mod 2 ^ 20)" for i
    proof -
      have "bs_get (bs_reset b (Suc (unat ts) mod 2 ^ 20)) i \<longleftrightarrow> bs_get b i"
        using False unfolding bs_get_reset by blast
      then show ?thesis
        unfolding marks_in_marked [OF "1.prems"(1), of i] by (auto simp: marked_def)
    qed
    ultimately show ?thesis by (simp add: bs_bits_def)
  next
    case True
    let ?b = "bs_reset b (Suc (unat ts) mod 2 ^ 20)"
    have mem: "Suc (unat ts) \<in> ?D" using True nxt by simp
    then have lt: "Suc (unat ts) < w" by (simp add: marked_def)
    have rec: "drain b ts = drain ?b (ts + 1)"
      using True by (subst drain.simps) (simp add: atomic_reset_with_ret_eq ring_index_mod next_ts)
    have D1: "marked ?b (unat (ts + 1)) w = ?D - {Suc (unat ts)}"
      and m1: "marks_in ?b (unat (ts + 1)) w"
      using marked_reset [OF "1.prems"(1) lt] by (simp_all only: next_ts)
    have pe: "prefix_end (?D - {Suc (unat ts)}) (unat (ts + 1)) = prefix_end ?D (unat ts)"
      unfolding next_ts by (rule prefix_end_step) (use mem in auto)
    have gt: "unat ts < prefix_end ?D (unat ts)"
      using prefix_end_props(1,2) [of ?D "unat ts"] mem
      by (cases "prefix_end ?D (unat ts) = unat ts") auto
    note IH = "1.IH" [OF refl, unfolded atomic_reset_with_ret_eq ring_index_mod next_ts fst_conv
      snd_conv, OF True m1 [unfolded next_ts] "1.prems"(2)]
    have "(\<exists>n\<in>?D - {Suc (unat ts)}. prefix_end ?D (unat ts) < n \<and> i = n mod 2 ^ 20) \<longleftrightarrow>
        (\<exists>n\<in>?D. prefix_end ?D (unat ts) < n \<and> i = n mod 2 ^ 20)" for i
      using gt by auto
    then show ?thesis
      using IH unfolding rec D1 [unfolded next_ts] pe [unfolded next_ts] by (simp add: bs_bits_def)
  qed
qed

lemma wts_bound: "wts m < 2 ^ 32"
  using unsigned_less [where 'a = nat and w = "write_ts m"] by (simp add: wts_def)

lemma ring_ok_next_read: "ring_ok m \<Longrightarrow> unat (read_ts m + 1) = Suc (rts m)"
  using wts_bound [of m] unat_Suc_word [of "read_ts m"] by (simp add: ring_ok_def rts_def)

lemma finite_finished [simp]: "finite (finished m)"
  by (rule finite_subset [of _ "{..<wts m}"]) (auto simp: finished_def)

lemma finished_gt: "n \<in> finished m \<Longrightarrow> rts m < n"
  by (simp add: finished_def)

lemma ring_ok_marks:
  assumes "ring_ok m" and "Suc (rts m) < wts m"
  shows "marks_in (buf m) (Suc (rts m)) (wts m)"
    and "marked (buf m) (Suc (rts m)) (wts m) = finished m"
proof -
  show "marks_in (buf m) (Suc (rts m)) (wts m)"
    using assms by (auto simp: ring_ok_def marks_in_def)
  show "marked (buf m) (Suc (rts m)) (wts m) = finished m"
    using ring_ok_bit [OF assms(1)] by (auto simp: marked_def finished_def)
qed

lemma insert_publish_next:
  assumes ok: "ring_ok m" and ts: "unat ts = Suc (rts m)" "unat ts < wts m"
  shows "abs_vm (insert_publish m ts) = spec_finish (abs_vm m) (unat ts)"
    and "ring_ok (insert_publish m ts)"
proof -
  let ?m = "insert_publish m ts" and ?F = "finished m"
  let ?r = "prefix_end ?F (unat ts)"
  have "ts = read_ts m + 1"
    using ring_ok_next_read [OF ok] ts(1) by (simp add: word_unat_eq_iff)
  then have m: "?m = m\<lparr>buf := fst (drain (buf m) ts), read_ts := snd (drain (buf m) ts)\<rparr>"
    by (simp add: insert_publish_def Let_def)
  note marks = ring_ok_marks [OF ok, folded ts(1), OF ts(2)]
  note d = drain_spec [OF marks(1) wts_bound, unfolded marks(2)]
  have r: "rts ?m = ?r" and w: "wts ?m = wts m" and bits: "bs_bits (buf ?m) = bs_bits (buf m)"
    and get: "\<And>i. bs_get (buf ?m) i \<longleftrightarrow> (\<exists>n\<in>?F. ?r < n \<and> i = n mod 2 ^ 20)"
    using d by (simp_all add: m rts_def wts_def)
  note pe = prefix_end_props [OF finite_finished [of m], of "unat ts"]
  have win: "wts m \<le> rts m + 2 ^ 20 + 1" using ok by (simp add: ring_ok_def)
  have r_lt: "?r < wts m"
    using pe(3) [of "wts m"] ts(2) by (cases "?r < wts m") (auto simp: finished_def)
  have fin: "finished ?m = {n \<in> ?F. ?r < n}"
  proof (intro set_eqI iffI)
    fix n assume "n \<in> finished ?m"
    then obtain k where k: "k \<in> ?F" "?r < k" "n mod 2 ^ 20 = k mod 2 ^ 20"
      and n: "?r < n" "n < wts m"
      by (auto simp: finished_def [of ?m] r w get)
    have "rts m < n" "rts m < k" "k < wts m"
      using k(1) n(1) pe(1) ts(1) by (auto simp: finished_def)
    then have "n = k" using k(3) n(2) window_index_eq [OF win] by blast
    then show "n \<in> {n \<in> ?F. ?r < n}" using k by simp
  next
    fix n assume "n \<in> {n \<in> ?F. ?r < n}"
    then show "n \<in> finished ?m"
      unfolding finished_def [of ?m] r w get by (auto simp: finished_def)
  qed
  have notin: "unat ts \<notin> ?F" using ring_ok_bit [OF ok, of "unat ts"] ts
    by (auto simp: finished_def)
  have D: "prefix_end (insert (unat ts) ?F) (rts m) = ?r"
    using prefix_end_step [of "insert (unat ts) ?F" "rts m"] notin ts(1) by simp
  show "abs_vm ?m = spec_finish (abs_vm m) (unat ts)"
    using pe(1) by (auto simp: abs_vm_def spec_finish_def Let_def r w D fin)
  have "\<exists>n. Suc ?r < n \<and> n < wts m \<and> i = n mod 2 ^ 20" if i: "bs_get (buf ?m) i" for i
  proof -
    from i obtain n where n: "n \<in> ?F" "?r < n" "i = n mod 2 ^ 20" unfolding get by blast
    then have "Suc ?r < n" using pe(2) by (cases "n = Suc ?r") auto
    then show ?thesis using n by (auto simp: finished_def)
  qed
  then show "ring_ok ?m"
    using ok r_lt pe(1) ts(1) unfolding ring_ok_def r w bits by auto
qed

lemma mark_ts:
  assumes ok: "ring_ok m" and ts: "Suc (rts m) < unat ts" "unat ts < wts m"
  defines "m' \<equiv> m\<lparr>buf := atomic_set (buf m) (ring_index ts)\<rparr>"
  shows "abs_vm m' = spec_finish (abs_vm m) (unat ts)" and "ring_ok m'"
proof -
  have get: "bs_get (buf m') i \<longleftrightarrow> bs_get (buf m) i \<or> i = unat ts mod 2 ^ 20" for i
    using ok ring_index_bound [of ts] bs_get_set [of "ring_index ts" "buf m" i]
    by (auto simp: m'_def atomic_set_eq ring_ok_def bs_bits_def ring_index_mod)
  have r: "rts m' = rts m" and w: "wts m' = wts m" and bits: "bs_bits (buf m') = bs_bits (buf m)"
    by (simp_all add: m'_def rts_def wts_def bs_bits_def atomic_set_eq)
  have win: "wts m \<le> rts m + 2 ^ 20 + 1" using ok by (simp add: ring_ok_def)
  have fin: "finished m' = insert (unat ts) (finished m)"
    using window_index_eq [OF win _ _ _ ts(2)] ts unfolding finished_def r w get by auto
  have "Suc (rts m) \<notin> insert (unat ts) (finished m)"
    using ts ring_ok_bit [OF ok, of "Suc (rts m)"] by (auto simp: finished_def)
  then have "prefix_end (insert (unat ts) (finished m)) (rts m) = rts m"
    by (rule prefix_end_none)
  then show "abs_vm m' = spec_finish (abs_vm m) (unat ts)"
    using ts by (auto simp: abs_vm_def spec_finish_def Let_def r w fin dest: finished_gt)
  show "ring_ok m'"
    using ok ts unfolding ring_ok_def r w bits get by blast
qed

lemma insert_publish_refines:
  assumes ok: "ring_ok m" and ts: "rts m < unat ts" "unat ts < wts m"
  shows "abs_vm (insert_publish m ts) = spec_finish (abs_vm m) (unat ts) \<and>
    ring_ok (insert_publish m ts)"
proof (cases "unat ts = Suc (rts m)")
  case True
  then show ?thesis using insert_publish_next [OF ok] ts by simp
next
  case False
  then have "insert_publish m ts = m\<lparr>buf := atomic_set (buf m) (ring_index ts)\<rparr>"
    using ring_ok_next_read [OF ok] by (auto simp: insert_publish_def)
  then show ?thesis using mark_ts [OF ok, of ts] ts False by simp
qed

section \<open>Counters and exclusion\<close>

text \<open>What a thread at \<open>p\<close> contributes to \<^verbatim>\<open>pending_reqs_\<close>, and who owns the update slot.\<close>

fun pc_plus :: "pc \<Rightarrow> int" where
  "pc_plus R_load = 1" | "pc_plus R_undo = 1" | "pc_plus (R_hold _) = 1"
| "pc_plus I_load = 1" | "pc_plus I_undo = 1" | "pc_plus (I_hold _) = 1" | "pc_plus I_done = 1"
| "pc_plus _ = 0"

fun pc_minus :: "pc \<Rightarrow> int" where
  "pc_minus U_wait = 1" | "pc_minus U_get = 1" | "pc_minus (U_hold _) = 1" | "pc_minus U_add = 1"
| "pc_minus _ = 0"

fun pc_owner :: "pc \<Rightarrow> int" where
  "pc_owner U_sub = 1" | "pc_owner U_wait = 1" | "pc_owner U_get = 1" | "pc_owner (U_hold _) = 1"
| "pc_owner U_add = 1" | "pc_owner U_clr = 1"
| "pc_owner _ = 0"

text \<open>An update transaction that got past the wait loop; a read or insert transaction under way.\<close>

fun pc_exclusive :: "pc \<Rightarrow> bool" where
  "pc_exclusive U_get = True" | "pc_exclusive (U_hold _) = True" | "pc_exclusive _ = False"

fun pc_shared :: "pc \<Rightarrow> bool" where
  "pc_shared R_load = True" | "pc_shared (R_hold _) = True" | "pc_shared I_load = True"
| "pc_shared (I_hold _) = True" | "pc_shared I_done = True" | "pc_shared _ = False"

definition thread_sum :: "nat \<Rightarrow> (pc \<Rightarrow> int) \<Rightarrow> sys \<Rightarrow> int" where
  "thread_sum N f s = (\<Sum>i<N. f (pcs s i))"

lemma pc_plus_nonneg: "0 \<le> pc_plus p" by (cases p) auto
lemma pc_minus_nonneg: "0 \<le> pc_minus p" by (cases p) auto
lemma pc_owner_nonneg: "0 \<le> pc_owner p" by (cases p) auto
lemma pc_plus_minus_le: "pc_plus p + pc_minus p \<le> 1" by (cases p) auto
lemma pc_minus_le_owner: "pc_minus p \<le> pc_owner p" by (cases p) auto
lemma pc_shared_plus: "pc_shared p \<Longrightarrow> pc_plus p = 1" by (cases p) auto
lemma pc_exclusive_minus: "pc_exclusive p \<Longrightarrow> pc_minus p = 1" by (cases p) auto

lemma goto_simps [simp]: "mgr (goto s i p m) = m" "pcs (goto s i p m) = (pcs s)(i := p)"
  by (simp_all add: goto_def)

lemma thread_sum_goto:
  assumes "i < N"
  shows "thread_sum N f (goto s i p m) = thread_sum N f s - f (pcs s i) + f p"
proof -
  have "(\<Sum>j\<in>{..<N} - {i}. f ((pcs (goto s i p m)) j)) = (\<Sum>j\<in>{..<N} - {i}. f (pcs s j))"
    by (rule sum.cong) auto
  moreover have "thread_sum N f s = f (pcs s i) + (\<Sum>j\<in>{..<N} - {i}. f (pcs s j))" for s
    unfolding thread_sum_def using assms by (simp add: sum.remove)
  ultimately show ?thesis by simp
qed

lemma thread_sum_ge: 
  assumes "i < N" and "\<And>p. 0 \<le> f p"
  shows "f (pcs s i) \<le> thread_sum N f s"
  unfolding thread_sum_def using assms by (intro member_le_sum) auto

lemma thread_sum_mono: "(\<And>p. f p \<le> g p) \<Longrightarrow> thread_sum N f s \<le> thread_sum N g s"
  unfolding thread_sum_def by (rule sum_mono) auto

lemma thread_sum_plus_minus: "thread_sum N pc_plus s + thread_sum N pc_minus s \<le> int N"
proof -
  have "thread_sum N pc_plus s + thread_sum N pc_minus s = (\<Sum>i<N. pc_plus (pcs s i) + pc_minus (pcs s i))"
    by (simp add: thread_sum_def sum.distrib)
  also have "\<dots> \<le> (\<Sum>i<N. 1)" by (rule sum_mono) (rule pc_plus_minus_le)
  finally show ?thesis by simp
qed

lemma thread_sum_two:
  assumes "i < N" "j < N" "i \<noteq> j" and "\<And>p. 0 \<le> f p"
  shows "f (pcs s i) + f (pcs s j) \<le> thread_sum N f s"
proof -
  have "(\<Sum>k\<in>{i, j}. f (pcs s k)) \<le> (\<Sum>k<N. f (pcs s k))"
    using assms by (intro sum_mono2) auto
  then show ?thesis using assms(3) by (simp add: thread_sum_def)
qed

definition counters_ok :: "nat \<Rightarrow> sys \<Rightarrow> bool" where
  "counters_ok N s \<longleftrightarrow> int N \<le> thread_num (mgr s) \<and>
     pending_reqs (mgr s) = thread_sum N pc_plus s - thread_num (mgr s) * thread_sum N pc_minus s \<and>
     pending_update_reqs (mgr s) = thread_sum N pc_owner s \<and> thread_sum N pc_owner s \<le> 1"

lemma insert_publish_frame [simp]:
  "pending_reqs (insert_publish m ts) = pending_reqs m"
  "pending_update_reqs (insert_publish m ts) = pending_update_reqs m"
  "thread_num (insert_publish m ts) = thread_num m"
  "write_ts (insert_publish m ts) = write_ts m"
  by (simp_all add: insert_publish_def Let_def)

lemma update_publish_frame [simp]:
  "pending_reqs (update_publish m ts) = pending_reqs m"
  "pending_update_reqs (update_publish m ts) = pending_update_reqs m"
  "thread_num (update_publish m ts) = thread_num m"
  "write_ts (update_publish m ts) = write_ts m"
  by (simp_all add: update_publish_def)

lemma owner_at:
  assumes "i < N" and "pc_owner (pcs s i) = 1"
  shows "1 \<le> thread_sum N pc_owner s"
  using thread_sum_ge [of i N pc_owner s] assms pc_owner_nonneg by simp

lemma counters_step:
  assumes "vm_step N s t" and "counters_ok N s"
  shows "counters_ok N t"
  using assms
proof (induction rule: vm_step.induct)
  case (upd_clr i s)
  then have "1 \<le> thread_sum N pc_owner s" using owner_at [of i N s] by simp
  with upd_clr show ?case by (simp add: counters_ok_def thread_sum_goto)
qed (auto simp: counters_ok_def thread_sum_goto release_read_timestamp_def algebra_simps)

lemma pending_negative:
  assumes "counters_ok N s" and "i < N" and "pc_minus (pcs s i) = 1"
  shows "pending_reqs (mgr s) = thread_sum N pc_plus s - thread_num (mgr s)"
    and "pending_reqs (mgr s) < 0"
proof -
  have "1 \<le> thread_sum N pc_minus s"
    using thread_sum_ge [of i N pc_minus s] assms(2,3) pc_minus_nonneg by simp
  moreover have "thread_sum N pc_minus s \<le> thread_sum N pc_owner s"
    by (rule thread_sum_mono) (rule pc_minus_le_owner)
  ultimately have "thread_sum N pc_minus s = 1"
    using assms(1) by (simp add: counters_ok_def)
  then show "pending_reqs (mgr s) = thread_sum N pc_plus s - thread_num (mgr s)"
    "pending_reqs (mgr s) < 0"
    using assms(1) thread_sum_plus_minus [of N s] by (simp_all add: counters_ok_def)
qed

lemma no_minus_at_sub:
  assumes "counters_ok N s" and "i < N" and "pcs s i = U_sub"
  shows "thread_sum N pc_minus s = 0"
proof -
  have "(\<lambda>p. pc_owner p - pc_minus p) (pcs s i) \<le> thread_sum N (\<lambda>p. pc_owner p - pc_minus p) s"
    by (rule thread_sum_ge [OF assms(2)]) (simp add: pc_minus_le_owner)
  then have "1 \<le> thread_sum N pc_owner s - thread_sum N pc_minus s"
    using assms(3) by (simp add: thread_sum_def sum_subtractf)
  moreover have "0 \<le> thread_sum N pc_minus s"
    unfolding thread_sum_def by (rule sum_nonneg) (rule pc_minus_nonneg)
  ultimately show ?thesis using assms(1) by (simp add: counters_ok_def)
qed

lemma no_shared:
  assumes "thread_sum N pc_plus s = 0" and "j < N"
  shows "\<not> pc_shared (pcs s j)"
  using thread_sum_ge [of j N pc_plus s] assms pc_plus_nonneg pc_shared_plus by fastforce

definition exclusion :: "nat \<Rightarrow> sys \<Rightarrow> bool" where
  "exclusion N s \<longleftrightarrow> (\<forall>i j. i < N \<longrightarrow> j < N \<longrightarrow> pc_exclusive (pcs s i) \<longrightarrow> \<not> pc_shared (pcs s j))"

lemma exclusion_keep:
  assumes "exclusion N s"
    and "pc_exclusive p \<Longrightarrow> pc_exclusive (pcs s i) \<or> (\<forall>j<N. \<not> pc_shared (pcs s j))"
    and "pc_shared p \<Longrightarrow> pc_shared (pcs s i) \<or> (\<forall>j<N. \<not> pc_exclusive (pcs s j))"
    and "i < N" and "\<not> (pc_exclusive p \<and> pc_shared p)"
  shows "exclusion N (goto s i p m)"
  using assms unfolding exclusion_def by auto

lemma no_exclusive:
  "counters_ok N s \<Longrightarrow> pending_reqs (mgr s) \<ge> 0 \<Longrightarrow> \<forall>j<N. \<not> pc_exclusive (pcs s j)"
  using pending_negative(2) pc_exclusive_minus by fastforce

lemma exclusion_step:
  assumes "vm_step N s t" and c: "counters_ok N s" and "exclusion N s"
  shows "exclusion N t"
  using assms
proof (induction rule: vm_step.induct)
  case (read_ok i s)
  then show ?case using no_exclusive by (intro exclusion_keep) auto
next
  case (ins_ok i s)
  then show ?case using no_exclusive by (intro exclusion_keep) auto
next
  case (upd_sub i s)
  have "thread_sum N pc_plus s = 0" if "pending_reqs (mgr s) = 0"
    using that upd_sub no_minus_at_sub [of N s i] by (simp add: counters_ok_def)
  then show ?case
    using upd_sub no_shared [of N s] by (intro exclusion_keep) (auto split: if_splits)
next
  case (upd_wait i s)
  then have "thread_sum N pc_plus s = 0"
    using pending_negative(1) [of N s i] by simp
  then show ?case using upd_wait no_shared [of N s] by (intro exclusion_keep) auto
qed (auto intro!: exclusion_keep)

section \<open>Timestamps\<close>

fun hold_of :: "pc \<Rightarrow> nat option" where
  "hold_of (I_hold ts) = Some (unat ts)"
| "hold_of (U_hold ts) = Some (unat ts)"
| "hold_of _ = None"

definition held :: "nat \<Rightarrow> sys \<Rightarrow> nat set" where
  "held N s = {n. \<exists>i<N. hold_of (pcs s i) = Some n}"

definition holders_unique :: "nat \<Rightarrow> sys \<Rightarrow> bool" where
  "holders_unique N s \<longleftrightarrow> (\<forall>i j n. i < N \<longrightarrow> j < N \<longrightarrow>
     hold_of (pcs s i) = Some n \<longrightarrow> hold_of (pcs s j) = Some n \<longrightarrow> i = j)"

definition snapshots_old :: "nat \<Rightarrow> sys \<Rightarrow> bool" where
  "snapshots_old N s \<longleftrightarrow> (\<forall>i ts. i < N \<longrightarrow> pcs s i = R_hold ts \<longrightarrow> unat ts \<le> rts (mgr s))"

definition update_last :: "nat \<Rightarrow> sys \<Rightarrow> bool" where
  "update_last N s \<longleftrightarrow> (\<forall>i ts. i < N \<longrightarrow> pcs s i = U_hold ts \<longrightarrow>
     unat ts = Suc (rts (mgr s)) \<and> wts (mgr s) = Suc (unat ts))"

definition split_ok :: "nat \<Rightarrow> sys \<Rightarrow> bool" where
  "split_ok N s \<longleftrightarrow> held N s \<union> finished (mgr s) = {rts (mgr s)<..<wts (mgr s)} \<and>
     held N s \<inter> finished (mgr s) = {}"

definition ts_ok :: "nat \<Rightarrow> sys \<Rightarrow> bool" where
  "ts_ok N s \<longleftrightarrow> ring_ok (mgr s) \<and> split_ok N s \<and> holders_unique N s \<and> snapshots_old N s \<and>
     update_last N s"

lemma held_goto:
  assumes "i < N"
  shows "x \<in> held N (goto s i p m) \<longleftrightarrow>
    hold_of p = Some x \<or> (\<exists>j<N. j \<noteq> i \<and> hold_of (pcs s j) = Some x)"
proof -
  have "x \<in> held N (goto s i p m) \<longleftrightarrow> (\<exists>j<N. hold_of (if j = i then p else pcs s j) = Some x)"
    by (simp add: held_def)
  also have "\<dots> \<longleftrightarrow> hold_of p = Some x \<or> (\<exists>j<N. j \<noteq> i \<and> hold_of (pcs s j) = Some x)"
    using assms by metis
  finally show ?thesis .
qed

lemma held_split:
  assumes "i < N"
  shows "x \<in> held N s \<longleftrightarrow>
    hold_of (pcs s i) = Some x \<or> (\<exists>j<N. j \<noteq> i \<and> hold_of (pcs s j) = Some x)"
  using assms unfolding held_def by blast

lemma held_same:
  "i < N \<Longrightarrow> hold_of p = hold_of (pcs s i) \<Longrightarrow> held N (goto s i p m) = held N s"
  by (intro set_eqI) (simp add: held_goto held_split [of i N])

lemma held_new:
  "i < N \<Longrightarrow> hold_of (pcs s i) = None \<Longrightarrow> hold_of p = Some n \<Longrightarrow>
   held N (goto s i p m) = insert n (held N s)"
  by (intro set_eqI) (auto simp: held_goto held_split [of i N])

lemma held_drop:
  assumes "i < N" and "holders_unique N s" and "hold_of (pcs s i) = Some n" and "hold_of p = None"
  shows "held N (goto s i p m) = held N s - {n}"
proof (rule set_eqI)
  fix x
  have "\<not> (j < N \<and> j \<noteq> i \<and> hold_of (pcs s j) = Some n)" for j
    using assms unfolding holders_unique_def by blast
  then show "x \<in> held N (goto s i p m) \<longleftrightarrow> x \<in> held N s - {n}"
    using assms by (auto simp: held_goto held_split [of i N])
qed

lemma holders_keep:
  assumes "holders_unique N s" and "hold_of p = None"
  shows "holders_unique N (goto s i p m)"
  using assms unfolding holders_unique_def by simp

lemma holders_new:
  assumes "holders_unique N s" and "hold_of p = Some n" and "n \<notin> held N s"
  shows "holders_unique N (goto s i p m)"
  using assms unfolding holders_unique_def held_def by auto

definition same_ts :: "vm \<Rightarrow> vm \<Rightarrow> bool" where
  "same_ts m m' \<longleftrightarrow> read_ts m' = read_ts m \<and> write_ts m' = write_ts m \<and> buf m' = buf m"

lemma same_ts_simps:
  assumes "same_ts m m'"
  shows "rts m' = rts m" "wts m' = wts m" "finished m' = finished m" "ring_ok m' = ring_ok m"
  using assms by (simp_all add: same_ts_def rts_def wts_def finished_def ring_ok_def)

fun is_hold :: "pc \<Rightarrow> bool" where
  "is_hold (R_hold _) = True" | "is_hold (I_hold _) = True" | "is_hold (U_hold _) = True"
| "is_hold _ = False"

lemma ts_ok_same:
  assumes "ts_ok N s" and "i < N" and "hold_of (pcs s i) = None" and "\<not> is_hold p"
    and "same_ts (mgr s) m"
  shows "ts_ok N (goto s i p m)"
proof -
  have p: "hold_of p = None" using assms(4) by (cases p) auto
  have "snapshots_old N (goto s i p m)" "update_last N (goto s i p m)"
    using assms(1,4) unfolding ts_ok_def snapshots_old_def update_last_def
    by (simp_all add: same_ts_simps [OF assms(5)]) (metis is_hold.simps)+
  moreover have "holders_unique N (goto s i p m)"
    using assms(1,2) p by (intro holders_keep) (simp_all add: ts_ok_def)
  ultimately show ?thesis
    using assms(1) unfolding ts_ok_def split_ok_def
    by (simp add: same_ts_simps [OF assms(5)] held_same [OF assms(2)] p assms(3))
qed

text \<open>Handing out the next timestamp.\<close>

lemma write_next:
  assumes ok: "ring_ok m" and win: "in_window m"
  defines "m' \<equiv> m\<lparr>write_ts := write_ts m + 1\<rparr>"
  shows "rts m' = rts m" and "wts m' = Suc (wts m)" and "finished m' = finished m" and "ring_ok m'"
proof -
  show r: "rts m' = rts m" by (simp add: m'_def rts_def)
  show w: "wts m' = Suc (wts m)"
    using win unat_Suc_word [of "write_ts m"] by (simp add: m'_def wts_def in_window_def)
  have b: "buf m' = buf m" by (simp add: m'_def)
  show "finished m' = finished m"
    using ring_ok_bit [OF ok, of "wts m"] ok unfolding finished_def r w b
    by (auto simp: ring_ok_def less_Suc_eq)
  have "wts m \<le> rts m + 2 ^ 20"
    using win by (simp add: in_window_def rts_def wts_def unat_ring_buf_size)
  then show "ring_ok m'"
    using ok unfolding ring_ok_def r w b by (auto intro: less_SucI)
qed

lemma ts_ok_write:
  assumes inv: "ts_ok N s" "i < N" "in_window (mgr s)" and p: "hold_of (pcs s i) = None"
    and p': "hold_of p' = Some (wts (mgr s))"
    and last: "\<And>j ts. j < N \<Longrightarrow> j \<noteq> i \<Longrightarrow> pcs s j \<noteq> U_hold ts"
    and upd: "\<And>ts. p' = U_hold ts \<Longrightarrow> wts (mgr s) = Suc (rts (mgr s))"
  shows "ts_ok N (goto s i p' ((mgr s)\<lparr>write_ts := write_ts (mgr s) + 1\<rparr>))"
proof -
  have ok: "ring_ok (mgr s)" using inv(1) by (simp add: ts_ok_def)
  note w = write_next [OF ok inv(3)]
  have fresh: "wts (mgr s) \<notin> held N s" "wts (mgr s) \<notin> finished (mgr s)"
    using inv(1) unfolding ts_ok_def split_ok_def by auto
  show ?thesis
    unfolding ts_ok_def split_ok_def goto_simps w(1-3) held_new [OF inv(2) p p']
  proof (intro conjI)
    show "insert (wts (mgr s)) (held N s) \<union> finished (mgr s)
        = {rts (mgr s)<..<Suc (wts (mgr s))}"
      using inv(1) ok by (auto simp: ts_ok_def split_ok_def ring_ok_def)
    show "insert (wts (mgr s)) (held N s) \<inter> finished (mgr s) = {}"
      using inv(1) fresh(2) by (auto simp: ts_ok_def split_ok_def)
    show "snapshots_old N (goto s i p' (mgr s\<lparr>write_ts := write_ts (mgr s) + 1\<rparr>))"
      using inv(1) p' w(1) by (auto simp: ts_ok_def snapshots_old_def)
    show "update_last N (goto s i p' (mgr s\<lparr>write_ts := write_ts (mgr s) + 1\<rparr>))"
      using p' upd last w(1,2) by (auto simp: update_last_def)
  qed (use w(4) holders_new [OF _ p' fresh(1)] inv(1) in \<open>auto simp: ts_ok_def\<close>)
qed

text \<open>Finishing an insert timestamp.\<close>

lemma ts_ok_finish:
  assumes inv: "ts_ok N s" "i < N" and p: "hold_of (pcs s i) = Some (unat ts)"
    and m: "abs_vm m = spec_finish (abs_vm (mgr s)) (unat ts)" "ring_ok m"
    and q: "\<not> is_hold q" and last: "\<And>j ts. j < N \<Longrightarrow> j \<noteq> i \<Longrightarrow> pcs s j \<noteq> U_hold ts"
  shows "ts_ok N (goto s i q m)"
proof -
  let ?m = "mgr s" and ?D = "insert (unat ts) (finished (mgr s))"
  let ?r = "prefix_end ?D (rts (mgr s))"
  have r: "rts m = ?r" and w: "wts m = wts ?m" and f: "finished m = ?D - {..?r}"
    using m(1) by (auto simp: abs_vm_def spec_finish_def Let_def)
  have q0: "hold_of q = None" using q by (cases q) auto
  have h: "held N (goto s i q m) = held N s - {unat ts}"
    by (rule held_drop [OF inv(2) _ p q0]) (use inv(1) in \<open>simp add: ts_ok_def\<close>)
  have split: "held N s \<union> finished ?m = {rts ?m<..<wts ?m}" "held N s \<inter> finished ?m = {}"
    using inv(1) by (simp_all add: ts_ok_def split_ok_def)
  have ts: "unat ts \<in> held N s" using p inv(2) by (auto simp: held_def)
  have D: "?D \<union> (held N s - {unat ts}) = {rts ?m<..<wts ?m}" "?D \<inter> (held N s - {unat ts}) = {}"
    using split ts by auto
  note pe = prefix_end_props [of ?D "rts ?m"]
  have low: "n \<notin> held N s - {unat ts}" if "rts ?m < n" "n \<le> ?r" for n
    using pe(3) [of n] that D(2) by auto
  have "?D - {..?r} \<union> (held N s - {unat ts}) = {?r<..<wts ?m}"
  proof (intro set_eqI iffI)
    fix n assume n: "n \<in> ?D - {..?r} \<union> (held N s - {unat ts})"
    then have "rts ?m < n" "n < wts ?m" using D(1) by auto
    then show "n \<in> {?r<..<wts ?m}" using n low [of n] by (cases "n \<le> ?r") auto
  next
    fix n assume n: "n \<in> {?r<..<wts ?m}"
    then have "n \<in> {rts ?m<..<wts ?m}" using pe(1) by auto
    then have "n \<in> ?D \<union> (held N s - {unat ts})" by (simp only: D(1))
    then show "n \<in> ?D - {..?r} \<union> (held N s - {unat ts})" using n by auto
  qed
  then have "split_ok N (goto s i q m)"
    using D(2) by (auto simp: split_ok_def h r w f)
  moreover have "snapshots_old N (goto s i q m)"
    using inv(1) q pe(1) unfolding snapshots_old_def ts_ok_def goto_simps r
    by (metis finite_finished finite_insert fun_upd_apply is_hold.simps(1) le_trans)
  moreover have "update_last N (goto s i q m)"
    using q last by (auto simp: update_last_def)
  moreover have "holders_unique N (goto s i q m)"
    by (rule holders_keep [OF _ q0]) (use inv(1) in \<open>simp add: ts_ok_def\<close>)
  ultimately show ?thesis using m(2) by (simp add: ts_ok_def)
qed

text \<open>Finishing or giving back the update timestamp: nothing else is outstanding.\<close>

lemma update_alone:
  assumes "ring_ok m" and "unat ts = Suc (rts m)" and "wts m = Suc (unat ts)"
  shows "\<not> bs_get (buf m) i" and "finished m = {}"
proof -
  show "\<not> bs_get (buf m) i" for i
    using assms unfolding ring_ok_def by fastforce
  then show "finished m = {}" by (simp add: finished_def)
qed

lemma update_publish_next:
  assumes ok: "ring_ok m" and ts: "unat ts = Suc (rts m)" "wts m = Suc (unat ts)"
  shows "update_publish m ts = m\<lparr>read_ts := ts\<rparr>"
    and "abs_vm (update_publish m ts) = spec_finish (abs_vm m) (unat ts)"
    and "ring_ok (update_publish m ts)"
proof -
  have "ts = read_ts m + 1"
    using ring_ok_next_read [OF ok] ts(1) by (simp add: word_unat_eq_iff)
  then show m: "update_publish m ts = m\<lparr>read_ts := ts\<rparr>" by (simp add: update_publish_def)
  note alone = update_alone [OF ok ts]
  have "prefix_end {Suc (rts m)} (rts m) = Suc (rts m)"
    by (rule prefix_end_unique) auto
  then show "abs_vm (update_publish m ts) = spec_finish (abs_vm m) (unat ts)"
    using alone by (auto simp: m abs_vm_def spec_finish_def ts rts_def wts_def finished_def)
  show "ring_ok (update_publish m ts)"
    using ok ts alone by (simp add: m ring_ok_def rts_def wts_def)
qed

lemma ts_ok_revert:
  assumes inv: "ts_ok N s" "i < N" and p: "pcs s i = U_hold ts"
    and last: "\<And>j ts. j < N \<Longrightarrow> j \<noteq> i \<Longrightarrow> pcs s j \<noteq> U_hold ts"
  shows "ts_ok N (goto s i U_add ((mgr s)\<lparr>write_ts := ts\<rparr>))"
proof -
  let ?m = "mgr s" and ?m' = "(mgr s)\<lparr>write_ts := ts\<rparr>"
  have ts: "unat ts = Suc (rts ?m)" "wts ?m = Suc (unat ts)" and ok: "ring_ok ?m"
    using inv p by (auto simp: ts_ok_def update_last_def)
  note alone = update_alone [OF ok ts]
  have hu: "holders_unique N s" using inv(1) by (simp add: ts_ok_def)
  have h: "held N (goto s i U_add ?m') = held N s - {unat ts}"
    by (rule held_drop [OF inv(2) hu]) (use p in auto)
  have "held N s = {rts ?m<..<wts ?m}"
    using inv(1) alone(2) by (simp add: ts_ok_def split_ok_def)
  then have "held N s - {unat ts} = {}" using ts by auto
  then have "split_ok N (goto s i U_add ?m')"
    using alone ts by (auto simp: split_ok_def h finished_def rts_def wts_def)
  moreover have "ring_ok ?m'"
    using ok alone ts by (simp add: ring_ok_def rts_def wts_def)
  moreover have "snapshots_old N (goto s i U_add ?m')"
    using inv(1) by (simp add: ts_ok_def snapshots_old_def rts_def)
  moreover have "update_last N (goto s i U_add ?m')"
    using last by (simp add: update_last_def)
  moreover have "holders_unique N (goto s i U_add ?m')"
    by (rule holders_keep [OF hu]) simp
  ultimately show ?thesis by (simp add: ts_ok_def)
qed

lemma owner_unique:
  assumes "counters_ok N s" and "i < N" "j < N" "i \<noteq> j" and "pc_owner (pcs s i) = 1"
  shows "pc_owner (pcs s j) = 0"
proof -
  have "pc_owner (pcs s i) + pc_owner (pcs s j) \<le> thread_sum N pc_owner s"
    by (rule thread_sum_two [OF assms(2-4)]) (rule pc_owner_nonneg)
  then show ?thesis
    using assms(1,5) pc_owner_nonneg [of "pcs s j"] unfolding counters_ok_def by linarith
qed

lemma owner_no_hold:
  assumes "counters_ok N s" and "i < N" and "pc_owner (pcs s i) = 1" and "j < N" "j \<noteq> i"
  shows "pcs s j \<noteq> U_hold ts"
  using owner_unique [OF assms(1,2,4) assms(5) [symmetric] assms(3)] by auto

lemma shared_no_hold:
  assumes "exclusion N s" and "i < N" and "pc_shared (pcs s i)" and "j < N"
  shows "pcs s j \<noteq> U_hold ts"
  using assms unfolding exclusion_def by force

lemma update_gets_next:
  assumes "ts_ok N s" "exclusion N s" "counters_ok N s" and i: "i < N" "pcs s i = U_get"
  shows "wts (mgr s) = Suc (rts (mgr s))"
proof -
  have "hold_of (pcs s j) = None" if "j < N" for j
  proof (cases "j = i")
    case False
    have "\<not> pc_shared (pcs s j)" using assms(2) i that unfolding exclusion_def by force
    moreover have "pcs s j \<noteq> U_hold ts" for ts
      using owner_no_hold [OF assms(3) i(1) _ that False] i(2) by simp
    ultimately show ?thesis by (cases "pcs s j") auto
  qed (simp add: i)
  then have "held N s = {}" by (auto simp: held_def)
  then have fin: "finished (mgr s) = {rts (mgr s)<..<wts (mgr s)}"
    using assms(1) by (simp add: ts_ok_def split_ok_def)
  have ok: "ring_ok (mgr s)" using assms(1) by (simp add: ts_ok_def)
  have "Suc (rts (mgr s)) \<notin> finished (mgr s)"
    using ring_ok_bit [OF ok, of "Suc (rts (mgr s))"] by (auto simp: finished_def)
  then show ?thesis using ok by (auto simp: fin ring_ok_def)
qed

lemma ts_ok_step:
  assumes "vm_step N s t" and "in_window (mgr s)" "counters_ok N s" "exclusion N s" "ts_ok N s"
  shows "ts_ok N t"
  using assms
proof (induction rule: vm_step.induct)
  case (read_load i s)
  let ?p = "R_hold (read_ts (mgr s))"
  have "held N (goto s i ?p (mgr s)) = held N s"
    by (rule held_same) (use read_load in auto)
  moreover have "holders_unique N (goto s i ?p (mgr s))"
    by (rule holders_keep) (use read_load in \<open>auto simp: ts_ok_def\<close>)
  moreover have "snapshots_old N (goto s i ?p (mgr s))"
    using read_load.prems(4) unfolding ts_ok_def snapshots_old_def by (simp add: rts_def)
  moreover have "update_last N (goto s i ?p (mgr s))"
    using read_load.prems(4) unfolding ts_ok_def update_last_def by simp
  ultimately show ?case
    using read_load.prems(4) unfolding ts_ok_def split_ok_def goto_simps by simp
next
  case (read_release i s ts)
  have "same_ts (mgr s) (release_read_timestamp (mgr s))"
    by (simp add: same_ts_def release_read_timestamp_def)
  then show ?case using read_release by (intro ts_ok_same) auto
next
  case (ins_load i s)
  then show ?case
    using shared_no_hold [of N s i] by (intro ts_ok_write) (simp_all add: wts_def)
next
  case (ins_publish i s ts)
  have "unat ts \<in> held N s" using ins_publish by (force simp: held_def)
  then have "rts (mgr s) < unat ts" "unat ts < wts (mgr s)" "ring_ok (mgr s)"
    using ins_publish by (auto simp: ts_ok_def split_ok_def)
  then show ?case
    using ins_publish insert_publish_refines [of "mgr s" ts] shared_no_hold [of N s i]
    by (intro ts_ok_finish [where ts = ts]) simp_all
next
  case (upd_get i s)
  then show ?case
    using update_gets_next [of N s i] owner_no_hold [of N s i]
    by (intro ts_ok_write) (simp_all add: wts_def)
next
  case (upd_publish i s ts)
  then have "unat ts = Suc (rts (mgr s))" "wts (mgr s) = Suc (unat ts)" "ring_ok (mgr s)"
    by (auto simp: ts_ok_def update_last_def)
  then show ?case
    using upd_publish update_publish_next [of "mgr s" ts] owner_no_hold [of N s i]
    by (intro ts_ok_finish [where ts = ts]) simp_all
next
  case (upd_revert i s ts)
  then show ?case using owner_no_hold [of N s i] by (intro ts_ok_revert) simp_all
qed (auto intro!: ts_ok_same simp: same_ts_def)

section \<open>Reachable states\<close>

lemma zero_words_all: "zero_words 0 (length ws) ws = replicate (length ws) 0"
  by (simp add: zero_words_def)

lemma bs_get_zero:
  assumes "bs_data b = Some (replicate n 0)"
  shows "\<not> bs_get b i"
proof -
  have "bs_words b = replicate n 0" using assms by (simp add: bs_words_def)
  then show ?thesis by (simp add: bs_get_bit bs_word_def)
qed

lemma vm_ctor_ring:
  obtains b where "vm_ctor t junk = Some \<lparr>thread_num = t, write_ts = 1, read_ts = 0, pending_reqs = 0,
      pending_update_reqs = 0, buf = b\<rparr>"
    and "bs_data b = Some (replicate (2 ^ 14) 0)" and "bs_size_in_words b = 2 ^ 14"
proof -
  define n :: nat where "n = 2 ^ 14"
  have ws: "WORD_SIZE (unat ring_buf_size) = n" "max n 8 = n" "0 < unat ring_buf_size" "0 < n"
    "max (unat ring_buf_size) 512 = unat ring_buf_size"
    by (simp_all add: WORD_SIZE_def unat_ring_buf_size n_def)
  have len: "length (map junk [0..<n]) = n" by simp
  have z: "zero_words 0 n (map junk [0..<n]) = replicate n 0"
    using zero_words_all [of "map junk [0..<n]"] unfolding len .
  obtain b where b: "bs_resize junk bitset_empty (unat ring_buf_size) = Some b"
    "bs_data b = Some (replicate n 0)" "bs_size_in_words b = n"
    using ws by (simp add: bs_resize_def bs_reserve_def bitset_empty_def Let_def kAlignment_def z)
  show ?thesis
  proof (rule that)
    show "bs_data (reset_all b) = Some (replicate (2 ^ 14) 0)"
      unfolding n_def [symmetric] using b zero_words_all [of "replicate n 0"]
      by (simp add: reset_all_def)
    show "bs_size_in_words (reset_all b) = 2 ^ 14"
      using b by (simp add: reset_all_def n_def)
  qed (simp add: vm_ctor_def b)
qed

lemma zero_ring_bits: "bs_data b = Some (replicate n 0) \<Longrightarrow> bs_bits b = 64 * n"
  by (simp add: bs_bits_def bs_words_def)

lemma initial_inv:
  assumes "vm_initial N s"
  shows "counters_ok N s" "exclusion N s" "ts_ok N s"
proof -
  from assms obtain m t junk ts n where s: "vm_ctor t junk = Some m" "mgr s = init_ts m ts n"
    "unat ts < 2 ^ 32 - 2" "int N \<le> n" "pcs s = (\<lambda>_. Idle)"
    unfolding vm_initial_def by blast
  obtain b where b: "vm_ctor t junk = Some \<lparr>thread_num = t, write_ts = 1, read_ts = 0,
      pending_reqs = 0, pending_update_reqs = 0, buf = b\<rparr>"
    and d: "bs_data b = Some (replicate (2 ^ 14) 0)"
    using vm_ctor_ring by blast
  have mgr: "mgr s = \<lparr>thread_num = n, write_ts = ts + 1, read_ts = ts, pending_reqs = 0,
      pending_update_reqs = 0, buf = b\<rparr>"
    using s b by (auto simp: init_ts_def)
  show "counters_ok N s" using s(4) by (simp add: counters_ok_def mgr thread_sum_def s(5))
  show "exclusion N s" by (simp add: exclusion_def s(5))
  have w: "wts (mgr s) = Suc (rts (mgr s))"
    using s(3) unat_Suc_word [of ts] by (simp add: wts_def rts_def mgr)
  have bits: "bs_bits b = 2 ^ 20" unfolding zero_ring_bits [OF d] by simp
  have get: "\<not> bs_get (buf (mgr s)) i" for i using bs_get_zero [OF d] by (simp add: mgr)
  have "ring_ok (mgr s)" using w get bits by (simp add: ring_ok_def mgr)
  then show "ts_ok N s"
    using w get by (auto simp: ts_ok_def split_ok_def held_def finished_def holders_unique_def
        snapshots_old_def update_last_def s(5))
qed

lemma reach_inv:
  assumes "vm_reach N s0 s" and "counters_ok N s0" "exclusion N s0" "ts_ok N s0"
  shows "counters_ok N s \<and> exclusion N s \<and> ts_ok N s"
  using assms
  by induction (auto intro: counters_step exclusion_step ts_ok_step)

lemmas reachable_inv = reach_inv [OF _ initial_inv]

text \<open>The read timestamp never moves back.\<close>

lemma prefix_end_ge: "finite D \<Longrightarrow> r \<le> prefix_end D r"
  by (rule prefix_end_props)

lemma read_ts_step:
  assumes "vm_step N s t" and "ts_ok N s"
  shows "rts (mgr s) \<le> rts (mgr t)"
  using assms
proof (induction rule: vm_step.induct)
  case (ins_publish i s ts)
  have "unat ts \<in> held N s" using ins_publish by (force simp: held_def)
  then have "rts (mgr s) < unat ts" "unat ts < wts (mgr s)" "ring_ok (mgr s)"
    using ins_publish by (auto simp: ts_ok_def split_ok_def)
  then have "abs_vm (insert_publish (mgr s) ts) = spec_finish (abs_vm (mgr s)) (unat ts)"
    using insert_publish_refines by blast
  then have "rts (insert_publish (mgr s) ts)
      = prefix_end (insert (unat ts) (finished (mgr s))) (rts (mgr s))"
    by (auto simp: abs_vm_def spec_finish_def Let_def)
  then show ?case by (simp add: prefix_end_ge)
next
  case (upd_publish i s ts)
  then have u: "unat ts = Suc (rts (mgr s))" "wts (mgr s) = Suc (unat ts)" "ring_ok (mgr s)"
    by (auto simp: ts_ok_def update_last_def)
  then have "rts (update_publish (mgr s) ts) = unat ts"
    using update_publish_next(1) [OF u(3,1,2)] by (simp add: rts_def)
  then show ?case using u by simp
qed (simp_all add: rts_def release_read_timestamp_def)

lemma read_ts_reach:
  assumes "vm_reach N s t" and "counters_ok N s" "exclusion N s" "ts_ok N s"
  shows "rts (mgr s) \<le> rts (mgr t)"
  using assms
proof induction
  case (reach_step t u)
  then show ?case using reach_inv [of N s t] read_ts_step [of N t u] by (auto intro: le_trans)
qed simp

lemma vm_reach_trans:
  assumes "vm_reach N s t" and "vm_reach N r s"
  shows "vm_reach N r t"
  using assms by induction (auto intro: reach_step)

section \<open>A run\<close>

text \<open>
  A manager for two threads, and a run in which thread 1 starts an insert and thread 0 then starts
  a read. It shows that the hypotheses of the theorems below can hold.
\<close>

definition demo :: sys where
  "demo = \<lparr>mgr = init_ts (the (vm_ctor 0 (\<lambda>_. 0))) 0 2, pcs = (\<lambda>_. Idle)\<rparr>"

lemma demo_initial: "vm_initial 2 demo"
proof -
  obtain m where m: "vm_ctor 0 (\<lambda>_. 0) = Some m"
    using vm_ctor_ring [of 0 "\<lambda>_. 0"] by blast
  have "mgr demo = init_ts m 0 2" by (simp add: demo_def m)
  then show ?thesis
    unfolding vm_initial_def by (intro conjI exI [of _ m] exI [of _ 0] exI [of _ "\<lambda>_. 0"]
        exI [of _ "0 :: timestamp_t"] exI [of _ 2]) (use m in \<open>simp_all add: demo_def\<close>)
qed

lemma demo_mgr:
  "pending_reqs (mgr demo) = 0" "pending_update_reqs (mgr demo) = 0" "thread_num (mgr demo) = 2"
  "write_ts (mgr demo) = 1" "read_ts (mgr demo) = 0" "pcs demo = (\<lambda>_. Idle)"
proof -
  obtain b where "vm_ctor 0 (\<lambda>_. 0) = Some \<lparr>thread_num = 0, write_ts = 1, read_ts = 0,
      pending_reqs = 0, pending_update_reqs = 0, buf = b\<rparr>"
    using vm_ctor_ring [of 0 "\<lambda>_. 0"] by blast
  then show "pending_reqs (mgr demo) = 0" "pending_update_reqs (mgr demo) = 0"
    "thread_num (mgr demo) = 2" "write_ts (mgr demo) = 1" "read_ts (mgr demo) = 0"
    "pcs demo = (\<lambda>_. Idle)"
    by (simp_all add: demo_def init_ts_def)
qed

lemma demo_shared:
  obtains s where "vm_reach 2 demo s" "pcs s 0 = R_hold 0" "pcs s 1 = I_hold 1"
proof -
  define s1 where "s1 = goto demo 1 I_try (mgr demo)"
  define s2 where "s2 = goto s1 1 I_load ((mgr s1)\<lparr>pending_reqs := pending_reqs (mgr s1) + 1\<rparr>)"
  define s3 where
    "s3 = goto s2 1 (I_hold (write_ts (mgr s2))) ((mgr s2)\<lparr>write_ts := write_ts (mgr s2) + 1\<rparr>)"
  define s4 where "s4 = goto s3 0 R_try (mgr s3)"
  define s5 where "s5 = goto s4 0 R_load ((mgr s4)\<lparr>pending_reqs := pending_reqs (mgr s4) + 1\<rparr>)"
  define s6 where "s6 = goto s5 0 (R_hold (read_ts (mgr s5))) (mgr s5)"
  note defs = s1_def s2_def s3_def s4_def s5_def s6_def
  have win: "in_window m" if "write_ts m \<in> {1, 2}" for m
    using that by (auto simp: in_window_def unat_ring_buf_size)
  have r1: "vm_reach 2 demo s1" unfolding s1_def
    by (rule reach_step [OF reach_start win ins_begin]) (simp_all add: demo_mgr)
  have r2: "vm_reach 2 demo s2" unfolding s2_def
    by (rule reach_step [OF r1 win ins_ok]) (simp_all add: demo_mgr s1_def)
  have r3: "vm_reach 2 demo s3" unfolding s3_def
    by (rule reach_step [OF r2 win ins_load]) (simp_all add: demo_mgr s1_def s2_def)
  have r4: "vm_reach 2 demo s4" unfolding s4_def
    by (rule reach_step [OF r3 win read_begin]) (simp_all add: demo_mgr s1_def s2_def s3_def)
  have r5: "vm_reach 2 demo s5" unfolding s5_def
    by (rule reach_step [OF r4 win read_ok]) (simp_all add: demo_mgr s1_def s2_def s3_def s4_def)
  have r6: "vm_reach 2 demo s6" unfolding s6_def
    by (rule reach_step [OF r5 win read_load]) (simp_all add: demo_mgr s1_def s2_def s3_def s4_def s5_def)
  show ?thesis by (rule that [OF r6]) (simp_all add: defs demo_mgr)
qed

lemma demo_update:
  obtains s where "vm_reach 2 demo s" "pcs s 0 = U_hold 1" "in_window (mgr s)"
proof -
  define s1 where "s1 = goto demo 0 U_spin (mgr demo)"
  define s2 where "s2 = goto s1 0 U_sub ((mgr s1)\<lparr>pending_update_reqs := 1\<rparr>)"
  define s3 where "s3 = goto s2 0 (if pending_reqs (mgr s2) \<noteq> 0 then U_wait else U_get)
      ((mgr s2)\<lparr>pending_reqs := pending_reqs (mgr s2) - thread_num (mgr s2)\<rparr>)"
  define s4 where
    "s4 = goto s3 0 (U_hold (write_ts (mgr s3))) ((mgr s3)\<lparr>write_ts := write_ts (mgr s3) + 1\<rparr>)"
  note defs = s1_def s2_def s3_def s4_def
  have win: "in_window m" if "write_ts m \<in> {1, 2}" for m
    using that by (auto simp: in_window_def unat_ring_buf_size)
  have r1: "vm_reach 2 demo s1" unfolding s1_def
    by (rule reach_step [OF reach_start win upd_begin]) (simp_all add: demo_mgr)
  have r2: "vm_reach 2 demo s2" unfolding s2_def
    by (rule reach_step [OF r1 win upd_cas]) (simp_all add: demo_mgr s1_def)
  have r3: "vm_reach 2 demo s3" unfolding s3_def
    by (rule reach_step [OF r2 win upd_sub]) (simp_all add: demo_mgr s1_def s2_def)
  have r4: "vm_reach 2 demo s4" unfolding s4_def
    by (rule reach_step [OF r3 win upd_get]) (simp_all add: demo_mgr s1_def s2_def s3_def)
  show ?thesis by (rule that [OF r4]) (simp_all add: defs demo_mgr win)
qed

section \<open>Properties\<close>

text \<open>
  C2. Update transactions are exclusive: while a thread holds an update timestamp, no other thread
  holds a read, an insert or an update timestamp, in every interleaving of at most
  \<^verbatim>\<open>thread_num_\<close> threads.
\<close>

theorem vm_update_exclusive:
  assumes "vm_initial N s0" and "vm_reach N s0 s" and "i < N" "j < N" "i \<noteq> j"
    and "pcs s i = U_hold ts"
  shows "\<forall>t. pcs s j \<noteq> R_hold t \<and> pcs s j \<noteq> I_hold t \<and> pcs s j \<noteq> U_hold t"
proof -
  have inv: "counters_ok N s" "exclusion N s" using reachable_inv [OF assms(2,1,1,1)] by auto
  have "\<not> pc_shared (pcs s j)"
    using inv(2) assms(3,4,6) unfolding exclusion_def by force
  moreover have "pcs s j \<noteq> U_hold t" for t
    by (rule owner_no_hold [OF inv(1) assms(3)]) (use assms in auto)
  ultimately show ?thesis by auto
qed

theorem vm_update_exclusive_witness:
  "\<exists>s. vm_reach 2 demo s \<and> pcs s 0 = U_hold 1 \<and> pcs s 1 \<noteq> R_hold 0"
proof -
  obtain s where s: "vm_reach 2 demo s" "pcs s 0 = U_hold 1" using demo_update by blast
  then show ?thesis
    using vm_update_exclusive [OF demo_initial s(1), of 0 1 1] by auto
qed

text \<open>
  C1. Snapshots are stable: once a read transaction has been given the timestamp \<open>ts\<close>, no
  transaction that is under way, then or at any later moment, writes with a timestamp at or below
  \<open>ts\<close>.
\<close>

theorem vm_snapshot_stable:
  assumes "vm_initial N s0" and "vm_reach N s0 s" and "i < N" and "pcs s i = R_hold ts"
    and "vm_reach N s s'" and "j < N" and "pcs s' j = I_hold t \<or> pcs s' j = U_hold t"
  shows "ts < t"
proof -
  have inv: "counters_ok N s" "exclusion N s" "ts_ok N s"
    using reachable_inv [OF assms(2,1,1,1)] by auto
  have "ts_ok N s'" using reach_inv [OF assms(5) inv] by simp
  moreover have "unat t \<in> held N s'" using assms(6,7) by (force simp: held_def)
  ultimately have "rts (mgr s') < unat t" by (auto simp: ts_ok_def split_ok_def)
  moreover have "unat ts \<le> rts (mgr s)"
    using inv(3) assms(3,4) by (auto simp: ts_ok_def snapshots_old_def)
  ultimately show ?thesis
    using read_ts_reach [OF assms(5) inv] by (simp add: word_less_nat_alt)
qed

theorem vm_snapshot_stable_witness:
  "\<exists>s. vm_reach 2 demo s \<and> pcs s 0 = R_hold 0 \<and> pcs s 1 = I_hold 1 \<and> (0 :: timestamp_t) < 1"
proof -
  obtain s where s: "vm_reach 2 demo s" "pcs s 0 = R_hold 0" "pcs s 1 = I_hold 1"
    using demo_shared by blast
  then show ?thesis
    using vm_snapshot_stable [OF demo_initial s(1) _ s(2) reach_start, of 1 1] by auto
qed

text \<open>
  C3. \<^verbatim>\<open>release_insert_timestamp\<close> refines its specification: on the abstract manager, which
  keeps the plain set of finished timestamps, it adds the timestamp and moves the read timestamp to
  the end of the gap-free prefix. The ring buffer, its wrap-around index and the loop are hidden.
\<close>

theorem release_insert_refines:
  assumes "ring_ok m" and "rts m < unat ts" and "unat ts < wts m"
  shows "abs_vm (release_insert_timestamp m ts) = spec_finish (abs_vm m) (unat ts) \<and>
    ring_ok (release_insert_timestamp m ts) \<and>
    pending_reqs (release_insert_timestamp m ts) = pending_reqs m - 1"
proof -
  let ?m = "insert_publish m ts"
  have "same_ts ?m (release_insert_timestamp m ts)"
    by (simp add: same_ts_def release_insert_timestamp_def Let_def)
  note same = same_ts_simps [OF this]
  have "pending_reqs (release_insert_timestamp m ts) = pending_reqs m - 1"
    by (simp add: release_insert_timestamp_def Let_def)
  moreover have "abs_vm (release_insert_timestamp m ts) = abs_vm ?m"
    by (simp add: abs_vm_def same)
  ultimately show ?thesis using insert_publish_refines [OF assms] by (simp add: same)
qed

theorem release_insert_refines_witness:
  "\<exists>m. ring_ok m \<and> rts m = 0 \<and> wts m = 2 \<and> rts (release_insert_timestamp m 1) = 1"
proof -
  obtain s where s: "vm_reach 2 demo s" "pcs s 0 = U_hold 1" using demo_update by blast
  have ok: "ts_ok 2 s"
    using reachable_inv [OF s(1) demo_initial demo_initial demo_initial] by simp
  have w: "ring_ok (mgr s)" "rts (mgr s) = 0" "wts (mgr s) = 2"
    using ok s(2) unfolding ts_ok_def update_last_def by force+
  have ts: "rts (mgr s) < unat (1 :: timestamp_t)" "unat (1 :: timestamp_t) < wts (mgr s)"
    by (simp_all add: w)
  have fin: "finished (mgr s) = {}"
    by (rule update_alone [OF w(1), of 1]) (simp_all add: w)
  have pe: "prefix_end {Suc 0} 0 = Suc 0" by (rule prefix_end_unique) auto
  have "rts (release_insert_timestamp (mgr s) 1) = prefix_end {Suc 0} 0"
    using release_insert_refines [OF w(1) ts] by (simp add: abs_vm_def spec_finish_def Let_def fin w)
  then show ?thesis using w pe by auto
qed

text \<open>
  C22. The update functions do what their caller relies on: for the thread that holds the update
  timestamp \<open>ts\<close>, releasing it publishes exactly \<open>ts\<close> (the branch that logs an error is never
  taken, the ring is untouched), and reverting it succeeds and gives the timestamp back.
\<close>

theorem vm_update_release_revert:
  assumes "vm_initial N s0" and "vm_reach N s0 s" and "i < N" and "pcs s i = U_hold ts"
  shows "read_ts (release_update_timestamp (mgr s) ts) = ts \<and>
    buf (release_update_timestamp (mgr s) ts) = buf (mgr s) \<and>
    fst (revert_update_timestamp (mgr s) ts) \<and>
    write_ts (snd (revert_update_timestamp (mgr s) ts)) = ts \<and> ts = read_ts (mgr s) + 1"
proof -
  have "ts_ok N s" using reachable_inv [OF assms(2,1,1,1)] by simp
  then have ok: "ring_ok (mgr s)" and ts: "unat ts = Suc (rts (mgr s))" "wts (mgr s) = Suc (unat ts)"
    using assms(3,4) by (auto simp: ts_ok_def update_last_def)
  have t: "ts = read_ts (mgr s) + 1"
    using ring_ok_next_read [OF ok] ts(1) by (simp add: word_unat_eq_iff)
  have "unat (ts + 1) = Suc (unat ts)"
    using ts(2) wts_bound [of "mgr s"] by (intro unat_Suc_word) simp
  then have "write_ts (mgr s) = ts + 1"
    using ts(2) by (simp add: wts_def word_unat_eq_iff)
  then show ?thesis
    using update_publish_next(1) [OF ok ts] t
    by (simp add: release_update_timestamp_def revert_update_timestamp_def Let_def)
qed

theorem vm_update_release_revert_witness:
  "\<exists>s. vm_reach 2 demo s \<and> pcs s 0 = U_hold 1 \<and> read_ts (release_update_timestamp (mgr s) 1) = 1"
proof -
  obtain s where s: "vm_reach 2 demo s" "pcs s 0 = U_hold 1" using demo_update by blast
  then show ?thesis using vm_update_release_revert [OF demo_initial s(1), of 0 1] by auto
qed

text \<open>
  C27. A quiet manager has caught up: when no thread is inside a transaction, every timestamp that was
  handed out is visible, the ring is empty and both counters are zero, so the next transaction of
  any kind starts without waiting.
\<close>

theorem vm_quiescent:
  assumes "vm_initial N s0" and "vm_reach N s0 s" and "\<forall>i<N. pcs s i = Idle"
  shows "write_ts (mgr s) = read_ts (mgr s) + 1 \<and> (\<forall>i. \<not> bs_get (buf (mgr s)) i) \<and>
    pending_reqs (mgr s) = 0 \<and> pending_update_reqs (mgr s) = 0"
proof -
  have inv: "counters_ok N s" "ts_ok N s" using reachable_inv [OF assms(2,1,1,1)] by auto
  have ok: "ring_ok (mgr s)" using inv(2) by (simp add: ts_ok_def)
  have "held N s = {}" using assms(3) by (auto simp: held_def)
  then have "finished (mgr s) = {rts (mgr s)<..<wts (mgr s)}"
    using inv(2) by (simp add: ts_ok_def split_ok_def)
  moreover have "Suc (rts (mgr s)) \<notin> finished (mgr s)"
    using ring_ok_bit [OF ok, of "Suc (rts (mgr s))"] by (auto simp: finished_def)
  ultimately have w: "wts (mgr s) = Suc (rts (mgr s))"
    using ok by (auto simp: ring_ok_def)
  then have "write_ts (mgr s) = read_ts (mgr s) + 1"
    using ring_ok_next_read [OF ok] by (simp add: wts_def word_unat_eq_iff)
  moreover have "\<not> bs_get (buf (mgr s)) i" for i
    using ok w unfolding ring_ok_def by fastforce
  moreover have "thread_sum N f s = 0" if "f Idle = 0" for f
    unfolding thread_sum_def by (rule sum.neutral) (use assms(3) that in auto)
  ultimately show ?thesis using inv(1) by (simp add: counters_ok_def)
qed

theorem vm_quiescent_witness:
  "write_ts (mgr demo) = read_ts (mgr demo) + 1 \<and> pending_reqs (mgr demo) = 0"
  using vm_quiescent [OF demo_initial reach_start] by (simp add: demo_mgr)


fun pc_blockable :: "pc \<Rightarrow> bool" where
  "pc_blockable R_wait = True" | "pc_blockable I_wait = True" | "pc_blockable U_spin = True"
| "pc_blockable U_wait = True" | "pc_blockable _ = False"

lemma stepI:
  "vm_step N s (goto s i p m) \<Longrightarrow> pcs s i = q \<Longrightarrow> p \<noteq> q \<Longrightarrow>
   \<exists>p m. p \<noteq> pcs s i \<and> vm_step N s (goto s i p m)"
  by blast

lemma unblocked_step:
  assumes i: "i < N" and "\<not> pc_blockable (pcs s i)" and "pcs s i \<noteq> Idle"
  shows "\<exists>p m. p \<noteq> pcs s i \<and> vm_step N s (goto s i p m)"
proof (cases "pcs s i")
  case R_try
  then show ?thesis
    using stepI [OF read_ok [OF i R_try] R_try] stepI [OF read_busy [OF i R_try] R_try]
    by (cases "0 \<le> pending_reqs (mgr s)") auto
next
  case I_try
  then show ?thesis
    using stepI [OF ins_ok [OF i I_try] I_try] stepI [OF ins_busy [OF i I_try] I_try]
    by (cases "0 \<le> pending_reqs (mgr s)") auto
next
  case R_load then show ?thesis by (rule stepI [OF read_load [OF i] R_load]) simp
next
  case R_undo then show ?thesis by (rule stepI [OF read_undo [OF i] R_undo]) simp
next
  case (R_hold ts) then show ?thesis by (rule stepI [OF read_release [OF i] R_hold]) simp
next
  case I_load then show ?thesis by (rule stepI [OF ins_load [OF i] I_load]) simp
next
  case I_undo then show ?thesis by (rule stepI [OF ins_undo [OF i] I_undo]) simp
next
  case (I_hold ts) then show ?thesis by (rule stepI [OF ins_publish [OF i] I_hold]) simp
next
  case I_done then show ?thesis by (rule stepI [OF ins_release [OF i] I_done]) simp
next
  case U_sub then show ?thesis by (rule stepI [OF upd_sub [OF i] U_sub]) simp
next
  case U_get then show ?thesis by (rule stepI [OF upd_get [OF i] U_get]) simp
next
  case (U_hold ts) then show ?thesis by (rule stepI [OF upd_publish [OF i] U_hold]) simp
next
  case U_add then show ?thesis by (rule stepI [OF upd_add [OF i] U_add]) simp
next
  case U_clr then show ?thesis by (rule stepI [OF upd_clr [OF i] U_clr]) simp
qed (use assms in auto)

text \<open>
  C4. No deadlock: in every reachable state, if some thread is inside a call or a transaction, then
  some such thread can take a step, whatever the others do.
\<close>

theorem vm_no_deadlock:
  assumes "vm_initial N s0" and "vm_reach N s0 s" and "i < N" and "pcs s i \<noteq> Idle"
  shows "\<exists>j p m. j < N \<and> pcs s j \<noteq> Idle \<and> p \<noteq> pcs s j \<and> vm_step N s (goto s j p m)"
proof (cases "\<exists>j<N. \<not> pc_blockable (pcs s j) \<and> pcs s j \<noteq> Idle")
  case True
  then show ?thesis using unblocked_step by blast
next
  case False
  have c: "counters_ok N s" using reachable_inv [OF assms(2,1,1,1)] by simp
  have blocked: "pcs s j = Idle \<or> pc_blockable (pcs s j)" if "j < N" for j
    using False that by blast
  have "pc_plus (pcs s j) = 0" if "j < N" for j
    using blocked [OF that] by (cases "pcs s j") auto
  then have plus: "thread_sum N pc_plus s = 0" by (simp add: thread_sum_def)
  show ?thesis
  proof (cases "\<exists>j<N. pcs s j = U_wait")
    case True
    then obtain j where j: "j < N" "pcs s j = U_wait" by blast
    then have w: "pending_reqs (mgr s) = - thread_num (mgr s)"
      using pending_negative(1) [OF c j(1)] plus by simp
    have "\<exists>p m. p \<noteq> pcs s j \<and> vm_step N s (goto s j p m)"
      by (rule stepI [OF upd_wait [OF j w] j(2)]) simp
    moreover have "pcs s j \<noteq> Idle" using j(2) by simp
    ultimately show ?thesis using j(1) by blast
  next
    case nowait: False
    have "pc_owner (pcs s j) = 0" "pc_minus (pcs s j) = 0" if "j < N" for j
      using blocked [OF that] nowait that by (cases "pcs s j"; auto)+
    then have "thread_sum N pc_owner s = 0" "thread_sum N pc_minus s = 0"
      by (simp_all add: thread_sum_def)
    then have "pending_reqs (mgr s) = 0" "pending_update_reqs (mgr s) = 0"
      using c plus by (simp_all add: counters_ok_def)
    then have "\<exists>p m. p \<noteq> pcs s i \<and> vm_step N s (goto s i p m)"
      using blocked [OF assms(3)] assms(3,4) nowait stepI [OF read_retry [of i N s]]
        stepI [OF ins_retry [of i N s]] stepI [OF upd_cas [of i N s]]
      by (cases "pcs s i") simp_all
    then show ?thesis using assms(3,4) by blast
  qed
qed

theorem vm_no_deadlock_witness:
  "\<exists>s j p m. vm_reach 2 demo s \<and> pcs s 0 = U_hold 1 \<and> vm_step 2 s (goto s j p m)"
proof -
  obtain s where s: "vm_reach 2 demo s" "pcs s 0 = U_hold 1" using demo_update by blast
  then show ?thesis using vm_no_deadlock [OF demo_initial s(1), of 0] by auto
qed


section \<open>Where the protocol stops working\<close>

text \<open>
  The ring has no guard against more than \<open>2 ^ 20\<close> timestamps beyond an unfinished one. The index of
  \<open>ts + 2 ^ 20\<close> is that of \<open>ts\<close>, so releasing the later one stands for both.
\<close>

lemma drain_mono:
  "unat ts + card (bs.members b) < 2 ^ 32 \<Longrightarrow> unat ts \<le> unat (snd (drain b ts))"
proof (induction b ts rule: drain.induct)
  case (1 b ts)
  let ?r = "atomic_reset_with_ret b (ring_index (ts + 1))"
  show ?case
  proof (cases "fst ?r")
    case True
    have c: "card (bs.members (snd ?r)) < card (bs.members b)" using True by (rule bs.card_test_reset)
    then have n: "unat (ts + 1) = Suc (unat ts)" using 1 by (intro unat_Suc_word) simp
    have "unat (ts + 1) \<le> unat (snd (drain (snd ?r) (ts + 1)))"
      using "1.IH" [OF refl True] "1.prems" n c by simp
    moreover have "drain b ts = drain (snd ?r) (ts + 1)"
      using True by (subst drain.simps) (simp add: Let_def)
    ultimately show ?thesis using n by simp
  qed (subst drain.simps, simp add: Let_def)
qed

lemma card_members: "card (bs.members b) \<le> bs_bits b"
proof -
  have "bs.members b \<subseteq> {..<bs_bits b}"
    using bs.members_iff bs_get_bound by (auto simp: bs_bits_def)
  then show ?thesis using card_mono [of "{..<bs_bits b}" "bs.members b"] by simp
qed

text \<open>
  With \<open>2 ^ 20\<close> timestamps outstanding beyond the read timestamp \<open>r\<close>, releasing
  \<open>r + 2 + 2 ^ 20\<close> and then \<open>r + 1\<close> moves the read timestamp to at least \<open>r + 2\<close>, although
  \<open>r + 2\<close> was never released: its writes become visible while they are under way.
\<close>

theorem vm_ring_overflow:
  assumes "bs_bits (buf m) = 2 ^ 20" and "unat (read_ts m) + 2 ^ 21 < 2 ^ 32"
  shows "read_ts m + 2
    \<le> read_ts (insert_publish (insert_publish m (read_ts m + 2 + 2 ^ 20)) (read_ts m + 1))"
proof -
  let ?r = "read_ts m" and ?t = "read_ts m + 2 + 2 ^ 20"
  let ?m = "insert_publish m ?t"
  have ne: "?t \<noteq> ?r + 1"
  proof
    assume "?t = ?r + 1"
    then have "(2 + 2 ^ 20 :: timestamp_t) = 1" by (simp add: add.assoc)
    then show False by simp
  qed
  have r2: "unat (?r + 2) = unat ?r + 2" "unat (?r + 1) = unat ?r + 1"
    "unat ?t = unat ?r + 2 + 2 ^ 20"
    using assms(2) by (simp_all add: unat_word_ariths)
  have "?m = m\<lparr>buf := bs_set (buf m) (ring_index ?t)\<rparr>"
    using ne by (simp add: insert_publish_def atomic_set_eq)
  moreover have idx: "ring_index ?t = ring_index (?r + 2)" unfolding ring_index_mod r2 by (rule mod_add_self2)
  ultimately have m: "?m = m\<lparr>buf := bs_set (buf m) (ring_index (?r + 2))\<rparr>" by simp
  let ?b = "bs_set (buf m) (ring_index (?r + 2))"
  have get: "bs_get ?b (ring_index (?r + 2))"
    using assms(1) ring_index_bound [of "?r + 2"] by (simp add: bs_get_set bs_bits_def)
  let ?c = "bs_reset ?b (ring_index (?r + 2))"
  have d: "drain ?b (?r + 1) = drain ?c (?r + 2)"
    using get by (subst drain.simps) (simp add: atomic_reset_with_ret_eq add.assoc)
  have "bs_bits ?c = 2 ^ 20" using assms(1) by (simp add: bs_bits_def)
  then have "unat (?r + 2) + card (bs.members ?c) < 2 ^ 32"
    using card_members [of ?c] assms(2) r2(1) by simp
  from drain_mono [OF this] show ?thesis
    unfolding m by (simp add: insert_publish_def Let_def d word_le_nat_alt)
qed

theorem vm_ring_overflow_witness:
  "\<exists>m. read_ts m = 0 \<and> 2 \<le> read_ts (insert_publish (insert_publish m (2 + 2 ^ 20)) 1)"
proof -
  have "bs_data (bitset_empty\<lparr>bs_data := Some (replicate n 0)\<rparr>) = Some (replicate n 0)" for n
    by simp
  then obtain b :: bitset where b: "bs_data b = Some (replicate (2 ^ 14) 0)" by blast
  let ?m = "(mgr demo)\<lparr>buf := b\<rparr>"
  have "bs_bits b = 2 ^ 20" unfolding zero_ring_bits [OF b] by simp
  then have "bs_bits (buf ?m) = 2 ^ 20" by simp
  then have "read_ts ?m + 2
      \<le> read_ts (insert_publish (insert_publish ?m (read_ts ?m + 2 + 2 ^ 20)) (read_ts ?m + 1))"
    by (rule vm_ring_overflow) (simp add: demo_mgr)
  then have "read_ts ?m = 0 \<and>
      2 \<le> read_ts (insert_publish (insert_publish ?m (2 + 2 ^ 20)) 1)"
    by (simp add: demo_mgr)
  then show ?thesis by (rule exI)
qed

text \<open>
  \<^verbatim>\<open>CompactTransaction::Commit\<close> ends with \<^verbatim>\<open>release_update_timestamp\<close> followed by
  \<^verbatim>\<open>clear\<close>. With nothing in between this leaves the manager as a fresh one.
\<close>

definition compact_release :: "vm \<Rightarrow> timestamp_t \<Rightarrow> vm" where
  "compact_release m ts = vm_clear (release_update_timestamp m ts)"

lemma compact_release_fresh:
  assumes "bs_wf (buf m)" and "bs_size (buf m) = 2 ^ 20"
  shows "write_ts (compact_release m ts) = 1 \<and> read_ts (compact_release m ts) = 0 \<and>
    pending_reqs (compact_release m ts) = 0 \<and> pending_update_reqs (compact_release m ts) = 0 \<and>
    (\<forall>i<2 ^ 20. \<not> bs_get (buf (compact_release m ts)) i)"
proof -
  have "bs_wf (buf (release_update_timestamp m ts)) \<and>
      bs_size (buf (release_update_timestamp m ts)) = 2 ^ 20"
    using assms by (auto simp: release_update_timestamp_def update_publish_def Let_def atomic_set_eq
        intro: bs_wf_set)
  then show ?thesis
    using bs_get_reset_all [of "buf (release_update_timestamp m ts)"]
    by (simp add: compact_release_def vm_clear_def release_update_timestamp_def Let_def)
qed

text \<open>
  But between the two calls the manager is open: a reader may enter, \<^verbatim>\<open>clear\<close> then forgets
  it, and its release takes \<^verbatim>\<open>pending_reqs_\<close> to \<open>-1\<close>.
\<close>

definition race_state :: "vm \<Rightarrow> timestamp_t \<Rightarrow> vm" where
  "race_state m ts =
     (let m1 = release_update_timestamp m ts;
          m2 = m1\<lparr>pending_reqs := pending_reqs m1 + 1\<rparr>;
          m3 = vm_clear m2
      in release_read_timestamp m3)"

fun pc_outside :: "pc \<Rightarrow> bool" where
  "pc_outside Idle = True"
| "pc_outside R_try = True" | "pc_outside R_undo = True" | "pc_outside R_wait = True"
| "pc_outside I_try = True" | "pc_outside I_undo = True" | "pc_outside I_wait = True"
| "pc_outside U_spin = True" | "pc_outside U_sub = True" | "pc_outside U_wait = True"
| "pc_outside _ = False"

definition stuck :: "sys \<Rightarrow> bool" where
  "stuck s \<longleftrightarrow> pc_outside (pcs s 0) \<and> 0 < thread_num (mgr s) \<and>
     pending_reqs (mgr s) = pc_plus (pcs s 0) - thread_num (mgr s) * pc_minus (pcs s 0) - 1"

lemma stuck_step: "vm_step 1 s t \<Longrightarrow> stuck s \<Longrightarrow> stuck t"
  by (induction rule: vm_step.induct) (auto simp: stuck_def release_read_timestamp_def)

lemma stuck_steps: "(vm_step 1)\<^sup>*\<^sup>* s t \<Longrightarrow> stuck s \<Longrightarrow> stuck t"
  by (induction rule: rtranclp_induct) (auto intro: stuck_step)

text \<open>
  A reader that enters between the two calls at the end of a compaction blocks the database:
  after it leaves, a client that runs alone can start no transaction of any kind, in any number of
  steps.
\<close>

theorem vm_compact_race:
  assumes "pending_reqs m = - thread_num m" and "0 < thread_num m"
    and "mgr s = race_state m ts" and "pcs s 0 = Idle" and "(vm_step 1)\<^sup>*\<^sup>* s s'"
  shows "\<forall>t. pcs s' 0 \<noteq> R_hold t \<and> pcs s' 0 \<noteq> I_hold t \<and> pcs s' 0 \<noteq> U_hold t"
proof -
  have "stuck s"
    using assms by (simp add: stuck_def race_state_def Let_def release_update_timestamp_def
        vm_clear_def release_read_timestamp_def)
  from stuck_steps [OF assms(5) this] show ?thesis by (auto simp: stuck_def)
qed

theorem vm_compact_race_witness:
  "\<exists>m (s :: sys). pending_reqs m = - thread_num m \<and> mgr s = race_state m 1 \<and> pcs s 0 \<noteq> R_hold 0"
proof -
  let ?m = "(mgr demo)\<lparr>pending_reqs := - 2\<rparr>"
  let ?s = "\<lparr>mgr = race_state ?m 1, pcs = \<lambda>_. Idle\<rparr>"
  have "\<forall>t. pcs ?s 0 \<noteq> R_hold t \<and> pcs ?s 0 \<noteq> I_hold t \<and> pcs ?s 0 \<noteq> U_hold t"
    by (rule vm_compact_race [of ?m ?s 1 ?s]) (simp_all add: demo_mgr)
  then have "pending_reqs ?m = - thread_num ?m \<and> mgr ?s = race_state ?m 1 \<and> pcs ?s 0 \<noteq> R_hold 0"
    by (simp add: demo_mgr)
  then show ?thesis by (intro exI)
qed


end
