(* ===== verification/Archive.thy ===== *)
theory Archive
  imports Prelude "HOL-Library.Monad_Syntax"
begin

text \<open>
  The byte archives of \<^verbatim>\<open>include/neug/utils/serialization/in_archive.h\<close> and
  \<^verbatim>\<open>out_archive.h\<close>. An \<^verbatim>\<open>InArchive\<close> is the bytes written so far, each
  \<^verbatim>\<open>operator<<\<close> appends to it; an \<^verbatim>\<open>OutArchive\<close> is the bytes between
  \<^verbatim>\<open>begin_\<close> and \<^verbatim>\<open>end_\<close>, each \<^verbatim>\<open>operator>>\<close> returns the value read and the
  rest. The code does not check the end of the buffer: a read past it is undefined behaviour, the
  result \<open>None\<close> here. Integers are in the byte order of the machine, least significant byte first.

  The locale \<open>codec\<close> is the contract of a matching pair of operators; vectors, which the
  archives serialize element by element, are proved once for any element.
\<close>

section \<open>Operators\<close>

type_synonym byte = "8 word"
type_synonym bytes = "8 word list"

text \<open>The \<open>n\<close> bytes of a plain integer in memory, and the integer of some bytes.\<close>

primrec put_word :: "nat \<Rightarrow> 'a::len word \<Rightarrow> bytes" where
  "put_word 0 w = []"
| "put_word (Suc n) w = ucast w # put_word n (drop_bit 8 w)"

primrec word_of :: "bytes \<Rightarrow> 'a::len word" where
  "word_of [] = 0"
| "word_of (b # bs) = ucast b OR push_bit 8 (word_of bs)"

definition get_bytes :: "nat \<Rightarrow> bytes \<Rightarrow> (bytes \<times> bytes) option" where
  "get_bytes n bs = (if n \<le> length bs then Some (take n bs, drop n bs) else None)"

definition get_word :: "nat \<Rightarrow> bytes \<Rightarrow> ('a::len word \<times> bytes) option" where
  "get_word n bs = map_option (\<lambda>(x, r). (word_of x, r)) (get_bytes n bs)"

abbreviation put32 :: "32 word \<Rightarrow> bytes" where "put32 \<equiv> put_word 4"
abbreviation put64 :: "64 word \<Rightarrow> bytes" where "put64 \<equiv> put_word 8"
abbreviation get32 :: "bytes \<Rightarrow> (32 word \<times> bytes) option" where "get32 \<equiv> get_word 4"
abbreviation get64 :: "bytes \<Rightarrow> (64 word \<times> bytes) option" where "get64 \<equiv> get_word 8"

definition put8 :: "8 word \<Rightarrow> bytes" where
  "put8 b = [b]"

definition get8 :: "bytes \<Rightarrow> (8 word \<times> bytes) option" where
  "get8 bs = (case bs of [] \<Rightarrow> None | b # r \<Rightarrow> Some (b, r))"

text \<open>A \<^verbatim>\<open>bool\<close> is one byte; reading takes every nonzero byte as true.\<close>

definition put_bool :: "bool \<Rightarrow> bytes" where
  "put_bool b = put8 (if b then 1 else 0)"

definition get_bool :: "bytes \<Rightarrow> (bool \<times> bytes) option" where
  "get_bool bs = map_option (\<lambda>(x, r). (x \<noteq> 0, r)) (get8 bs)"

text \<open>Strings and string views: the size as a \<^verbatim>\<open>size_t\<close>, then the bytes.\<close>

definition put_string :: "bytes \<Rightarrow> bytes" where
  "put_string s = put64 (of_nat (length s)) @ s"

definition get_string :: "bytes \<Rightarrow> (bytes \<times> bytes) option" where
  "get_string bs = do { (size, r) \<leftarrow> get64 bs; get_bytes (unat size) r }"

text \<open>Vectors of elements that are not plain data are written one by one.\<close>

definition put_vector :: "('a \<Rightarrow> bytes) \<Rightarrow> 'a list \<Rightarrow> bytes" where
  "put_vector put vec = put64 (of_nat (length vec)) @ concat (map put vec)"

primrec get_items :: "(bytes \<Rightarrow> ('a \<times> bytes) option) \<Rightarrow> nat \<Rightarrow> bytes \<Rightarrow> ('a list \<times> bytes) option"
where
  "get_items get 0 bs = Some ([], bs)"
| "get_items get (Suc n) bs =
     do { (x, r) \<leftarrow> get bs; (xs, r') \<leftarrow> get_items get n r; Some (x # xs, r') }"

definition get_vector :: "(bytes \<Rightarrow> ('a \<times> bytes) option) \<Rightarrow> bytes \<Rightarrow> ('a list \<times> bytes) option" where
  "get_vector get bs = do { (size, r) \<leftarrow> get64 bs; get_items get (unat size) r }"

text \<open>A \<^verbatim>\<open>std::tuple\<close> is its components in order.\<close>

definition put_pair :: "('a \<Rightarrow> bytes) \<Rightarrow> ('b \<Rightarrow> bytes) \<Rightarrow> 'a \<times> 'b \<Rightarrow> bytes" where
  "put_pair p q x = p (fst x) @ q (snd x)"

definition get_pair :: "(bytes \<Rightarrow> ('a \<times> bytes) option) \<Rightarrow> (bytes \<Rightarrow> ('b \<times> bytes) option) \<Rightarrow>
    bytes \<Rightarrow> (('a \<times> 'b) \<times> bytes) option" where
  "get_pair p q bs = do { (x, r) \<leftarrow> p bs; (y, r') \<leftarrow> q r; Some ((x, y), r') }"

section \<open>Integers\<close>

lemma length_put_word [simp]: "length (put_word n w) = n"
  by (induction n arbitrary: w) auto

lemma word_of_put_word:
  "(word_of (put_word n w) :: 'a::len word) = take_bit (8 * n) w"
proof (induction n arbitrary: w)
  case (Suc n)
  show ?case
  proof (rule bit_word_eqI)
    fix i assume "i < LENGTH('a)"
    then show "bit (word_of (put_word (Suc n) w) :: 'a word) i = bit (take_bit (8 * Suc n) w) i"
      by (auto simp: Suc.IH bit_or_iff bit_push_bit_iff bit_take_bit_iff bit_drop_bit_eq
          bit_ucast_iff possible_bit_word)
  qed
qed simp

lemma word_of_put_full [codec_simps]:
  "LENGTH('a) \<le> 8 * n \<Longrightarrow> (word_of (put_word n w) :: 'a::len word) = w"
  by (simp add: word_of_put_word take_bit_word_eq_self)

lemma get_bytes_append [codec_simps]: "length x = n \<Longrightarrow> get_bytes n (x @ r) = Some (x, r)"
  by (simp add: get_bytes_def)

lemma get_word_put [codec_simps]:
  "LENGTH('a) \<le> 8 * n \<Longrightarrow> get_word n (put_word n w @ r) = Some (w :: 'a::len word, r)"
  by (simp add: get_word_def codec_simps)

section \<open>The contract of a serializer\<close>

locale codec =
  fixes put :: "'a \<Rightarrow> bytes"
    and get :: "bytes \<Rightarrow> ('a \<times> bytes) option"
    and valid :: "'a \<Rightarrow> bool"
  assumes get_put: "valid x \<Longrightarrow> get (put x @ r) = Some (x, r)"
begin

lemma get_put_end: "valid x \<Longrightarrow> get (put x) = Some (x, [])"
  using get_put [of x "[]"] by simp

lemma put_inj: "valid x \<Longrightarrow> valid y \<Longrightarrow> put x = put y \<Longrightarrow> x = y"
  by (metis get_put_end option.inject prod.inject)

lemma put_prefix_free: "valid x \<Longrightarrow> valid y \<Longrightarrow> put x @ r = put y @ s \<Longrightarrow> x = y \<and> r = s"
  by (metis get_put option.inject prod.inject)

lemma get_items_put:
  "list_all valid xs \<Longrightarrow> get_items get (length xs) (concat (map put xs) @ r) = Some (xs, r)"
  by (induction xs) (simp_all add: get_put)

lemma get_vector_put:
  assumes "list_all valid xs" and "length xs < 2 ^ 64"
  shows "get_vector get (put_vector put xs @ r) = Some (xs, r)"
proof -
  have "unat (of_nat (length xs) :: 64 word) = length xs"
    using assms(2) by (simp add: unat_of_nat)
  then show ?thesis
    using get_items_put [OF assms(1)] by (simp add: put_vector_def get_vector_def codec_simps)
qed

end

interpretation c8: codec put8 get8 "\<lambda>_. True"
  by unfold_locales (simp add: put8_def get8_def)

interpretation c32: codec put32 get32 "\<lambda>_. True"
  by unfold_locales (simp add: codec_simps)

interpretation c64: codec put64 get64 "\<lambda>_. True"
  by unfold_locales (simp add: codec_simps)

interpretation cbool: codec put_bool get_bool "\<lambda>_. True"
  by unfold_locales (simp add: put_bool_def get_bool_def put8_def get8_def)

definition small :: "'a list \<Rightarrow> bool" where
  "small xs \<longleftrightarrow> length xs < 2 ^ 64"

lemma small_unat: "small xs \<Longrightarrow> unat (of_nat (length xs) :: 64 word) = length xs"
  by (simp add: small_def unat_of_nat)

interpretation cstring: codec put_string get_string small
  by unfold_locales (simp add: put_string_def get_string_def codec_simps small_unat)

lemma codec_vector:
  assumes "codec p g v"
  shows "codec (put_vector p) (get_vector g) (\<lambda>xs. list_all v xs \<and> small xs)"
  by unfold_locales (auto simp: small_def intro: codec.get_vector_put [OF assms])

lemma codec_pair:
  assumes "codec p g v" and "codec q h w"
  shows "codec (put_pair p q) (get_pair g h) (\<lambda>(x, y). v x \<and> w y)"
  by unfold_locales
    (auto simp: put_pair_def get_pair_def codec.get_put [OF assms(1)] codec.get_put [OF assms(2)])

lemmas codec_leaves [codec_simps] =
  c8.get_put c32.get_put c64.get_put cbool.get_put cstring.get_put

end
