(* ===== verification/Temporal.thy ===== *)
theory Temporal
  imports Prelude "HOL-Library.Signed_Division" "HOL-Library.Monad_Syntax"
begin

text \<open>
  Dates and intervals of \<^verbatim>\<open>include/neug/utils/property/types.h\<close> and
  \<^verbatim>\<open>src/utils/property/types.cc\<close>. A \<^verbatim>\<open>Date\<close> is a 32-bit word with bit fields (hour 5,
  day 5, month 4, year 18 bits, from the least significant bit), written by assignments that keep the
  low bits of the value. \<^verbatim>\<open>from_timestamp\<close> has two branches. With \<^verbatim>\<open>ENABLE_CHRONO_YMD\<close>,
  which \<^verbatim>\<open>CMakeLists.txt\<close> defines when the standard library has \<^verbatim>\<open>std::chrono::year_month_day\<close>,
  it goes through a \<^verbatim>\<open>system_clock\<close> time point, which counts nanoseconds in 64 bits:
  \<open>from_timestamp\<close>, used by everything below. Without it the branch-free calendar algorithm is written
  out: \<open>from_timestamp_fallback\<close>. The two agree on the range of the clock. The conversion back goes
  through the date library under \<^verbatim>\<open>third_party/HowardHinnant\<close> and through a \<^verbatim>\<open>system_clock\<close>
  time point as well.

  Signed division rounds toward zero: \<open>sdiv\<close> and \<open>smod\<close>. Signed integers are \<open>int\<close>; where a
  computation can leave its width, the wrap-around is written out.
\<close>

section \<open>Global ids\<close>

definition label_id_offset :: nat where
  "label_id_offset = 64 - 8"

definition global_id :: "8 word \<Rightarrow> 32 word \<Rightarrow> 64 word" where
  "global_id label_id vid = push_bit label_id_offset (ucast label_id) OR ucast vid"

definition get_label_id :: "64 word \<Rightarrow> 8 word" where
  "get_label_id gid = ucast (drop_bit label_id_offset gid)"

definition get_vid :: "64 word \<Rightarrow> 32 word" where
  "get_vid gid = ucast (gid AND mask label_id_offset)"

section \<open>Dates\<close>

type_synonym date = "32 word"

definition mk_date :: "int \<Rightarrow> int \<Rightarrow> int \<Rightarrow> int \<Rightarrow> date" where
  "mk_date year month day hour =
     word_of_int (take_bit 5 hour + 2 ^ 5 * take_bit 5 day + 2 ^ 10 * take_bit 4 month
       + 2 ^ 14 * take_bit 18 year)"

definition date_hour :: "date \<Rightarrow> int" where
  "date_hour d = take_bit 5 (uint d)"

definition date_day :: "date \<Rightarrow> int" where
  "date_day d = take_bit 5 (drop_bit 5 (uint d))"

definition date_month :: "date \<Rightarrow> int" where
  "date_month d = take_bit 4 (drop_bit 10 (uint d))"

definition date_year :: "date \<Rightarrow> int" where
  "date_year d = drop_bit 14 (uint d)"

definition is_leap_year :: "int \<Rightarrow> bool" where
  "is_leap_year year \<longleftrightarrow> year smod 4 = 0 \<and> (year smod 100 \<noteq> 0 \<or> year smod 400 = 0)"

definition NORMAL_DAYS :: "int list" where
  "NORMAL_DAYS = [0, 31, 28, 31, 30, 31, 30, 31, 31, 30, 31, 30, 31]"

definition LEAP_DAYS :: "int list" where
  "LEAP_DAYS = [0, 31, 29, 31, 30, 31, 30, 31, 31, 30, 31, 30, 31]"

definition CUMULATIVE_DAYS :: "int list" where
  "CUMULATIVE_DAYS = [0, 31, 59, 90, 120, 151, 181, 212, 243, 273, 304, 334, 365]"

definition CUMULATIVE_LEAP_DAYS :: "int list" where
  "CUMULATIVE_LEAP_DAYS = [0, 31, 60, 91, 121, 152, 182, 213, 244, 274, 305, 335, 366]"

definition month_day :: "int \<Rightarrow> int \<Rightarrow> int" where
  "month_day year month = (if is_leap_year year then LEAP_DAYS else NORMAL_DAYS) ! nat month"

text \<open>Conversion to a signed integer of \<open>n\<close> bits.\<close>

definition swrap :: "nat \<Rightarrow> int \<Rightarrow> int" where
  "swrap n x = (x + 2 ^ (n - 1)) mod 2 ^ n - 2 ^ (n - 1)"

text \<open>
  The calendar part of the branch without \<^verbatim>\<open>ENABLE_CHRONO_YMD\<close>, from the day number to year, month
  and day; the code says it is copied from the constructor of \<^verbatim>\<open>year_month_day\<close> in libstdc++. The
  variables are those of the code without their underscores; \<open>mod 2 ^ 32\<close> and \<open>mod 2 ^ 64\<close> are
  the unsigned types.
\<close>

definition civil_from_days :: "int \<Rightarrow> int \<times> int \<times> int" where
  "civil_from_days days_since_epoch =
     (let r0 = days_since_epoch + 536895458;
          n1 = 4 * r0 + 3;
          q1 = n1 sdiv 146097;
          r1 = (n1 smod 146097) sdiv 4;
          n2 = 4 * r1 + 3;
          u2 = (2939745 * n2) mod 2 ^ 64;
          q2 = (u2 div 2 ^ 32) mod 2 ^ 32;
          r2 = (u2 mod 2 ^ 32) div 2939745 div 4;
          n3 = (2141 * r2 + 197913) mod 2 ^ 32;
          q3 = n3 div 2 ^ 16;
          r3 = n3 mod 2 ^ 16 div 2141;
          y0 = 100 * q1 + q2;
          j = r2 \<ge> 306;
          y1 = (if j then y0 + 1 else y0);
          m1 = (if j then q3 - 12 else q3);
          d1 = r3 + 1
      in (y1 + 4293499296, m1, d1))"

definition from_timestamp_fallback :: "int \<Rightarrow> date" where
  "from_timestamp_fallback ts0 =
     (let ts = ts0 sdiv 1000;
          days = ts sdiv 86400;
          sec = ts smod 86400;
          days_since_epoch = (if sec < 0 then days - 1 else days);
          sec_of_day = (if sec < 0 then sec + 86400 else sec);
          hour = sec_of_day sdiv 3600
      in case civil_from_days days_since_epoch of (y, m, d) \<Rightarrow> mk_date y m d hour)"

text \<open>
  The branch with \<^verbatim>\<open>ENABLE_CHRONO_YMD\<close>. \<^verbatim>\<open>from_time_t\<close> gives a time point in nanoseconds, in
  64 bits; \<^verbatim>\<open>floor\<close> rounds down to days; \<^verbatim>\<open>year_month_day\<close> is the library's calendar
  algorithm, with a 16-bit year; the hour is that of the time since midnight.
\<close>

definition from_time_t :: "int \<Rightarrow> int" where
  "from_time_t secs = swrap 64 (secs * 1000000000)"

definition year_month_day :: "int \<Rightarrow> int \<times> int \<times> int" where
  "year_month_day days_since_epoch =
     (case civil_from_days days_since_epoch of (y, m, d) \<Rightarrow> (swrap 16 y, m, d))"

definition from_timestamp :: "int \<Rightarrow> date" where
  "from_timestamp ts =
     (let tp = from_time_t (ts sdiv 1000);
          days_since_epoch = tp div 86400000000000;
          hour = (tp - days_since_epoch * 86400000000000) div 3600000000000
      in case year_month_day days_since_epoch of (y, m, d) \<Rightarrow> mk_date y m d hour)"

definition from_num_days :: "int \<Rightarrow> date" where
  "from_num_days num_days = from_timestamp (num_days * 24 * 60 * 60 * 1000)"

text \<open>\<^verbatim>\<open>year_month_day::to_days\<close> of the date library; its year is a 16-bit signed integer.\<close>

definition to_days :: "int \<Rightarrow> int \<Rightarrow> int \<Rightarrow> int" where
  "to_days y0 m d =
     (let y = swrap 16 y0 - (if m \<le> 2 then 1 else 0);
          era = (if y \<ge> 0 then y else y - 399) sdiv 400;
          yoe = y - era * 400;
          doy = (153 * (if m > 2 then m - 3 else m + 9) + 2) div 5 + d - 1;
          doe = yoe * 365 + yoe div 4 - yoe div 100 + doy
      in era * 146097 + doe - 719468)"

text \<open>
  \<^verbatim>\<open>to_timestamp\<close> adds the hours and converts to a \<^verbatim>\<open>system_clock\<close> time point before it
  takes seconds.
\<close>

definition to_timestamp :: "date \<Rightarrow> int" where
  "to_timestamp dt =
     (let hours = to_days (date_year dt) (date_month dt) (date_day dt) * 24 + date_hour dt;
          nanos = swrap 64 (hours * 3600 * 1000000000);
          timestamp = nanos sdiv 1000000000
      in timestamp * 1000)"

definition to_num_days :: "date \<Rightarrow> int" where
  "to_num_days dt = swrap 32 (to_timestamp dt sdiv (24 * 60 * 60 * 1000))"

section \<open>Intervals\<close>

record interval =
  months :: int
  days :: int
  micros :: int

definition MONTHS_PER_YEAR :: int where "MONTHS_PER_YEAR = 12"
definition DAYS_PER_MONTH :: int where "DAYS_PER_MONTH = 30"
definition MSEC_PER_DAY :: int where "MSEC_PER_DAY = 60 * 60 * 24 * 1000"
definition MICROS_PER_MSEC :: int where "MICROS_PER_MSEC = 1000"
definition MICROS_PER_DAY :: int where "MICROS_PER_DAY = 1000 * 1000 * 60 * 60 * 24"
definition MICROS_PER_MONTH :: int where "MICROS_PER_MONTH = MICROS_PER_DAY * DAYS_PER_MONTH"

definition itv_normalize :: "interval \<Rightarrow> int \<times> int \<times> int" where
  "itv_normalize input =
     (let carry_days = micros input sdiv MICROS_PER_DAY;
          mic = micros input - carry_days * MICROS_PER_DAY;
          dd = days input + carry_days;
          carry_months = dd sdiv DAYS_PER_MONTH;
          dd' = dd - carry_months * DAYS_PER_MONTH
      in (months input + carry_months, dd', mic))"

definition itv_invert :: "interval \<Rightarrow> interval" where
  "itv_invert i = \<lparr>months = - months i, days = - days i, micros = - micros i\<rparr>"

definition itv_eq :: "interval \<Rightarrow> interval \<Rightarrow> bool" where
  "itv_eq l r \<longleftrightarrow>
     (months l = months r \<and> days l = days r \<and> micros l = micros r) \<or>
     (case itv_normalize l of (lm, ld, lu) \<Rightarrow> case itv_normalize r of (rm, rd, ru) \<Rightarrow>
        lm = rm \<and> ld = rd \<and> lu = ru)"

definition itv_greater :: "interval \<Rightarrow> interval \<Rightarrow> bool" where
  "itv_greater l r =
     (case itv_normalize l of (lm, ld, lu) \<Rightarrow> case itv_normalize r of (rm, rd, ru) \<Rightarrow>
        if lm > rm then True else if lm < rm then False
        else if ld > rd then True else if ld < rd then False
        else lu > ru)"

definition itv_less :: "interval \<Rightarrow> interval \<Rightarrow> bool" where
  "itv_less l r = itv_greater r l"

definition from_mill_seconds :: "int \<Rightarrow> interval" where
  "from_mill_seconds ms = \<lparr>months = 0, days = 0, micros = ms * MICROS_PER_MSEC\<rparr>"

definition to_mill_seconds :: "interval \<Rightarrow> int" where
  "to_mill_seconds i = micros i sdiv MICROS_PER_MSEC + days i * (MICROS_PER_DAY sdiv MICROS_PER_MSEC)"

section \<open>Arithmetic on dates\<close>

text \<open>\<^verbatim>\<open>Date::operator+\<close>; \<open>None\<close> is the exception for a date out of range.\<close>

definition date_add_months :: "date \<Rightarrow> int \<Rightarrow> int \<times> int \<times> int" where
  "date_add_months dt n =
     (let year_diff = n sdiv MONTHS_PER_YEAR;
          year = date_year dt + year_diff;
          month = date_month dt + (n - year_diff * MONTHS_PER_YEAR);
          year' = (if month > MONTHS_PER_YEAR then year + 1 else if month \<le> 0 then year - 1 else year);
          month' = (if month > MONTHS_PER_YEAR then month - MONTHS_PER_YEAR
                    else if month \<le> 0 then month + MONTHS_PER_YEAR else month);
          day' = (if date_day dt > month_day year' month' then month_day year' month' else date_day dt)
      in (year', month', day'))"

definition date_plus :: "date \<Rightarrow> interval \<Rightarrow> date option" where
  "date_plus dt i =
     (let (year, month, day) =
            (if months i \<noteq> 0 then date_add_months dt (months i)
             else (date_year dt, date_month dt, date_day dt));
          new_date = mk_date year month day 0;
          d0 = to_num_days new_date;
          d1 = (if days i \<noteq> 0 then d0 + days i else d0);
          d2 = (if micros i \<noteq> 0 then d1 + swrap 32 (micros i sdiv MICROS_PER_DAY) else d1);
          d3 = (if micros i < 0 \<and> micros i smod MICROS_PER_DAY \<noteq> 0 then d2 - 1 else d2)
      in if d3 > 2 ^ 31 - 1 then None else Some (from_num_days (swrap 32 d3)))"

definition date_minus_interval :: "date \<Rightarrow> interval \<Rightarrow> date option" where
  "date_minus_interval dt i = date_plus dt (itv_invert i)"

definition date_diff :: "date \<Rightarrow> date \<Rightarrow> interval" where
  "date_diff l r = from_mill_seconds (to_timestamp l - to_timestamp r)"

definition datetime_plus :: "int \<Rightarrow> interval \<Rightarrow> int option" where
  "datetime_plus ms i = do {
     dm \<leftarrow> (if months i \<noteq> 0
            then let dd = swrap 32 (ms sdiv MSEC_PER_DAY);
                     month_interval = \<lparr>months = months i, days = 0, micros = 0\<rparr>
                 in map_option (\<lambda>dt. (to_num_days dt - dd) * MSEC_PER_DAY)
                      (date_plus (from_num_days dd) month_interval)
            else Some 0);
     let dd = (if days i \<noteq> 0 then days i * MSEC_PER_DAY else 0);
     let du = (if micros i \<noteq> 0 then micros i sdiv MICROS_PER_MSEC else 0);
     Some (ms + (dm + dd + du))
   }"

section \<open>Bit fields\<close>

lemma digit: "0 \<le> (h :: int) \<Longrightarrow> h < b \<Longrightarrow> (h + b * k) mod b = h \<and> (h + b * k) div b = k"
  by simp

lemma fields_of_sum:
  fixes h d m y :: int
  assumes "0 \<le> h" "h < 32" "0 \<le> d" "d < 32" "0 \<le> m" "m < 16" "0 \<le> y"
  defines "x \<equiv> h + 32 * d + 1024 * m + 16384 * y"
  shows "x mod 32 = h" and "x div 32 mod 32 = d" and "x div 1024 mod 16 = m" and "x div 16384 = y"
proof -
  have x: "x = h + 32 * (d + 32 * (m + 16 * y))" by (simp add: x_def)
  note D1 = digit [OF assms(1,2), of "d + 32 * (m + 16 * y)", folded x]
  note D2 = digit [OF assms(3,4), of "m + 16 * y"]
  note D3 = digit [OF assms(5,6), of y]
  show "x mod 32 = h" "x div 32 mod 32 = d" using D1 D2 by simp_all
  have "x div 1024 = x div 32 div 32" using zdiv_zmult2_eq [of 32 x 32] by simp
  then have 2: "x div 1024 = m + 16 * y" using D1 D2 by simp
  then show "x div 1024 mod 16 = m" using D3 by simp
  have "x div 16384 = x div 1024 div 16" using zdiv_zmult2_eq [of 16 x 1024] by simp
  then show "x div 16384 = y" using 2 D3 by simp
qed

lemma uint_of_int_small: "0 \<le> x \<Longrightarrow> x < 4294967296 \<Longrightarrow> uint (word_of_int x :: 32 word) = x"
  by (simp add: unsigned_of_int take_bit_int_eq_self)

lemma take_bit_fields:
  "take_bit 5 (x :: int) = x mod 32" "take_bit 4 (x :: int) = x mod 16"
  "take_bit 18 (x :: int) = x mod 262144" "drop_bit 5 x = x div 32" "drop_bit 10 x = x div 1024"
  "drop_bit 14 x = x div 16384"
  by (simp_all add: take_bit_eq_mod drop_bit_eq_div)

lemma mk_date_fields:
  shows "date_hour (mk_date y m d h) = h mod 32" and "date_day (mk_date y m d h) = d mod 32"
    and "date_month (mk_date y m d h) = m mod 16" and "date_year (mk_date y m d h) = y mod 262144"
proof -
  let ?x = "h mod 32 + 32 * (d mod 32) + 1024 * (m mod 16) + 16384 * (y mod 262144)"
  have bounds: "0 \<le> h mod 32" "h mod 32 < 32" "0 \<le> d mod 32" "d mod 32 < 32" "0 \<le> m mod 16"
    "m mod 16 < 16" "0 \<le> y mod 262144" "y mod 262144 < 262144"
    by simp_all
  have "0 \<le> ?x" "?x < 4294967296" using bounds by linarith+
  moreover have "mk_date y m d h = word_of_int ?x"
    by (simp only: mk_date_def take_bit_fields) simp
  ultimately have u: "uint (mk_date y m d h) = ?x" by (simp only: uint_of_int_small)
  note f = fields_of_sum [OF bounds(1-7)]
  show "date_hour (mk_date y m d h) = h mod 32" "date_day (mk_date y m d h) = d mod 32"
    "date_month (mk_date y m d h) = m mod 16" "date_year (mk_date y m d h) = y mod 262144"
    unfolding date_hour_def date_day_def date_month_def date_year_def take_bit_fields u
    by (rule f)+
qed

section \<open>The calendar\<close>

text \<open>
  The day number of a date, counted with the code's own leap-year rule and its table of cumulated
  month lengths, from 1970-01-01.
\<close>

definition days_before_year :: "int \<Rightarrow> int" where
  "days_before_year y = 365 * y + (y + 3) div 4 - (y + 99) div 100 + (y + 399) div 400"

definition day_number :: "int \<Rightarrow> int \<Rightarrow> int \<Rightarrow> int" where
  "day_number y m d = days_before_year y
     + (if is_leap_year y then CUMULATIVE_LEAP_DAYS else CUMULATIVE_DAYS) ! nat (m - 1) + d - 1
     - days_before_year 1970"

definition valid_date :: "int \<Rightarrow> int \<Rightarrow> int \<Rightarrow> bool" where
  "valid_date y m d \<longleftrightarrow> 1 \<le> m \<and> m \<le> 12 \<and> 1 \<le> d \<and> d \<le> month_day y m"

lemma sdiv_nonneg: "0 \<le> (a :: int) \<Longrightarrow> 0 < b \<Longrightarrow> a sdiv b = a div b"
  by (simp add: signed_divide_int_def sgn_if)

lemma smod_nonneg: "0 \<le> (a :: int) \<Longrightarrow> 0 < b \<Longrightarrow> a smod b = a mod b"
  by (simp add: signed_modulo_int_def sgn_if)

lemma smod_abs_less: "0 < b \<Longrightarrow> \<bar>(a :: int) smod b\<bar> < b"
  by (simp add: signed_modulo_int_def abs_mult sgn_if)

lemma smod_zero_iff: "0 < b \<Longrightarrow> (a :: int) smod b = 0 \<longleftrightarrow> b dvd a"
  by (simp add: signed_modulo_int_def sgn_if dvd_eq_mod_eq_0 [symmetric])

lemma leap_dvd: "is_leap_year y \<longleftrightarrow> 4 dvd y \<and> (\<not> 100 dvd y \<or> 400 dvd y)"
  by (simp add: is_leap_year_def smod_zero_iff)

text \<open>Years that start in March: the algorithm counts them, so that the leap day is the last one.\<close>

definition march_days :: "int \<Rightarrow> int" where
  "march_days y = 365 * y + y div 4 - y div 100 + y div 400"

lemma march_days_century:
  assumes "0 \<le> q2" and "q2 < 100"
  shows "march_days (100 * q1 + q2) = 36524 * q1 + q1 div 4 + 365 * q2 + q2 div 4"
proof -
  let ?y = "q2 + 100 * q1"
  have e100: "?y div 100 = q1" using digit [OF assms, of q1] by blast
  have e4: "?y div 4 = q2 div 4 + 25 * q1"
    using div_mult_self2 [of 4 q2 "25 * q1"] by simp
  have e400: "?y div 400 = q1 div 4" using zdiv_zmult2_eq [of 4 ?y 100] e100 by simp
  have "march_days ?y = 365 * ?y + (q2 div 4 + 25 * q1) - q1 + q1 div 4"
    by (simp only: march_days_def e4 e100 e400)
  moreover have "365 * ?y + (u + 25 * q1) - q1 + v = 36524 * q1 + v + 365 * q2 + u" for u v
    by (simp add: algebra_simps)
  ultimately show ?thesis by (simp only: add.commute [of "100 * q1"])
qed

text \<open>The century and the year of the century.\<close>

lemma century_split:
  fixes r0 :: int
  assumes "0 \<le> r0"
  defines "q1 \<equiv> (4 * r0 + 3) div 146097" and "r1 \<equiv> ((4 * r0 + 3) mod 146097) div 4"
  shows "r0 = 36524 * q1 + q1 div 4 + r1" and "0 \<le> r1" and "r1 \<le> 36524"
    and "r1 = 36524 \<longrightarrow> q1 mod 4 = 3"
proof -
  define n where "n = (4 * r0 + 3) mod 146097"
  have n: "0 \<le> n" "n < 146097" "4 * r0 + 3 = 146097 * q1 + n"
    by (simp_all add: n_def q1_def)
  have r1: "r1 = n div 4" by (simp add: r1_def n_def)
  show "0 \<le> r1" "r1 \<le> 36524" using n(1,2) by (simp_all add: r1)
  define a b c e where "a = q1 div 4" and "b = q1 mod 4" and "c = n div 4" and "e = n mod 4"
  have q: "q1 = 4 * a + b" "0 \<le> b" "b < 4" and c: "n = 4 * c + e" "0 \<le> e" "e < 4"
    by (simp_all add: a_def b_def c_def e_def)
  define k where "k = r0 - 36524 * q1 - a - c"
  have k: "4 * k = b + e - 3"
    using n(3) q(1) c(1) by (simp add: k_def algebra_simps)
  have "k = 0" using k q(2,3) c(2,3) by linarith
  then have z: "r0 - 36524 * q1 - a - c = 0" "b + e = 3" using k by (simp_all add: k_def)
  then show "r0 = 36524 * q1 + q1 div 4 + r1" by (simp add: r1 a_def c_def)
  show "r1 = 36524 \<longrightarrow> q1 mod 4 = 3"
  proof
    assume "r1 = 36524"
    then have "c = 36524" by (simp add: r1 c_def)
    then have "e = 0" using c n(2) by linarith
    then show "q1 mod 4 = 3" using z(2) by (simp add: b_def)
  qed
qed

lemma year_split:
  fixes r1 :: int
  assumes "0 \<le> r1" and "r1 \<le> 36524"
  defines "q2 \<equiv> (4 * r1 + 3) div 1461" and "r2 \<equiv> ((4 * r1 + 3) mod 1461) div 4"
  shows "r1 = 365 * q2 + q2 div 4 + r2" and "0 \<le> r2" and "r2 \<le> 365" and "0 \<le> q2" and "q2 < 100"
    and "r2 = 365 \<longrightarrow> q2 mod 4 = 3"
proof -
  define n where "n = (4 * r1 + 3) mod 1461"
  have n: "0 \<le> n" "n < 1461" "4 * r1 + 3 = 1461 * q2 + n"
    by (simp_all add: n_def q2_def)
  have r2: "r2 = n div 4" by (simp add: r2_def n_def)
  show "0 \<le> r2" "r2 \<le> 365" using n(1,2) by (simp_all add: r2)
  show "0 \<le> q2" "q2 < 100" using assms(1,2) n by linarith+
  define a b c e where "a = q2 div 4" and "b = q2 mod 4" and "c = n div 4" and "e = n mod 4"
  have q: "q2 = 4 * a + b" "0 \<le> b" "b < 4" and c: "n = 4 * c + e" "0 \<le> e" "e < 4"
    by (simp_all add: a_def b_def c_def e_def)
  define k where "k = r1 - 365 * q2 - a - c"
  have k: "4 * k = b + e - 3"
    using n(3) q(1) c(1) by (simp add: k_def algebra_simps)
  have "k = 0" using k q(2,3) c(2,3) by linarith
  then have z: "r1 - 365 * q2 - a - c = 0" "b + e = 3" using k by (simp_all add: k_def)
  then show "r1 = 365 * q2 + q2 div 4 + r2" by (simp add: r2 a_def c_def)
  show "r2 = 365 \<longrightarrow> q2 mod 4 = 3"
  proof
    assume "r2 = 365"
    then have "c = 365" by (simp add: r2 c_def)
    then have "e = 0" using c n(2) by linarith
    then show "q2 mod 4 = 3" using z(2) by (simp add: b_def)
  qed
qed

text \<open>
  The multiplication that replaces the division by 1461: \<open>2939745 * 1461\<close> is \<open>2 ^ 32 + 149\<close>, and
  the error stays below one unit over a century.
\<close>

lemma year_multiply:
  fixes n2 :: int
  assumes "0 \<le> n2" and "n2 \<le> 146099"
  defines "u2 \<equiv> (2939745 * n2) mod 2 ^ 64"
  shows "(u2 div 2 ^ 32) mod 2 ^ 32 = n2 div 1461"
    and "(u2 mod 2 ^ 32) div 2939745 div 4 = (n2 mod 1461) div 4"
proof -
  define a b where "a = n2 div 1461" and "b = n2 mod 1461"
  have n: "n2 = 1461 * a + b" "0 \<le> b" "b \<le> 1460" by (simp_all add: a_def b_def)
  have a: "0 \<le> a" "a \<le> 99" using n assms(1,2) by linarith+
  let ?w = "149 * a + 2939745 * b"
  have w: "0 \<le> ?w" "?w < 4294967296" using n a by linarith+
  have u: "2939745 * n2 = ?w + 4294967296 * a" by (simp add: n(1) algebra_simps)
  have "2939745 * n2 < 18446744073709551616" using assms(2) by linarith
  then have u2: "u2 = ?w + 4294967296 * a"
    using assms(1) by (simp add: u2_def flip: u)
  have d: "u2 mod 4294967296 = ?w" "u2 div 4294967296 = a"
    using digit [OF w, of a] by (simp_all only: u2)
  show "(u2 div 2 ^ 32) mod 2 ^ 32 = n2 div 1461"
    using d(2) a by (simp add: a_def [symmetric])
  have "0 \<le> 149 * a" "149 * a < 2939745" using a by linarith+
  from digit [OF this, of b] have "?w div 2939745 = b" by simp
  then show "(u2 mod 2 ^ 32) div 2939745 div 4 = (n2 mod 1461) div 4"
    using d(1) by (simp add: b_def)
qed

text \<open>The month and the day of the month, over the days of a year that starts in March.\<close>

definition month_of :: "int \<Rightarrow> int \<times> int" where
  "month_of r2 = (let n3 = (2141 * r2 + 197913) mod 2 ^ 32
     in (n3 div 2 ^ 16, n3 mod 2 ^ 16 div 2141 + 1))"

definition month_ok :: "int \<Rightarrow> bool" where
  "month_ok r2 \<longleftrightarrow> (case month_of r2 of (m, d) \<Rightarrow>
     3 \<le> m \<and> m \<le> 14 \<and> 1 \<le> d \<and> (r2 \<ge> 306 \<longleftrightarrow> m \<ge> 13) \<and>
     (if m \<le> 12 then d \<le> NORMAL_DAYS ! nat m \<and> r2 = CUMULATIVE_DAYS ! nat (m - 1) - 59 + d - 1
      else d \<le> LEAP_DAYS ! nat (m - 12) \<and> r2 = CUMULATIVE_DAYS ! nat (m - 13) + 306 + d - 1))"

lemma month_of_eq:
  assumes "0 \<le> r2 - a" and "2141 * a + 197913 = 65536 * m + c" and "0 \<le> c" "c < 2141"
    and "2141 * (r2 - a) + c < 65536" and "0 \<le> m" "m < 65536"
  shows "month_of r2 = (m, r2 - a + 1)"
proof -
  let ?x = "c + 2141 * (r2 - a)"
  have e: "2141 * r2 + 197913 = ?x + 65536 * m" using assms(2) by (simp add: algebra_simps)
  have "0 \<le> ?x" "?x < 65536" using assms(1,3,5) by simp_all
  note d = digit [OF this, of m]
  have "?x div 2141 = r2 - a" using digit [OF assms(3,4), of "r2 - a"] by blast
  moreover have "(?x + 65536 * m) mod 4294967296 = ?x + 65536 * m"
    using \<open>0 \<le> ?x\<close> \<open>?x < 65536\<close> assms(6,7) by simp
  ultimately show ?thesis using d by (simp add: month_of_def Let_def e)
qed

lemma month_split:
  assumes "0 \<le> r2" and "r2 \<le> 365"
  shows "month_ok r2"
proof -
  have cases: "r2 \<le> 30 \<or> 31 \<le> r2 \<and> r2 \<le> 60 \<or> 61 \<le> r2 \<and> r2 \<le> 91 \<or> 92 \<le> r2 \<and> r2 \<le> 121 \<or>
    122 \<le> r2 \<and> r2 \<le> 152 \<or> 153 \<le> r2 \<and> r2 \<le> 183 \<or> 184 \<le> r2 \<and> r2 \<le> 213 \<or>
    214 \<le> r2 \<and> r2 \<le> 244 \<or> 245 \<le> r2 \<and> r2 \<le> 274 \<or> 275 \<le> r2 \<and> r2 \<le> 305 \<or>
    306 \<le> r2 \<and> r2 \<le> 336 \<or> 337 \<le> r2 \<and> r2 \<le> 365"
    using assms by linarith
  note tables = month_ok_def NORMAL_DAYS_def LEAP_DAYS_def CUMULATIVE_DAYS_def
  from cases assms show ?thesis
  proof (elim disjE conjE, goal_cases)
    case 1 then show ?case using month_of_eq [of r2 0 3 1305] by (simp add: tables)
  next
    case 2 then show ?case using month_of_eq [of r2 31 4 2140] by (simp add: tables)
  next
    case 3 then show ?case using month_of_eq [of r2 61 5 834] by (simp add: tables)
  next
    case 4 then show ?case using month_of_eq [of r2 92 6 1669] by (simp add: tables)
  next
    case 5 then show ?case using month_of_eq [of r2 122 7 363] by (simp add: tables)
  next
    case 6 then show ?case using month_of_eq [of r2 153 8 1198] by (simp add: tables)
  next
    case 7 then show ?case using month_of_eq [of r2 184 9 2033] by (simp add: tables)
  next
    case 8 then show ?case using month_of_eq [of r2 214 10 727] by (simp add: tables)
  next
    case 9 then show ?case using month_of_eq [of r2 245 11 1562] by (simp add: tables)
  next
    case 10 then show ?case using month_of_eq [of r2 275 12 256] by (simp add: tables)
  next
    case 11 then show ?case using month_of_eq [of r2 306 13 1091] by (simp add: tables)
  next
    case 12 then show ?case using month_of_eq [of r2 337 14 1926] by (simp add: tables)
  qed
qed

lemma march_days_shift: "march_days (y + 400 * k) = march_days y + 146097 * k"
proof -
  have "(y + 400 * k) div 4 = y div 4 + 100 * k" "(y + 400 * k) div 100 = y div 100 + 4 * k"
    "(y + 400 * k) div 400 = y div 400 + k"
    using div_mult_self2 [of 4 y "100 * k"] div_mult_self2 [of 100 y "4 * k"] by simp_all
  then show ?thesis unfolding march_days_def by (simp only:) (simp add: algebra_simps)
qed

lemma div_pred: "0 < (k :: int) \<Longrightarrow> (y + (k - 1)) div k = (y - 1) div k + 1"
  using div_add_self2 [of k "y - 1"] by (simp add: algebra_simps)

lemma days_before_year_march: "days_before_year y = march_days (y - 1) + 366"
proof -
  have "(y + 3) div 4 = (y - 1) div 4 + 1" "(y + 99) div 100 = (y - 1) div 100 + 1"
    "(y + 399) div 400 = (y - 1) div 400 + 1"
    using div_pred [of 4 y] div_pred [of 100 y] div_pred [of 400 y] by simp_all
  then show ?thesis unfolding days_before_year_def march_days_def by (simp only:) (simp add: algebra_simps)
qed

lemma div_succ:
  assumes "0 < (k :: int)"
  shows "y div k = (y - 1) div k + (if k dvd y then 1 else 0)"
proof (cases "k dvd y")
  case True
  then obtain c where c: "y = k * c" by blast
  have "(k * c - 1) div k = c - 1"
    using assms by (intro int_div_pos_eq [of _ _ _ "k - 1"]) (auto simp: algebra_simps)
  then show ?thesis using assms by (simp add: c)
next
  case False
  have "y mod k \<noteq> 0" using False by (simp add: dvd_eq_mod_eq_0)
  then have r: "0 < y mod k" "y mod k < k"
    using pos_mod_sign [OF assms, of y] pos_mod_bound [OF assms, of y] by linarith+
  have "(y - 1) div k = y div k"
    using r by (intro int_div_pos_eq [of _ _ _ "y mod k - 1"]) (auto simp: algebra_simps)
  then show ?thesis using False by simp
qed

lemma march_days_succ: "march_days y = march_days (y - 1) + 365 + (if is_leap_year y then 1 else 0)"
proof -
  have d: "4 dvd y" if "100 dvd y" using that by (rule dvd_trans [rotated]) simp
  have e: "100 dvd y" if "400 dvd y" using that by (rule dvd_trans [rotated]) simp
  have s: "y div 4 = (y - 1) div 4 + (if 4 dvd y then 1 else 0)"
    "y div 100 = (y - 1) div 100 + (if 100 dvd y then 1 else 0)"
    "y div 400 = (y - 1) div 400 + (if 400 dvd y then 1 else 0)"
    by (rule div_succ, simp)+
  have "365 * y + (u + (if p then 1 else 0)) - (v + (if q then 1 else 0)) + (w + (if r then 1 else 0))
    = 365 * (y - 1) + u - v + w + 365 + (if p \<and> (\<not> q \<or> r) then 1 else 0)"
    if "q \<longrightarrow> p" "r \<longrightarrow> q" for p q r u v w
    using that by (cases p; cases q; cases r) simp_all
  then show ?thesis unfolding march_days_def s leap_dvd using d e by blast
qed

lemma leap_shift: "is_leap_year (y + 400 * k) = is_leap_year y"
proof -
  have "4 dvd y + 400 * k \<longleftrightarrow> 4 dvd y" "100 dvd y + 400 * k \<longleftrightarrow> 100 dvd y"
    "400 dvd y + 400 * k \<longleftrightarrow> 400 dvd y"
    by (auto simp: dvd_add_left_iff dvd_mult2)
  then show ?thesis by (simp add: leap_dvd)
qed

lemma month_cases:
  assumes "1 \<le> m" and "m \<le> (12 :: int)"
  shows "m = 1 \<or> m = 2 \<or> m = 3 \<or> m = 4 \<or> m = 5 \<or> m = 6 \<or> m = 7 \<or> m = 8 \<or> m = 9 \<or> m = 10 \<or>
    m = 11 \<or> m = 12"
proof -
  have "m \<in> set [1..12]" using assms by simp
  then show ?thesis by (simp add: upto.simps)
qed

text \<open>A date given by the March-based year \<open>y\<close> and the day \<open>r2\<close> in it.\<close>

lemma day_number_march:
  assumes "1 \<le> m" "m \<le> 12"
  shows "day_number y m d =
    (if m \<ge> 3 then march_days y + (CUMULATIVE_DAYS ! nat (m - 1) - 59 + d - 1)
     else march_days (y - 1) + (CUMULATIVE_DAYS ! nat (m - 1) + 306 + d - 1)) - 719468"
proof -
  have epoch: "days_before_year 1970 = 719528" by (simp add: days_before_year_def)
  have cum: "(if is_leap_year y then CUMULATIVE_LEAP_DAYS else CUMULATIVE_DAYS) ! nat (m - 1)
      = CUMULATIVE_DAYS ! nat (m - 1) + (if is_leap_year y \<and> m \<ge> 3 then 1 else 0)"
    (is "?l = _")
    using month_cases [OF assms]
    by (elim disjE) (simp_all add: CUMULATIVE_DAYS_def CUMULATIVE_LEAP_DAYS_def)
  have "day_number y m d = march_days (y - 1) + 366
      + (CUMULATIVE_DAYS ! nat (m - 1) + (if is_leap_year y \<and> m \<ge> 3 then 1 else 0)) + d - 1 - 719528"
    unfolding day_number_def cum epoch by (simp only: days_before_year_march)
  then show ?thesis
    using march_days_succ [of y] by (cases "m \<ge> 3"; cases "is_leap_year y") simp_all
qed

lemma leap_of_last_day:
  assumes "0 \<le> q2" "q2 < 100" and "q2 mod 4 = 3" and "q2 = 99 \<longrightarrow> q1 mod 4 = 3"
  shows "is_leap_year (100 * q1 + q2 + 1)"
proof (cases "q2 = 99")
  case True
  then have e: "100 * q1 + q2 + 1 = 100 * (q1 + 1)" by simp
  have "4 dvd q1 + 1"
    using assms(4) True by (simp add: dvd_eq_mod_eq_0 mod_add_left_eq [symmetric, of q1 1])
  then have "100 * 4 dvd 100 * (q1 + 1)" by (rule mult_dvd_mono [OF dvd_refl])
  then have "400 dvd 100 * q1 + q2 + 1" unfolding e by (simp only: mult_numeral_1 numeral_times_numeral semiring_norm)
  moreover have "4 dvd 100 * q1 + q2 + 1" using calculation by (rule dvd_trans [rotated]) simp
  ultimately show ?thesis by (simp add: leap_dvd)
next
  case False
  have c: "q2 + 1 = 4 * (q2 div 4 + 1)" using assms(3) mult_div_mod_eq [of 4 q2] by simp
  have "100 * q1 + q2 + 1 = 4 * (25 * q1 + (q2 div 4 + 1))" using c by simp
  then have "4 dvd 100 * q1 + q2 + 1" by (metis dvd_triv_left)
  moreover have "\<not> 100 dvd 100 * q1 + q2 + 1"
  proof
    assume "100 dvd 100 * q1 + q2 + 1"
    then have "100 dvd q2 + 1" by (simp add: add.assoc dvd_add_right_iff)
    then have "100 \<le> q2 + 1" using assms(1) by (intro zdvd_imp_le) auto
    then show False using assms(2) False by simp
  qed
  ultimately show ?thesis by (simp add: leap_dvd)
qed

text \<open>The variables of the algorithm, once the multiplications are divisions.\<close>

lemma civil_from_days_vars:
  assumes "- 536895458 \<le> n"
  obtains y0 r2 where "civil_from_days n =
      (y0 + (if 306 \<le> r2 then 1 else 0) + 4293499296,
       fst (month_of r2) - (if 306 \<le> r2 then 12 else 0), snd (month_of r2))"
    and "n + 536895458 = march_days y0 + r2" and "0 \<le> r2" "r2 \<le> 365" "0 \<le> y0"
    and "r2 = 365 \<longrightarrow> is_leap_year (y0 + 1)"
proof -
  define r0 where "r0 = n + 536895458"
  have r0: "0 \<le> r0" using assms by (simp add: r0_def)
  define q1 r1 where "q1 = (4 * r0 + 3) div 146097" and "r1 = ((4 * r0 + 3) mod 146097) div 4"
  note C = century_split [OF r0, folded q1_def r1_def]
  define q2 r2 where "q2 = (4 * r1 + 3) div 1461" and "r2 = ((4 * r1 + 3) mod 1461) div 4"
  note Y = year_split [OF C(2,3), folded q2_def r2_def]
  have n2: "0 \<le> 4 * r1 + 3" "4 * r1 + 3 \<le> 146099" using C(2,3) by simp_all
  note M = year_multiply [OF n2, folded q2_def r2_def]
  have s: "(4 * r0 + 3) sdiv 146097 = q1" "(4 * r0 + 3) smod 146097 = (4 * r0 + 3) mod 146097"
    "((4 * r0 + 3) mod 146097) sdiv 4 = r1"
    using r0 by (simp_all add: sdiv_nonneg smod_nonneg q1_def r1_def)
  have q1: "0 \<le> q1" using r0 by (simp add: q1_def pos_imp_zdiv_nonneg_iff)
  show ?thesis
  proof (rule that [of "100 * q1 + q2" r2])
    show "civil_from_days n = (100 * q1 + q2 + (if 306 \<le> r2 then 1 else 0) + 4293499296,
        fst (month_of r2) - (if 306 \<le> r2 then 12 else 0), snd (month_of r2))"
      unfolding civil_from_days_def Let_def r0_def [symmetric] s M month_of_def by simp
    show "n + 536895458 = march_days (100 * q1 + q2) + r2"
      unfolding march_days_century [OF Y(4,5)] r0_def [symmetric] using C(1) Y(1) by simp
    show "r2 = 365 \<longrightarrow> is_leap_year (100 * q1 + q2 + 1)"
    proof
      assume "r2 = 365"
      then have m: "q2 mod 4 = 3" using Y(6) by simp
      have "q1 mod 4 = 3" if "q2 = 99"
        using that \<open>r2 = 365\<close> Y(1) C(4) by simp
      then show "is_leap_year (100 * q1 + q2 + 1)" by (intro leap_of_last_day Y(4,5) m) simp
    qed
  qed (use Y q1 in simp_all)
qed

lemma civil_from_days_correct:
  assumes "- 536895458 \<le> n"
  obtains y m d where "civil_from_days n = (y + 2 ^ 32, m, d)" and "valid_date y m d"
    and "day_number y m d = n"
proof -
  obtain y0 r2 where c: "civil_from_days n =
      (y0 + (if 306 \<le> r2 then 1 else 0) + 4293499296,
       fst (month_of r2) - (if 306 \<le> r2 then 12 else 0), snd (month_of r2))"
    and n: "n + 536895458 = march_days y0 + r2" and r2: "0 \<le> r2" "r2 \<le> 365"
    and leap: "r2 = 365 \<longrightarrow> is_leap_year (y0 + 1)"
    using civil_from_days_vars [OF assms] by metis
  define m d Y where "m = fst (month_of r2)" and "d = snd (month_of r2)" and "Y = y0 - 1468000"
  have ok: "3 \<le> m" "m \<le> 14" "1 \<le> d" "r2 \<ge> 306 \<longleftrightarrow> m \<ge> 13"
    "m \<le> 12 \<Longrightarrow> d \<le> NORMAL_DAYS ! nat m \<and> r2 = CUMULATIVE_DAYS ! nat (m - 1) - 59 + d - 1"
    "\<not> m \<le> 12 \<Longrightarrow> d \<le> LEAP_DAYS ! nat (m - 12) \<and> r2 = CUMULATIVE_DAYS ! nat (m - 13) + 306 + d - 1"
    using month_split [OF r2]
    by (simp_all add: month_ok_def m_def d_def case_prod_beta split: if_splits)
  have Y: "y0 = Y + 400 * 3670" by (simp add: Y_def)
  have n': "n = march_days Y + r2 - 719468"
    using n march_days_shift [of Y 3670] by (simp add: Y)
  have leap': "r2 = 365 \<longrightarrow> is_leap_year (Y + 1)"
    using leap leap_shift [of "Y + 1" 3670] by (simp add: Y algebra_simps)
  show ?thesis
  proof (cases "306 \<le> r2")
    case False
    then have m: "3 \<le> m" "m \<le> 12" using ok(1,4) by auto
    have "d \<le> month_day Y m"
      using ok(5) month_cases [of m] m
      by (auto simp: month_day_def NORMAL_DAYS_def LEAP_DAYS_def)
    then have v: "valid_date Y m d" using m ok(3) by (simp add: valid_date_def)
    have "day_number Y m d = n"
      using day_number_march [of m Y d] m ok(5) n' by simp
    moreover have "civil_from_days n = (Y + 2 ^ 32, m, d)"
      unfolding c using False by (simp add: m_def d_def Y)
    ultimately show ?thesis using v that by blast
  next
    case True
    then have m: "m = 13 \<or> m = 14" using ok(2,4) by auto
    have f: "d \<le> LEAP_DAYS ! nat (m - 12)" "r2 = CUMULATIVE_DAYS ! nat (m - 13) + 306 + d - 1"
      using ok(6) m by auto
    have "d \<le> month_day (Y + 1) (m - 12)"
    proof (cases "is_leap_year (Y + 1)")
      case False
      then have "r2 \<le> 364" using leap' r2(2) by auto
      then show ?thesis
        using m f False by (auto simp: month_day_def NORMAL_DAYS_def LEAP_DAYS_def CUMULATIVE_DAYS_def)
    qed (use f in \<open>simp add: month_day_def\<close>)
    then have v: "valid_date (Y + 1) (m - 12) d" using m ok(3) by (auto simp: valid_date_def)
    have "day_number (Y + 1) (m - 12) d = n"
      using day_number_march [of "m - 12" "Y + 1" d] m f n' by auto
    moreover have "civil_from_days n = (Y + 1 + 2 ^ 32, m - 12, d)"
      unfolding c using True by (simp add: m_def d_def Y)
    ultimately show ?thesis using v that by blast
  qed
qed

text \<open>The date library's conversion counts the same days.\<close>

lemma floor_era: "(if y \<ge> 0 then y else y - 399) sdiv 400 = (y :: int) div 400"
proof (cases "0 \<le> y")
  case False
  have "(y - 399) sdiv 400 = - ((399 - y) div 400)"
    using False by (simp add: signed_divide_int_def sgn_if)
  moreover have "(399 - y) div 400 = - (y div 400)"
  proof -
    define q r where "q = y div 400" and "r = y mod 400"
    have y: "y = 400 * q + r" "0 \<le> r" "r < 400" by (simp_all add: q_def r_def)
    have "399 - y = (399 - r) + 400 * (- q)" using y(1) by simp
    then show ?thesis using digit [of "399 - r" 400 "- q"] y(2,3) by (simp add: q_def [symmetric])
  qed
  ultimately show ?thesis using False by simp
qed (simp add: sdiv_nonneg)

lemma to_days_day_number:
  assumes "1 \<le> m" "m \<le> 12" and "- 32768 \<le> y" "y \<le> 32767"
  shows "to_days y m d = day_number y m d"
proof -
  have w: "swrap 16 y = y" using assms(3,4) by (simp add: swrap_def)
  define Y where "Y = y - (if m \<le> 2 then 1 else 0)"
  have doe: "era * 146097 + (yoe * 365 + yoe div 4 - yoe div 100 + doy) - 719468
      = march_days Y + doy - 719468"
    if "era = Y div 400" "yoe = Y - era * 400" for era yoe doy
  proof -
    have yoe: "yoe = Y mod 400" using that by (simp add: minus_div_mult_eq_mod)
    then have "yoe div 400 = 0" by simp
    moreover have "Y = yoe + 400 * era" using that by simp
    ultimately show ?thesis using march_days_shift [of yoe era] by (simp add: march_days_def [of yoe])
  qed
  have "to_days y m d = march_days Y + ((153 * (if m > 2 then m - 3 else m + 9) + 2) div 5 + d - 1) - 719468"
    unfolding to_days_def Let_def w Y_def [symmetric] floor_era using doe by blast
  moreover have "(153 * (if m > 2 then m - 3 else m + 9) + 2) div 5
      = (if m \<ge> 3 then CUMULATIVE_DAYS ! nat (m - 1) - 59 else CUMULATIVE_DAYS ! nat (m - 1) + 306)"
    using month_cases [OF assms(1,2)] by (elim disjE) (simp_all add: CUMULATIVE_DAYS_def)
  ultimately show ?thesis
    using day_number_march [OF assms(1,2), of y d] by (simp add: Y_def)
qed

section \<open>Day numbers and dates\<close>

lemma sdiv_mult_self [simp]: "0 < b \<Longrightarrow> ((a :: int) * b) sdiv b = a"
  by (simp add: signed_divide_int_def abs_mult sgn_mult) (simp add: sgn_if)

lemma smod_mult_self [simp]: "0 < b \<Longrightarrow> ((a :: int) * b) smod b = 0"
  by (simp add: smod_zero_iff)

lemma fallback_fields:
  "from_timestamp_fallback (n * 86400000) = (case civil_from_days n of (y, m, d) \<Rightarrow> mk_date y m d 0)"
proof -
  have "n * 86400000 = (n * 86400) * 1000" by simp
  then have "(n * 86400000) sdiv 1000 = n * 86400" by (simp only: sdiv_mult_self)
  moreover have "(n * 86400) sdiv 86400 = n" "(n * 86400) smod 86400 = 0" by simp_all
  ultimately show ?thesis by (simp only: from_timestamp_fallback_def Let_def) simp
qed

lemma month_day_bounds: "1 \<le> m \<Longrightarrow> m \<le> 12 \<Longrightarrow> 28 \<le> month_day y m \<and> month_day y m \<le> 31"
  using month_cases [of m] by (auto simp: month_day_def NORMAL_DAYS_def LEAP_DAYS_def)

lemma div_bounds: "0 < (k :: int) \<Longrightarrow> k * (x div k) \<le> x \<and> x \<le> k * (x div k) + (k - 1)"
  using pos_mod_bound [of k x] pos_mod_sign [of k x] mult_div_mod_eq [of k x] by linarith

lemma days_before_year_bounds:
  shows "y \<le> 0 \<Longrightarrow> days_before_year y \<le> 365 * y + 1" and "0 \<le> y \<Longrightarrow> 365 * y - 1 \<le> days_before_year y"
proof -
  define a b c where "a = (y + 3) div 4" and "b = (y + 99) div 100" and "c = (y + 399) div 400"
  have d: "4 * a \<le> y + 3" "y \<le> 4 * a" "100 * b \<le> y + 99" "y \<le> 100 * b" "400 * c \<le> y + 399"
    "y \<le> 400 * c"
    using div_bounds [of 4 "y + 3"] div_bounds [of 100 "y + 99"] div_bounds [of 400 "y + 399"]
    unfolding a_def [symmetric] b_def [symmetric] c_def [symmetric] by auto
  have e: "days_before_year y = 365 * y + a - b + c"
    by (simp add: days_before_year_def a_def b_def c_def)
  show "y \<le> 0 \<Longrightarrow> days_before_year y \<le> 365 * y + 1" unfolding e using d by linarith
  show "0 \<le> y \<Longrightarrow> 365 * y - 1 \<le> days_before_year y" unfolding e using d by linarith
qed

lemma day_number_offset:
  assumes "valid_date y m d"
  shows "\<exists>k. day_number y m d = days_before_year y + k - 719528 \<and> 0 \<le> k \<and> k \<le> 366"
proof -
  let ?c = "(if is_leap_year y then CUMULATIVE_LEAP_DAYS else CUMULATIVE_DAYS) ! nat (m - 1)"
  have "0 \<le> ?c \<and> ?c + month_day y m \<le> 366"
    using assms month_cases [of m]
    by (auto simp: valid_date_def month_day_def CUMULATIVE_DAYS_def CUMULATIVE_LEAP_DAYS_def
        NORMAL_DAYS_def LEAP_DAYS_def)
  moreover have "days_before_year 1970 = 719528" by (simp add: days_before_year_def)
  ultimately show ?thesis
    using assms by (intro exI [of _ "?c + d - 1"]) (auto simp: day_number_def valid_date_def)
qed

lemma day_number_year_bounds:
  assumes "valid_date y m d" and "- 719162 \<le> day_number y m d"
  shows "0 \<le> y" and "365 * y \<le> day_number y m d + 719529"
proof -
  obtain k where k: "day_number y m d = days_before_year y + k - 719528" "0 \<le> k" "k \<le> 366"
    using day_number_offset [OF assms(1)] by blast
  show y: "0 \<le> y" using k assms(2) days_before_year_bounds(1) [of y] by linarith
  then show "365 * y \<le> day_number y m d + 719529"
    using k days_before_year_bounds(2) [of y] by linarith
qed

lemma fallback_date:
  assumes "- 719162 \<le> n" and "n \<le> 94000000"
  obtains y m d where "from_timestamp_fallback (n * 86400000) = mk_date y m d 0" and "valid_date y m d"
    and "day_number y m d = n" and "0 \<le> y" and "365 * y \<le> n + 719529"
    and "date_year (from_timestamp_fallback (n * 86400000)) = y" and "date_month (from_timestamp_fallback (n * 86400000)) = m"
    and "date_day (from_timestamp_fallback (n * 86400000)) = d" and "date_hour (from_timestamp_fallback (n * 86400000)) = 0"
proof -
  have "- 536895458 \<le> n" using assms(1) by simp
  then obtain y m d where c: "civil_from_days n = (y + 2 ^ 32, m, d)" "valid_date y m d"
    "day_number y m d = n"
    using civil_from_days_correct by blast
  note b = day_number_year_bounds [OF c(2)]
  have y: "0 \<le> y" "365 * y \<le> n + 719529" using b c(3) assms by auto
  then have y': "y < 262144" using assms(2) by linarith
  have md: "1 \<le> m" "m \<le> 12" "1 \<le> d" "d \<le> 31"
    using c(2) month_day_bounds [of m y] by (auto simp: valid_date_def)
  have f: "from_timestamp_fallback (n * 86400000) = mk_date (y + 2 ^ 32) m d 0" by (simp add: fallback_fields c(1))
  have e: "(y + 2 ^ 32) mod 262144 = y" using y(1) y' by (simp add: mod_add_eq [symmetric])
  have "mk_date (y + 2 ^ 32) m d 0 = mk_date y m d 0"
    unfolding mk_date_def take_bit_fields e using y(1) y' by simp
  then show ?thesis
    using that [of y m d] f c(2,3) y y' md by (simp add: mk_date_fields)
qed

text \<open>In the range of the nanosecond clock the two branches agree.\<close>

lemma swrap_id: "- (2 ^ (n - 1)) \<le> x \<Longrightarrow> x < 2 ^ (n - 1) \<Longrightarrow> 0 < n \<Longrightarrow> swrap n x = x"
proof -
  assume b: "- (2 ^ (n - 1)) \<le> x" "x < 2 ^ (n - 1)" and n: "0 < n"
  have "(2 :: int) ^ n = 2 * 2 ^ (n - 1)" using n by (cases n) simp_all
  then have "(x + 2 ^ (n - 1)) mod 2 ^ n = x + 2 ^ (n - 1)" using b by (intro mod_pos_pos_trivial) linarith+
  then show ?thesis by (simp add: swrap_def)
qed

lemma sdiv_floor:
  fixes s b :: int
  assumes "0 < b"
  shows "(if s smod b < 0 then s sdiv b - 1 else s sdiv b) = s div b"
    and "(if s smod b < 0 then s smod b + b else s smod b) = s mod b"
proof -
  let ?q = "if s smod b < 0 then s sdiv b - 1 else s sdiv b"
    and ?r = "if s smod b < 0 then s smod b + b else s smod b"
  have "s = b * (s sdiv b) + s smod b" using minus_sdiv_mult_eq_smod [of s b] by (simp add: algebra_simps)
  then have e: "s = ?r + b * ?q" by (simp add: algebra_simps)
  have "0 \<le> ?r" "?r < b" using smod_abs_less [OF assms, of s] by auto
  from digit [OF this, of ?q] show "?q = s div b" "?r = s mod b" using e by auto
qed

lemma clock_days:
  assumes "\<bar>s\<bar> \<le> 9223372036"
  shows "from_time_t s div 86400000000000 = s div 86400"
    and "(from_time_t s - s div 86400 * 86400000000000) div 3600000000000 = s mod 86400 div 3600"
proof -
  have tp: "from_time_t s = s * 1000000000" using assms by (simp add: from_time_t_def swrap_id)
  show "from_time_t s div 86400000000000 = s div 86400"
    using div_mult_mult2 [of 1000000000 s 86400] by (simp add: tp)
  have "s * 1000000000 - s div 86400 * 86400000000000 = (s - s div 86400 * 86400) * 1000000000" by simp
  also have "\<dots> = (s mod 86400) * 1000000000" by (simp add: minus_div_mult_eq_mod)
  finally show "(from_time_t s - s div 86400 * 86400000000000) div 3600000000000 = s mod 86400 div 3600"
    using div_mult_mult2 [of 1000000000 "s mod 86400" 3600] by (simp add: tp)
qed

lemma year_month_day_civil:
  assumes "- 719162 \<le> n" and "n \<le> 10000000"
  shows "(case year_month_day n of (y, m, d) \<Rightarrow> mk_date y m d h) = (case civil_from_days n of (y, m, d) \<Rightarrow> mk_date y m d h)"
proof -
  have "- 536895458 \<le> n" using assms(1) by simp
  then obtain y m d where c: "civil_from_days n = (y + 2 ^ 32, m, d)" "valid_date y m d" "day_number y m d = n"
    using civil_from_days_correct by blast
  have y: "0 \<le> y" "y \<le> 32767" using day_number_year_bounds [OF c(2)] c(3) assms by auto
  have "(y + 2 ^ 32 + 32768) mod 65536 = (y + 32768) mod 65536"
    using mod_mult_self2 [of "y + 32768" 65536 65536] by (simp add: add.assoc)
  then have "swrap 16 (y + 2 ^ 32) = y" using y by (simp add: swrap_def)
  moreover have "(y + 2 ^ 32) mod 262144 = y mod 262144" by (simp add: mod_add_eq [symmetric])
  ultimately show ?thesis by (simp add: year_month_day_def c(1) mk_date_def take_bit_fields)
qed

lemma from_timestamp_branches:
  assumes "\<bar>ts\<bar> \<le> 9223372036999"
  shows "from_timestamp ts = from_timestamp_fallback ts"
proof -
  let ?s = "ts sdiv 1000"
  have "\<bar>?s\<bar> \<le> \<bar>ts\<bar> div 1000" by (simp add: signed_divide_int_def abs_mult sgn_if)
  then have s: "\<bar>?s\<bar> \<le> 9223372036" using assms by linarith
  then have n: "- 719162 \<le> ?s div 86400" "?s div 86400 \<le> 10000000" by linarith+
  have "0 \<le> ?s mod 86400" by simp
  then have h: "(?s mod 86400) sdiv 3600 = ?s mod 86400 div 3600" by (simp add: sdiv_nonneg)
  have "from_timestamp ts = (case year_month_day (?s div 86400) of (y, m, d) \<Rightarrow> mk_date y m d (?s mod 86400 div 3600))"
    by (simp only: from_timestamp_def Let_def clock_days [OF s])
  also have "\<dots> = from_timestamp_fallback ts"
    unfolding year_month_day_civil [OF n]
    by (simp only: from_timestamp_fallback_def Let_def sdiv_floor [of 86400] zero_less_numeral h)
  finally show ?thesis .
qed

lemma from_num_days_fallback:
  assumes "\<bar>n\<bar> \<le> 106751"
  shows "from_num_days n = from_timestamp_fallback (n * 86400000)"
proof -
  have "n * 24 * 60 * 60 * 1000 = n * 86400000" by simp
  then have "from_num_days n = from_timestamp (n * 86400000)" by (simp only: from_num_days_def)
  also have "\<dots> = from_timestamp_fallback (n * 86400000)"
    by (rule from_timestamp_branches) (use assms in \<open>simp add: abs_mult\<close>)
  finally show ?thesis .
qed

lemma from_num_days_date:
  assumes "\<bar>n\<bar> \<le> 106751"
  obtains y m d where "from_num_days n = mk_date y m d 0" and "valid_date y m d"
    and "day_number y m d = n" and "0 \<le> y" and "365 * y \<le> n + 719529"
    and "date_year (from_num_days n) = y" and "date_month (from_num_days n) = m"
    and "date_day (from_num_days n) = d" and "date_hour (from_num_days n) = 0"
proof -
  have "- 719162 \<le> n" "n \<le> 94000000" using assms by auto
  then show ?thesis using that unfolding from_num_days_fallback [OF assms] by (rule fallback_date)
qed

text \<open>In the same range the conversion back is exact.\<close>

lemma to_num_days_number:
  assumes "1 \<le> date_month dt" "date_month dt \<le> 12" and "date_year dt \<le> 32767"
    and "date_hour dt = 0"
    and "day_number (date_year dt) (date_month dt) (date_day dt) = n" and "\<bar>n\<bar> \<le> 106751"
  shows "to_timestamp dt = n * 86400000" and "to_num_days dt = n"
proof -
  have y0: "0 \<le> date_year dt" by (simp add: date_year_def)
  have "to_days (date_year dt) (date_month dt) (date_day dt) = n"
    using to_days_day_number [OF assms(1,2) _ assms(3)] y0 assms(5) by simp
  then have "to_timestamp dt = swrap 64 (n * 24 * 3600 * 1000000000) sdiv 1000000000 * 1000"
    by (simp add: to_timestamp_def Let_def assms(4))
  also have "swrap 64 (n * 24 * 3600 * 1000000000) = (n * 86400) * 1000000000"
    using assms(6) by (subst swrap_id) auto
  also have "\<dots> sdiv 1000000000 * 1000 = n * 86400000" by (simp only: sdiv_mult_self)
  finally show ts: "to_timestamp dt = n * 86400000" .
  have "swrap 32 n = n" using assms(6) by (intro swrap_id) auto
  then show "to_num_days dt = n" unfolding to_num_days_def ts by simp
qed

lemma num_days_roundtrip:
  assumes "\<bar>n\<bar> \<le> 106751"
  shows "to_num_days (from_num_days n) = n" and "to_timestamp (from_num_days n) = n * 86400000"
proof -
  obtain y m d where d: "valid_date y m d" "day_number y m d = n" "365 * y \<le> n + 719529"
    "date_year (from_num_days n) = y" "date_month (from_num_days n) = m"
    "date_day (from_num_days n) = d" "date_hour (from_num_days n) = 0"
    using assms by (elim from_num_days_date) blast+
  have "y \<le> 32767" using d(3) assms by linarith
  then show "to_num_days (from_num_days n) = n" "to_timestamp (from_num_days n) = n * 86400000"
    using to_num_days_number [of "from_num_days n" n] d assms by (auto simp: valid_date_def)
qed

section \<open>Interval normal forms\<close>

definition itv_total :: "interval \<Rightarrow> int" where
  "itv_total i = micros i + days i * MICROS_PER_DAY + months i * MICROS_PER_MONTH"

lemma itv_normalize_total:
  assumes "itv_normalize i = (m, d, u)"
  shows "u + d * MICROS_PER_DAY + m * MICROS_PER_MONTH = itv_total i"
    and "\<bar>u\<bar> < MICROS_PER_DAY" and "\<bar>d\<bar> < DAYS_PER_MONTH"
proof -
  let ?c = "micros i sdiv MICROS_PER_DAY"
  let ?e = "(days i + ?c) sdiv DAYS_PER_MONTH"
  have pos: "0 < MICROS_PER_DAY" "0 < DAYS_PER_MONTH"
    by (simp_all add: MICROS_PER_DAY_def DAYS_PER_MONTH_def)
  have u: "u = micros i - ?c * MICROS_PER_DAY" and d: "d = days i + ?c - ?e * DAYS_PER_MONTH"
    and m: "m = months i + ?e"
    using assms by (auto simp: itv_normalize_def Let_def)
  have "u = micros i smod MICROS_PER_DAY" "d = (days i + ?c) smod DAYS_PER_MONTH"
    by (simp_all add: u d minus_sdiv_mult_eq_smod)
  then show "\<bar>u\<bar> < MICROS_PER_DAY" "\<bar>d\<bar> < DAYS_PER_MONTH" using smod_abs_less pos by simp_all
  show "u + d * MICROS_PER_DAY + m * MICROS_PER_MONTH = itv_total i"
    by (simp add: u d m itv_total_def MICROS_PER_MONTH_def algebra_simps)
qed

lemma itv_eq_normal: "itv_eq l r \<longleftrightarrow> itv_normalize l = itv_normalize r"
proof -
  have "itv_normalize l = itv_normalize r"
    if "months l = months r" "days l = days r" "micros l = micros r"
    using that by (simp add: itv_normalize_def)
  then show ?thesis by (auto simp: itv_eq_def split: prod.splits)
qed

lemma date_plus_days:
  assumes "\<bar>n\<bar> \<le> 106751" and "- (2 ^ 31) \<le> n + k" and "n + k < 2 ^ 31"
  shows "date_plus (from_num_days n) \<lparr>months = 0, days = k, micros = 0\<rparr> = Some (from_num_days (n + k))"
proof -
  obtain y m d where d: "from_num_days n = mk_date y m d 0"
    "date_year (from_num_days n) = y" "date_month (from_num_days n) = m"
    "date_day (from_num_days n) = d"
    using assms(1) by (elim from_num_days_date) blast
  have new: "mk_date (date_year (from_num_days n)) (date_month (from_num_days n))
      (date_day (from_num_days n)) 0 = from_num_days n"
    by (simp only: d(2-4)) (simp only: d(1))
  have "swrap 32 (n + k) = n + k" using assms(2,3) by (intro swrap_id) simp_all
  then show ?thesis
    using assms num_days_roundtrip(1) [OF assms(1)]
    by (cases "k = 0") (auto simp: date_plus_def Let_def new)
qed

section \<open>Properties\<close>

text \<open>The date of day number \<open>n\<close>, at midnight.\<close>

definition is_day :: "int \<Rightarrow> date \<Rightarrow> bool" where
  "is_day n dt \<longleftrightarrow> valid_date (date_year dt) (date_month dt) (date_day dt) \<and>
     day_number (date_year dt) (date_month dt) (date_day dt) = n \<and> date_hour dt = 0"

text \<open>
  C23. The calendar conversion is right. In the build with \<^verbatim>\<open>ENABLE_CHRONO_YMD\<close>,
  \<^verbatim>\<open>from_num_days\<close> gives, for every day number within 106751 of 1970-01-01, a date at midnight
  whose month is 1 to 12, whose day is within the length of that month, and whose day number, counted with
  the leap-year rule and the table of cumulated month lengths, is the one it was given. The branch for
  other builds does so for every day number from 0001-01-01 to beyond the year 200000.
\<close>

theorem from_num_days_calendar:
  "(\<bar>n\<bar> \<le> 106751 \<longrightarrow> is_day n (from_num_days n)) \<and>
   (- 719162 \<le> n \<and> n \<le> 94000000 \<longrightarrow> is_day n (from_timestamp_fallback (n * 24 * 60 * 60 * 1000)))"
proof (intro conjI impI)
  show "is_day n (from_num_days n)" if "\<bar>n\<bar> \<le> 106751"
    using that by (rule from_num_days_date) (simp add: is_day_def)
  show "is_day n (from_timestamp_fallback (n * 24 * 60 * 60 * 1000))" if "- 719162 \<le> n \<and> n \<le> 94000000"
  proof -
    have e: "n * 24 * 60 * 60 * 1000 = n * 86400000" by simp
    show ?thesis unfolding e by (rule fallback_date [of n]) (use that in \<open>simp_all add: is_day_def\<close>)
  qed
qed

theorem from_num_days_calendar_witness:
  "is_day 20000 (from_num_days 20000) \<and> is_day 900000 (from_timestamp_fallback (900000 * 24 * 60 * 60 * 1000))"
  using from_num_days_calendar [of 20000] from_num_days_calendar [of 900000] by simp

text \<open>
  The two branches of \<^verbatim>\<open>from_timestamp\<close> agree on every timestamp whose seconds the 64-bit
  nanosecond clock can hold, the years 1677 to 2262.
\<close>

theorem from_timestamp_branches_agree:
  assumes "\<bar>ts\<bar> \<le> 9223372036999"
  shows "from_timestamp ts = from_timestamp_fallback ts"
  using assms by (rule from_timestamp_branches)

theorem from_timestamp_branches_agree_witness:
  "from_timestamp (- 1696118400001) = from_timestamp_fallback (- 1696118400001)"
  by (rule from_timestamp_branches_agree) simp

text \<open>
  C35. Adding an interval of \<open>k\<close> days to the date with day number \<open>n\<close> gives the date with day number
  \<open>n + k\<close>, and subtracting the interval from that gives the date back, as long as both day numbers are
  within 106751 of 1970-01-01, the range of the nanosecond clock.
\<close>

theorem date_plus_minus_days:
  assumes "\<bar>n\<bar> \<le> 106751" and "\<bar>n + k\<bar> \<le> 106751"
  shows "date_plus (from_num_days n) \<lparr>months = 0, days = k, micros = 0\<rparr> = Some (from_num_days (n + k)) \<and>
    date_minus_interval (from_num_days (n + k)) \<lparr>months = 0, days = k, micros = 0\<rparr>
      = Some (from_num_days n)"
  using date_plus_days [of n k] date_plus_days [of "n + k" "- k"] assms
  by (simp add: date_minus_interval_def itv_invert_def)

theorem date_plus_minus_days_witness:
  "date_plus (from_num_days 59) \<lparr>months = 0, days = 31, micros = 0\<rparr> = Some (from_num_days 90)"
  using date_plus_minus_days [of 59 31] by simp

text \<open>
  Adding months counts months and keeps the day within the month: the result is \<open>n\<close> months
  later, its month is 1 to 12, and its day is the old one or the last of the new month.
\<close>

theorem date_add_months_correct:
  assumes "1 \<le> date_month dt" and "date_month dt \<le> 12" and "date_add_months dt n = (y, m, d)"
  shows "y * 12 + m = date_year dt * 12 + date_month dt + n \<and> 1 \<le> m \<and> m \<le> 12 \<and>
    d = min (date_day dt) (month_day y m)"
proof -
  let ?q = "n sdiv 12"
  have r: "n - ?q * 12 = n smod 12" by (rule minus_sdiv_mult_eq_smod)
  have "\<bar>n smod 12\<bar> < 12" by (rule smod_abs_less) simp
  then have b: "- 12 < n - ?q * 12" "n - ?q * 12 < 12" unfolding r by auto
  show ?thesis
    using assms b unfolding date_add_months_def MONTHS_PER_YEAR_def Let_def
    by (auto split: if_splits)
qed

theorem date_add_months_correct_witness:
  "\<exists>y m d. date_add_months (from_num_days 0) 14 = (y, m, d) \<and> m \<le> 12 \<and>
     y * 12 + m = date_year (from_num_days 0) * 12 + date_month (from_num_days 0) + 14"
proof -
  obtain y m d where e: "date_add_months (from_num_days 0) 14 = (y, m, d)" by (metis prod_cases3)
  have "valid_date (date_year (from_num_days 0)) (date_month (from_num_days 0))
      (date_day (from_num_days 0))"
    using from_num_days_date [of 0] by simp metis
  then have "1 \<le> date_month (from_num_days 0)" "date_month (from_num_days 0) \<le> 12"
    by (simp_all add: valid_date_def)
  from date_add_months_correct [OF this e] e show ?thesis by blast
qed

text \<open>
  Interval comparison is a total order up to its equality, and equality only holds between
  intervals of the same length when a day is 24 hours and a month 30 days: of \<open>l < r\<close>, \<open>l == r\<close> and
  \<open>r < l\<close> exactly one holds.
\<close>

theorem itv_compare_total:
  "(itv_less l r \<longleftrightarrow> \<not> itv_eq l r \<and> \<not> itv_less r l) \<and> (itv_eq l r \<longrightarrow> itv_total l = itv_total r)"
proof -
  obtain a b c where l: "itv_normalize l = (a, b, c)" by (metis prod_cases3)
  obtain x y z where r: "itv_normalize r = (x, y, z)" by (metis prod_cases3)
  have "itv_eq l r \<longrightarrow> itv_total l = itv_total r"
    using itv_normalize_total(1) [OF l] itv_normalize_total(1) [OF r] l r
    by (auto simp: itv_eq_normal)
  moreover have "itv_less l r \<longleftrightarrow> \<not> itv_eq l r \<and> \<not> itv_less r l"
    by (auto simp: itv_less_def itv_greater_def itv_eq_normal l r)
  ultimately show ?thesis by blast
qed

theorem itv_compare_total_witness:
  "itv_total \<lparr>months = 1, days = 0, micros = 0\<rparr> = itv_total \<lparr>months = 0, days = 30, micros = 0\<rparr>"
proof -
  have "itv_eq \<lparr>months = 1, days = 0, micros = 0\<rparr> \<lparr>months = 0, days = 30, micros = 0\<rparr>"
    by (simp add: itv_eq_normal itv_normalize_def DAYS_PER_MONTH_def MICROS_PER_DAY_def
        signed_divide_int_def)
  then show ?thesis
    using itv_compare_total [of "\<lparr>months = 1, days = 0, micros = 0\<rparr>"
        "\<lparr>months = 0, days = 30, micros = 0\<rparr>"] by blast
qed

text \<open>
  Past the year 2262 the branch with \<^verbatim>\<open>ENABLE_CHRONO_YMD\<close> is wrong, because the time point counts
  nanoseconds in 64 bits: the day number of 2300-01-01 becomes a day in 1715, while the other branch
  gives the right date.
\<close>

theorem from_num_days_overflow:
  "from_num_days 120530 = mk_date 1715 6 13 0 \<and> is_day 120530 (from_timestamp_fallback (120530 * 24 * 60 * 60 * 1000))"
  by code_simp

text \<open>The conversion back overflows in the same way, in every build.\<close>

theorem to_num_days_overflow: "to_num_days (mk_date 2300 1 1 0) = - 92973"
proof -
  let ?d = "mk_date 2300 1 1 0"
  have f: "date_year ?d = 2300" "date_month ?d = 1" "date_day ?d = 1" "date_hour ?d = 0"
    by (simp_all add: mk_date_fields)
  have "to_days 2300 1 1 = 120530"
    by (simp add: to_days_def Let_def swrap_def signed_divide_int_def)
  then show ?thesis
    by (simp add: to_num_days_def to_timestamp_def Let_def f swrap_def signed_divide_int_def)
qed


end
