(* ===== verification/Property_Value.thy ===== *)
theory Property_Value
  imports Archive Temporal "HOL-Library.List_Lexorder"
begin

text \<open>
  Property values, \<^verbatim>\<open>utils/property/property.h\<close> and \<^verbatim>\<open>property.cc\<close>: the tagged union
  of the scalar types, its default values, its serialization and its comparison. Floating point
  values are their IEEE 754 bit patterns, compared as the machine does. An exception is \<open>None\<close>.

  The lemmas show that serialization is a codec, that every type with a default value has one of that
  type, and that the comparison is a strict order which agrees with equality except where equality
  itself is wrong: it is false on dates, times and intervals even for equal values.
\<close>

section \<open>Values\<close>

text \<open>The type tags of \<^verbatim>\<open>DataTypeId\<close> that a property can have.\<close>

abbreviation kBoolean :: "8 word" where "kBoolean \<equiv> 10"
abbreviation kInt32 :: "8 word" where "kInt32 \<equiv> 13"
abbreviation kInt64 :: "8 word" where "kInt64 \<equiv> 14"
abbreviation kDate :: "8 word" where "kDate \<equiv> 15"
abbreviation kTimestampMs :: "8 word" where "kTimestampMs \<equiv> 18"
abbreviation kFloat :: "8 word" where "kFloat \<equiv> 22"
abbreviation kDouble :: "8 word" where "kDouble \<equiv> 23"
abbreviation kVarchar :: "8 word" where "kVarchar \<equiv> 25"
abbreviation kInterval :: "8 word" where "kInterval \<equiv> 27"
abbreviation kUInt32 :: "8 word" where "kUInt32 \<equiv> 30"
abbreviation kUInt64 :: "8 word" where "kUInt64 \<equiv> 31"
abbreviation kEmpty :: "8 word" where "kEmpty \<equiv> 203"

datatype property_t =
    PEmpty
  | PBool bool
  | PInt32 "32 word"
  | PUInt32 "32 word"
  | PInt64 "64 word"
  | PUInt64 "64 word"
  | PFloat "32 word"
  | PDouble "64 word"
  | PVarchar bytes
  | PDate date
  | PDateTime "64 word"
  | PInterval "32 word" "32 word" "64 word"

text \<open>The tag that each setter stores with its value.\<close>

primrec prop_type :: "property_t \<Rightarrow> 8 word" where
  "prop_type PEmpty = kEmpty"
| "prop_type (PBool b) = kBoolean"
| "prop_type (PInt32 i) = kInt32"
| "prop_type (PUInt32 ui) = kUInt32"
| "prop_type (PInt64 l) = kInt64"
| "prop_type (PUInt64 ul) = kUInt64"
| "prop_type (PFloat f) = kFloat"
| "prop_type (PDouble db) = kDouble"
| "prop_type (PVarchar s) = kVarchar"
| "prop_type (PDate d) = kDate"
| "prop_type (PDateTime dt) = kTimestampMs"
| "prop_type (PInterval m d u) = kInterval"

definition itv_of :: "32 word \<Rightarrow> 32 word \<Rightarrow> 64 word \<Rightarrow> interval" where
  "itv_of m d u = \<lparr>months = sint m, days = sint d, micros = sint u\<rparr>"

definition get_default_value :: "8 word \<Rightarrow> property_t option" where
  "get_default_value type =
     (if type = kEmpty then Some PEmpty
      else if type = kBoolean then Some (PBool False)
      else if type = kInt32 then Some (PInt32 0)
      else if type = kUInt32 then Some (PUInt32 0)
      else if type = kInt64 then Some (PInt64 0)
      else if type = kUInt64 then Some (PUInt64 0)
      else if type = kFloat then Some (PFloat 0)
      else if type = kDouble then Some (PDouble 0)
      else if type = kVarchar then Some (PVarchar [])
      else if type = kDate then Some (PDate (from_num_days 0))
      else if type = kTimestampMs then Some (PDateTime 0)
      else if type = kInterval then Some (PInterval 0 0 0)
      else None)"

section \<open>Serialization\<close>

text \<open>A type tag takes four bytes; reading it keeps the lowest.\<close>

definition put_type :: "8 word \<Rightarrow> bytes" where
  "put_type t = put32 (ucast t)"

definition get_type :: "bytes \<Rightarrow> (8 word \<times> bytes) option" where
  "get_type bs = map_option (\<lambda>(t, r). (ucast t, r)) (get32 bs)"

definition put_interval :: "32 word \<Rightarrow> 32 word \<Rightarrow> 64 word \<Rightarrow> bytes" where
  "put_interval m d u = put32 m @ put32 d @ put64 u"

definition put_property :: "property_t \<Rightarrow> bytes" where
  "put_property value =
     put_type (prop_type value) @
     (case value of
        PEmpty \<Rightarrow> []
      | PBool b \<Rightarrow> put_bool b
      | PInt32 i \<Rightarrow> put32 i
      | PUInt32 ui \<Rightarrow> put32 ui
      | PInt64 l \<Rightarrow> put64 l
      | PUInt64 ul \<Rightarrow> put64 ul
      | PFloat f \<Rightarrow> put32 f
      | PDouble db \<Rightarrow> put64 db
      | PVarchar s \<Rightarrow> put_string s
      | PDate d \<Rightarrow> put32 d
      | PDateTime dt \<Rightarrow> put64 dt
      | PInterval m d u \<Rightarrow> put_interval m d u)"

text \<open>The value read into is an argument: reading an empty property leaves it as it was.\<close>

definition get_property_into :: "property_t \<Rightarrow> bytes \<Rightarrow> (property_t \<times> bytes) option" where
  "get_property_into value bs =
     do { (pt, r) \<leftarrow> get_type bs;
          if pt = kEmpty then Some (value, r)
          else if pt = kBoolean then do { (x, r) \<leftarrow> get_bool r; Some (PBool x, r) }
          else if pt = kInt32 then do { (x, r) \<leftarrow> get32 r; Some (PInt32 x, r) }
          else if pt = kUInt32 then do { (x, r) \<leftarrow> get32 r; Some (PUInt32 x, r) }
          else if pt = kFloat then do { (x, r) \<leftarrow> get32 r; Some (PFloat x, r) }
          else if pt = kInt64 then do { (x, r) \<leftarrow> get64 r; Some (PInt64 x, r) }
          else if pt = kUInt64 then do { (x, r) \<leftarrow> get64 r; Some (PUInt64 x, r) }
          else if pt = kDouble then do { (x, r) \<leftarrow> get64 r; Some (PDouble x, r) }
          else if pt = kVarchar then do { (x, r) \<leftarrow> get_string r; Some (PVarchar x, r) }
          else if pt = kDate then do { (x, r) \<leftarrow> get32 r; Some (PDate x, r) }
          else if pt = kTimestampMs then do { (x, r) \<leftarrow> get64 r; Some (PDateTime x, r) }
          else if pt = kInterval then
            do { (m, r) \<leftarrow> get32 r; (d, r) \<leftarrow> get32 r; (u, r) \<leftarrow> get64 r; Some (PInterval m d u, r) }
          else None }"

text \<open>Every caller but one reads into a new, empty property.\<close>

abbreviation get_property :: "bytes \<Rightarrow> (property_t \<times> bytes) option" where
  "get_property \<equiv> get_property_into PEmpty"

section \<open>Comparison\<close>

text \<open>
  IEEE 754 comparison of bit patterns: sign and magnitude, with both zeros equal and a NaN equal to
  nothing and in no order. \<open>k\<close> is the number of mantissa bits.
\<close>

definition ieee_nan :: "nat \<Rightarrow> 'a::len word \<Rightarrow> bool" where
  "ieee_nan k w \<longleftrightarrow>
     (let e = take_bit (LENGTH('a) - 1 - k) (drop_bit k (uint w)); m = take_bit k (uint w)
      in e = 2 ^ (LENGTH('a) - 1 - k) - 1 \<and> m \<noteq> 0)"

definition ieee_key :: "'a::len word \<Rightarrow> int" where
  "ieee_key w =
     (let mag = take_bit (LENGTH('a) - 1) (uint w)
      in if bit w (LENGTH('a) - 1) then - mag else mag)"

definition ieee_eq :: "nat \<Rightarrow> 'a::len word \<Rightarrow> 'a word \<Rightarrow> bool" where
  "ieee_eq k a b \<longleftrightarrow> \<not> ieee_nan k a \<and> \<not> ieee_nan k b \<and> ieee_key a = ieee_key b"

definition ieee_lt :: "nat \<Rightarrow> 'a::len word \<Rightarrow> 'a word \<Rightarrow> bool" where
  "ieee_lt k a b \<longleftrightarrow> \<not> ieee_nan k a \<and> \<not> ieee_nan k b \<and> ieee_key a < ieee_key b"

definition prop_eq :: "property_t \<Rightarrow> property_t \<Rightarrow> bool" where
  "prop_eq self other \<longleftrightarrow>
     prop_type self = prop_type other \<and>
     (case (self, other) of
        (PInt32 a, PInt32 b) \<Rightarrow> a = b
      | (PUInt32 a, PUInt32 b) \<Rightarrow> a = b
      | (PVarchar a, PVarchar b) \<Rightarrow> a = b
      | (PEmpty, PEmpty) \<Rightarrow> True
      | (PDouble a, PDouble b) \<Rightarrow> ieee_eq 52 a b
      | (PInt64 a, PInt64 b) \<Rightarrow> a = b
      | (PUInt64 a, PUInt64 b) \<Rightarrow> a = b
      | (PBool a, PBool b) \<Rightarrow> a = b
      | (PFloat a, PFloat b) \<Rightarrow> ieee_eq 23 a b
      | _ \<Rightarrow> False)"

text \<open>Strings compare as sequences of unsigned bytes.\<close>

fun bytes_lt :: "bytes \<Rightarrow> bytes \<Rightarrow> bool" where
  "bytes_lt _ [] = False"
| "bytes_lt [] (b # bs) = True"
| "bytes_lt (a # as) (b # bs) = (a < b \<or> a = b \<and> bytes_lt as bs)"

definition prop_lt :: "property_t \<Rightarrow> property_t \<Rightarrow> bool" where
  "prop_lt self other \<longleftrightarrow>
     (case (self, other) of
        (PInt32 a, PInt32 b) \<Rightarrow> a <s b
      | (PInt64 a, PInt64 b) \<Rightarrow> a <s b
      | (PVarchar a, PVarchar b) \<Rightarrow> bytes_lt a b
      | (PEmpty, PEmpty) \<Rightarrow> False
      | (PDouble a, PDouble b) \<Rightarrow> ieee_lt 52 a b
      | (PUInt32 a, PUInt32 b) \<Rightarrow> a < b
      | (PUInt64 a, PUInt64 b) \<Rightarrow> a < b
      | (PBool a, PBool b) \<Rightarrow> \<not> a \<and> b
      | (PFloat a, PFloat b) \<Rightarrow> ieee_lt 23 a b
      | (PDate a, PDate b) \<Rightarrow> a < b
      | (PDateTime a, PDateTime b) \<Rightarrow> a <s b
      | (PInterval a b c, PInterval x y z) \<Rightarrow> itv_less (itv_of a b c) (itv_of x y z)
      | _ \<Rightarrow> prop_type self < prop_type other)"

section \<open>Serialization is a codec\<close>

text \<open>A value that the archive can hold: the size of a string fits in a \<^verbatim>\<open>size_t\<close>.\<close>

definition prop_small :: "property_t \<Rightarrow> bool" where
  "prop_small p \<longleftrightarrow> (case p of PVarchar s \<Rightarrow> small s | _ \<Rightarrow> True)"

lemma get_type_put [codec_simps]: "get_type (put_type t @ r) = Some (t, r)"
proof -
  have "ucast (ucast t :: 32 word) = t"
    by (rule bit_word_eqI) (simp add: bit_ucast_iff)
  then show ?thesis by (simp add: get_type_def put_type_def codec_simps)
qed

lemma get_property_put:
  assumes "prop_small p"
  shows "get_property_into v (put_property p @ r) = Some (if p = PEmpty then v else p, r)"
  using assms
  by (cases p) (simp_all add: put_property_def get_property_into_def codec_simps prop_small_def
      put_interval_def)

interpretation cproperty: codec put_property get_property prop_small
  by unfold_locales (simp add: get_property_put)

interpretation ctype: codec put_type get_type "\<lambda>_. True"
  by unfold_locales (simp add: get_type_put)

declare cproperty.get_put [codec_simps]

section \<open>The comparison as an order of keys\<close>

text \<open>A value that is in no order with values of its type.\<close>

definition prop_nan :: "property_t \<Rightarrow> bool" where
  "prop_nan p \<longleftrightarrow> (case p of PFloat a \<Rightarrow> ieee_nan 23 a | PDouble a \<Rightarrow> ieee_nan 52 a | _ \<Rightarrow> False)"

definition itv_key :: "interval \<Rightarrow> int list" where
  "itv_key i = (case itv_normalize i of (m, d, u) \<Rightarrow> [m, d, u])"

primrec prop_key :: "property_t \<Rightarrow> int list" where
  "prop_key PEmpty = []"
| "prop_key (PBool b) = [of_bool b]"
| "prop_key (PInt32 i) = [sint i]"
| "prop_key (PUInt32 i) = [uint i]"
| "prop_key (PInt64 i) = [sint i]"
| "prop_key (PUInt64 i) = [uint i]"
| "prop_key (PFloat i) = [ieee_key i]"
| "prop_key (PDouble i) = [ieee_key i]"
| "prop_key (PVarchar s) = map uint s"
| "prop_key (PDate i) = [uint i]"
| "prop_key (PDateTime i) = [sint i]"
| "prop_key (PInterval m d u) = itv_key (itv_of m d u)"

lemma bytes_lt_key: "bytes_lt a b \<longleftrightarrow> map uint a < map uint b"
  by (induction a b rule: bytes_lt.induct) (auto simp: word_less_def word_uint_eq_iff)

lemma itv_less_key: "itv_less a b \<longleftrightarrow> itv_key a < itv_key b"
  by (auto simp: itv_key_def itv_less_def itv_greater_def split: prod.splits)

lemma prop_lt_key:
  "prop_lt a b \<longleftrightarrow>
     (if prop_type a = prop_type b then \<not> prop_nan a \<and> \<not> prop_nan b \<and> prop_key a < prop_key b
      else prop_type a < prop_type b)"
  by (cases a; cases b)
    (auto simp: prop_lt_def prop_nan_def ieee_lt_def word_less_def word_sless_alt bytes_lt_key itv_less_key)

text \<open>The types on which equality compares values.\<close>

definition eq_supported :: "property_t \<Rightarrow> bool" where
  "eq_supported p \<longleftrightarrow> prop_type p \<notin> {kDate, kTimestampMs, kInterval}"

lemma uint_bytes_inj: "map uint (a :: bytes) = map uint b \<longleftrightarrow> a = b"
  by (rule inj_map_eq_map) (simp add: inj_on_def word_uint_eq_iff)

lemma prop_eq_key:
  "eq_supported a \<Longrightarrow> prop_eq a b \<longleftrightarrow>
     prop_type a = prop_type b \<and> \<not> prop_nan a \<and> \<not> prop_nan b \<and> prop_key a = prop_key b"
  by (cases a; cases b)
    (auto simp: prop_eq_def prop_nan_def ieee_eq_def eq_supported_def uint_bytes_inj signed_word_eqI
      word_uint_eqI)

section \<open>Properties\<close>

text \<open>
  C40. Every property type either has a default value, of that type, or is one of those on which
  \<^verbatim>\<open>get_default_value\<close> throws; it has one exactly for the types that a property can have.
\<close>

theorem get_default_value_type:
  "(\<forall>t p. get_default_value t = Some p \<longrightarrow> prop_type p = t) \<and>
   (\<forall>p. get_default_value (prop_type p) \<noteq> None)"
proof (intro conjI allI impI)
  fix t p assume "get_default_value t = Some p"
  then show "prop_type p = t" by (auto simp: get_default_value_def split: if_splits)
next
  fix p show "get_default_value (prop_type p) \<noteq> None"
    by (cases p) (simp_all add: get_default_value_def)
qed

theorem get_default_value_type_witness:
  "get_default_value kVarchar = Some (PVarchar []) \<and> prop_type (PVarchar []) = kVarchar"
  using get_default_value_type by (simp add: get_default_value_def)

text \<open>
  C37. The order of property values, by which sort and index compare them, is a strict order, and of
  two values that are not NaN and whose type equality supports, exactly one of less, equal and
  greater holds.
\<close>

theorem prop_lt_order:
  "\<not> prop_lt a a \<and> (prop_lt a b \<and> prop_lt b c \<longrightarrow> prop_lt a c) \<and>
   (eq_supported a \<and> \<not> prop_nan a \<and> \<not> prop_nan b \<longrightarrow>
     (prop_lt a b \<longleftrightarrow> \<not> prop_eq a b \<and> \<not> prop_lt b a))"
proof (intro conjI impI)
  show "\<not> prop_lt a a" by (simp add: prop_lt_key)
  show "prop_lt a c" if "prop_lt a b \<and> prop_lt b c"
    using that by (auto simp: prop_lt_key split: if_splits)
  show "prop_lt a b \<longleftrightarrow> \<not> prop_eq a b \<and> \<not> prop_lt b a"
    if "eq_supported a \<and> \<not> prop_nan a \<and> \<not> prop_nan b"
    using that by (auto simp: prop_lt_key prop_eq_key)
qed

theorem prop_lt_order_witness:
  "prop_lt (PInt32 (- 1)) (PInt32 0) \<and> prop_lt (PInt32 0) (PVarchar []) \<and>
   prop_lt (PInt32 (- 1)) (PVarchar [])"
proof -
  have "prop_lt (PInt32 (- 1)) (PInt32 0)" "prop_lt (PInt32 0) (PVarchar [])"
    by (simp_all add: prop_lt_def word_sless_alt)
  then show ?thesis using prop_lt_order [of "PInt32 (- 1)" "PInt32 0" "PVarchar []"] by blast
qed

text \<open>
  Equality is not reflexive: a date, a time and an interval are not equal to themselves, although
  nothing is less than itself.
\<close>

theorem prop_eq_not_reflexive:
  "\<not> prop_eq (PDate d) (PDate d) \<and> \<not> prop_eq (PDateTime t) (PDateTime t) \<and>
   \<not> prop_eq (PInterval x y z) (PInterval x y z) \<and> \<not> prop_lt (PDate d) (PDate d)"
  by (simp add: prop_eq_def prop_lt_def)

end
