(* ===== verification/Data_Type.thy ===== *)
theory Data_Type
  imports Property_Value
begin

text \<open>
  Data types of columns, \<^verbatim>\<open>common/types.h\<close>, and their serialization in
  \<^verbatim>\<open>storages/graph/schema.cc\<close>. A type is a tag with optional extra information: the child
  type of a list, the child types of a struct, the maximal length of a string. Reading is recursive;
  the model bounds the recursion by fuel. The lemmas show that the number of bytes is always enough
  fuel, because every nested type takes at least five bytes (in the model, which fails at the end of the buffer
  where \<^verbatim>\<open>OutArchive::GetBytes\<close> has no check), and that reading inverts writing.
\<close>

abbreviation kStruct :: "8 word" where "kStruct \<equiv> 100"
abbreviation kList :: "8 word" where "kList \<equiv> 101"

datatype data_type =
    Plain "8 word"
  | DList data_type
  | DStruct "data_type list"
  | DVarchar "64 word"

primrec dt_id :: "data_type \<Rightarrow> 8 word" where
  "dt_id (Plain t) = t"
| "dt_id (DList c) = kList"
| "dt_id (DStruct cs) = kStruct"
| "dt_id (DVarchar n) = kVarchar"

primrec put_data_type :: "data_type \<Rightarrow> bytes" where
  "put_data_type (Plain t) = put_type t @ put8 0"
| "put_data_type (DList c) = put_type kList @ put8 1 @ put_data_type c"
| "put_data_type (DStruct cs) =
     put_type kStruct @ put8 1 @ put64 (of_nat (length cs)) @ concat (map put_data_type cs)"
| "put_data_type (DVarchar n) = put_type kVarchar @ put8 1 @ put64 n"

fun get_data_type_fuel :: "nat \<Rightarrow> bytes \<Rightarrow> (data_type \<times> bytes) option" where
  "get_data_type_fuel 0 bs = None"
| "get_data_type_fuel (Suc k) bs =
     do { (id, r) \<leftarrow> get_type bs;
          (has_extra_type_info, r) \<leftarrow> get8 r;
          if has_extra_type_info \<noteq> 0 then
            if id = kList then do { (c, r) \<leftarrow> get_data_type_fuel k r; Some (DList c, r) }
            else if id = kStruct then
              do { (n, r) \<leftarrow> get64 r;
                   (cs, r) \<leftarrow> get_items (get_data_type_fuel k) (unat n) r;
                   Some (DStruct cs, r) }
            else if id = kVarchar then do { (n, r) \<leftarrow> get64 r; Some (DVarchar n, r) }
            else None
          else Some (Plain id, r) }"

definition get_data_type :: "bytes \<Rightarrow> (data_type \<times> bytes) option" where
  "get_data_type bs = get_data_type_fuel (Suc (length bs)) bs"

section \<open>Reading consumes bytes\<close>

lemma get_word_length: "get_word n bs = Some (w, r) \<Longrightarrow> length bs = n + length r"
  by (auto simp: get_word_def get_bytes_def split: if_splits)

lemma get_type_length: "get_type bs = Some (t, r) \<Longrightarrow> length bs = 4 + length r"
  by (auto simp: get_type_def dest: get_word_length)

lemma get8_length: "get8 bs = Some (t, r) \<Longrightarrow> length bs = 1 + length r"
  by (auto simp: get8_def split: list.splits)

lemmas get_lengths = get_word_length get_type_length get8_length

lemma get_items_length:
  assumes "\<And>bs x r. length bs \<le> m \<Longrightarrow> g bs = Some (x, r) \<Longrightarrow> length r \<le> length bs"
    and "length bs \<le> m" and "get_items g n bs = Some (xs, r)"
  shows "length r \<le> length bs"
  using assms(2,3)
proof (induction n arbitrary: bs xs)
  case (Suc n)
  then obtain x r1 ys where "g bs = Some (x, r1)" "get_items g n r1 = Some (ys, r)"
    by (auto split: Option.bind_splits)
  moreover from this have "length r1 \<le> length bs" using assms(1) Suc.prems(1) by blast
  ultimately show ?case using Suc.IH [of r1 ys] Suc.prems(1) by simp
qed simp

lemma get_items_cong:
  assumes "\<And>bs. length bs \<le> m \<Longrightarrow> g bs = h bs"
    and "\<And>bs x r. length bs \<le> m \<Longrightarrow> g bs = Some (x, r) \<Longrightarrow> length r \<le> length bs"
    and "length bs \<le> m"
  shows "get_items g n bs = get_items h n bs"
  using assms(3)
proof (induction n arbitrary: bs)
  case (Suc n)
  have "get_items g n r = get_items h n r" if "g bs = Some (x, r)" for x r
    using assms(2) [OF Suc.prems that] Suc.prems Suc.IH by simp
  then show ?case using assms(1) [OF Suc.prems] by (auto split: Option.bind_splits)
qed simp

lemma get_data_type_fuel_length:
  "get_data_type_fuel k bs = Some (t, r) \<Longrightarrow> length r < length bs"
proof (induction k arbitrary: bs t r)
  case (Suc k)
  have items: "get_items (get_data_type_fuel k) n r1 = Some (cs, r2) \<Longrightarrow> length r2 \<le> length r1"
    for n r1 cs r2
    by (rule get_items_length [of "length r1" "get_data_type_fuel k"])
      (auto dest: Suc.IH less_imp_le)
  from Suc.prems show ?case
    by (auto split: Option.bind_splits if_splits dest!: get_lengths items Suc.IH)
qed simp

lemma get_data_type_fuel_enough:
  "length bs < k \<Longrightarrow> length bs < l \<Longrightarrow> get_data_type_fuel k bs = get_data_type_fuel l bs"
proof (induction k arbitrary: bs l)
  case (Suc k)
  then obtain j where l: "l = Suc j" by (cases l) auto
  have IH: "get_data_type_fuel k r = get_data_type_fuel j r" if "length r < length bs" for r
    using that Suc.prems l by (intro Suc.IH) simp_all
  have items: "get_items (get_data_type_fuel k) n r = get_items (get_data_type_fuel j) n r"
    if "length r < length bs" for n r
    by (rule get_items_cong [of "length r"])
      (use that in \<open>auto intro: IH dest: get_data_type_fuel_length\<close>)
  have less: "length r2 < length bs" if "get_type bs = Some (t, r1)" "get8 r1 = Some (h, r2)"
    for t r1 h r2
    using that by (auto dest!: get_lengths)
  have less64: "length r3 < length bs"
    if "get_type bs = Some (t, r1)" "get8 r1 = Some (h, r2)" "get64 r2 = Some (n, r3)"
    for t r1 h r2 n r3
    using that by (auto dest!: get_lengths)
  show ?case unfolding l
    by (auto simp: IH [OF less] items [OF less64] split: Option.bind_splits)
qed simp

section \<open>Reading inverts writing\<close>

primrec dt_small :: "data_type \<Rightarrow> bool" where
  "dt_small (Plain t) = True"
| "dt_small (DList c) = dt_small c"
| "dt_small (DStruct cs) = (small cs \<and> list_all id (map dt_small cs))"
| "dt_small (DVarchar n) = True"

lemma get_items_struct:
  assumes "\<And>c r. c \<in> set cs \<Longrightarrow> length (put_data_type c @ r) < k \<Longrightarrow>
      get_data_type_fuel k (put_data_type c @ r) = Some (c, r)"
    and "length (concat (map put_data_type cs) @ r) < k"
  shows "get_items (get_data_type_fuel k) (length cs) (concat (map put_data_type cs) @ r)
    = Some (cs, r)"
  using assms by (induction cs) simp_all

lemma get_data_type_fuel_put:
  "dt_small t \<Longrightarrow> length (put_data_type t @ r) < k \<Longrightarrow>
     get_data_type_fuel k (put_data_type t @ r) = Some (t, r)"
proof (induction t arbitrary: k r)
  case (Plain t)
  then obtain j where "k = Suc j" by (cases k) auto
  then show ?case by (simp add: codec_simps)
next
  case (DList c)
  then obtain j where k: "k = Suc j" by (cases k) auto
  then have "get_data_type_fuel j (put_data_type c @ r) = Some (c, r)"
    using DList by (simp add: put_type_def)
  then show ?case using k by (simp add: codec_simps)
next
  case (DStruct cs)
  then obtain j where k: "k = Suc j" by (cases k) auto
  have "get_items (get_data_type_fuel j) (length cs) (concat (map put_data_type cs) @ r)
      = Some (cs, r)"
    using DStruct k by (intro get_items_struct) (auto simp: put_type_def list_all_iff)
  then show ?case using k DStruct.prems by (simp add: codec_simps small_unat)
next
  case (DVarchar n)
  then obtain j where "k = Suc j" by (cases k) auto
  then show ?case by (simp add: codec_simps)
qed

interpretation cdata_type: codec put_data_type get_data_type dt_small
  unfolding get_data_type_def by unfold_locales (rule get_data_type_fuel_put, simp_all)

declare cdata_type.get_put [codec_simps]

end
