(* ===== verification/Wal_Redo.thy ===== *)
theory Wal_Redo
  imports Data_Type
begin

text \<open>
  Redo records of the write-ahead log, \<^verbatim>\<open>transaction/wal/wal.h\<close> and \<^verbatim>\<open>wal.cc\<close>: one
  constructor per record struct, one \<open>ser_\<close> definition per \<^verbatim>\<open>Serialize\<close> and one \<open>des_\<close>
  definition per \<^verbatim>\<open>Deserialize\<close>. A record starts with the byte of its operation, which
  \<^verbatim>\<open>IngestWal\<close> reads before it calls \<^verbatim>\<open>Deserialize\<close>. Counts are 32 bits wide, so a
  count of 2^32 or more is written modulo 2^32.

  The lemmas show that a log of valid records is read back record by record, and that no two
  different logs have the same bytes.
\<close>

type_synonym prop_def = "data_type \<times> bytes \<times> property_t"

definition put_list :: "('a \<Rightarrow> bytes) \<Rightarrow> 'a list \<Rightarrow> bytes" where
  "put_list put xs = put32 (of_nat (length xs)) @ concat (map put xs)"

definition get_list :: "(bytes \<Rightarrow> ('a \<times> bytes) option) \<Rightarrow> bytes \<Rightarrow> ('a list \<times> bytes) option" where
  "get_list get bs = do { (prop_size, r) \<leftarrow> get32 bs; get_items get (unat prop_size) r }"

definition put_prop_def :: "prop_def \<Rightarrow> bytes" where
  "put_prop_def = put_pair put_data_type (put_pair put_string put_property)"

definition get_prop_def :: "bytes \<Rightarrow> (prop_def \<times> bytes) option" where
  "get_prop_def = get_pair get_data_type (get_pair get_string get_property)"

section \<open>Records\<close>

datatype redo =
    CreateVertexType bytes "prop_def list" "bytes list"
  | CreateEdgeType bytes bytes bytes "prop_def list" "32 word" "32 word"
  | AddVertexProperties bytes "prop_def list"
  | AddEdgeProperties bytes bytes bytes "prop_def list"
  | RenameVertexProperties bytes "(bytes \<times> bytes) list"
  | RenameEdgeProperties bytes bytes bytes "(bytes \<times> bytes) list"
  | DeleteVertexProperties bytes "bytes list"
  | DeleteEdgeProperties bytes bytes bytes "bytes list"
  | DeleteVertexType bytes
  | DeleteEdgeType bytes bytes bytes
  | InsertVertex "8 word" property_t "property_t list"
  | InsertEdge "8 word" property_t "8 word" property_t "8 word" "property_t list"
  | UpdateVertexProp "8 word" property_t "32 word" property_t
  | UpdateEdgeProp "8 word" property_t "8 word" property_t "8 word" "32 word" "32 word" "32 word" property_t
  | RemoveVertex "8 word" property_t
  | RemoveEdge "8 word" property_t "8 word" property_t "8 word" "32 word" "32 word"

text \<open>The operation codes of \<^verbatim>\<open>OpType\<close>.\<close>

primrec op_type :: "redo \<Rightarrow> 8 word" where
  "op_type (CreateVertexType _ _ _) = 0"
| "op_type (CreateEdgeType _ _ _ _ _ _) = 1"
| "op_type (AddVertexProperties _ _) = 8"
| "op_type (AddEdgeProperties _ _ _ _) = 9"
| "op_type (RenameVertexProperties _ _) = 10"
| "op_type (RenameEdgeProperties _ _ _ _) = 11"
| "op_type (DeleteVertexProperties _ _) = 12"
| "op_type (DeleteEdgeProperties _ _ _ _) = 13"
| "op_type (DeleteVertexType _) = 14"
| "op_type (DeleteEdgeType _ _ _) = 15"
| "op_type (InsertVertex _ _ _) = 2"
| "op_type (InsertEdge _ _ _ _ _ _) = 3"
| "op_type (UpdateVertexProp _ _ _ _) = 4"
| "op_type (UpdateEdgeProp _ _ _ _ _ _ _ _ _) = 5"
| "op_type (RemoveVertex _ _) = 6"
| "op_type (RemoveEdge _ _ _ _ _ _ _) = 7"

section \<open>Writing\<close>

definition ser_CreateVertexType :: "bytes \<Rightarrow> prop_def list \<Rightarrow>
    bytes list \<Rightarrow> bytes" where
  "ser_CreateVertexType vertex_type properties primary_key_names =
     put8 0 @ put_string vertex_type @ put_list put_prop_def properties @
     put_list put_string primary_key_names"

definition ser_CreateEdgeType :: "bytes \<Rightarrow> bytes \<Rightarrow> bytes \<Rightarrow>
    prop_def list \<Rightarrow> 32 word \<Rightarrow> 32 word \<Rightarrow> bytes" where
  "ser_CreateEdgeType src_type dst_type edge_type properties oe_edge_strategy ie_edge_strategy =
     put8 1 @ put_string src_type @ put_string dst_type @ put_string edge_type @
     put_list put_prop_def properties @ put32 oe_edge_strategy @ put32 ie_edge_strategy"

definition ser_AddVertexProperties :: "bytes \<Rightarrow> prop_def list \<Rightarrow> bytes" where
  "ser_AddVertexProperties vertex_type properties =
     put8 8 @ put_string vertex_type @ put_list put_prop_def properties"

definition ser_AddEdgeProperties :: "bytes \<Rightarrow> bytes \<Rightarrow> bytes \<Rightarrow>
    prop_def list \<Rightarrow> bytes" where
  "ser_AddEdgeProperties src_type dst_type edge_type properties =
     put8 9 @ put_string src_type @ put_string dst_type @ put_string edge_type @
     put_list put_prop_def properties"

definition ser_RenameVertexProperties :: "bytes \<Rightarrow>
    (bytes \<times> bytes) list \<Rightarrow> bytes" where
  "ser_RenameVertexProperties vertex_type update_properties =
     put8 10 @ put_string vertex_type @
     put_list (put_pair put_string put_string) update_properties"

definition ser_RenameEdgeProperties :: "bytes \<Rightarrow> bytes \<Rightarrow>
    bytes \<Rightarrow> (bytes \<times> bytes) list \<Rightarrow> bytes" where
  "ser_RenameEdgeProperties src_type dst_type edge_type update_properties =
     put8 11 @ put_string src_type @ put_string dst_type @ put_string edge_type @
     put_list (put_pair put_string put_string) update_properties"

definition ser_DeleteVertexProperties :: "bytes \<Rightarrow> bytes list \<Rightarrow> bytes" where
  "ser_DeleteVertexProperties vertex_type delete_properties =
     put8 12 @ put_string vertex_type @ put_list put_string delete_properties"

definition ser_DeleteEdgeProperties :: "bytes \<Rightarrow> bytes \<Rightarrow>
    bytes \<Rightarrow> bytes list \<Rightarrow> bytes" where
  "ser_DeleteEdgeProperties src_type dst_type edge_type delete_properties =
     put8 13 @ put_string src_type @ put_string dst_type @ put_string edge_type @
     put_list put_string delete_properties"

definition ser_DeleteVertexType :: "bytes \<Rightarrow> bytes" where
  "ser_DeleteVertexType vertex_type =
     put8 14 @ put_string vertex_type"

definition ser_DeleteEdgeType :: "bytes \<Rightarrow> bytes \<Rightarrow> bytes \<Rightarrow>
    bytes" where
  "ser_DeleteEdgeType src_type dst_type edge_type =
     put8 15 @ put_string src_type @ put_string dst_type @ put_string edge_type"

definition ser_InsertVertex :: "8 word \<Rightarrow> property_t \<Rightarrow>
    property_t list \<Rightarrow> bytes" where
  "ser_InsertVertex label oid props =
     put8 2 @ put8 label @ put_property oid @ put_list put_property props"

definition ser_InsertEdge :: "8 word \<Rightarrow> property_t \<Rightarrow> 8 word \<Rightarrow>
    property_t \<Rightarrow> 8 word \<Rightarrow> property_t list \<Rightarrow> bytes" where
  "ser_InsertEdge src_label src dst_label dst edge_label properties =
     put8 3 @ put8 src_label @ put_property src @ put8 dst_label @ put_property dst @
     put8 edge_label @ put_list put_property properties"

definition ser_UpdateVertexProp :: "8 word \<Rightarrow> property_t \<Rightarrow>
    32 word \<Rightarrow> property_t \<Rightarrow> bytes" where
  "ser_UpdateVertexProp label oid prop_id value =
     put8 4 @ put8 label @ put_property oid @ put32 prop_id @ put_property value"

definition ser_UpdateEdgeProp :: "8 word \<Rightarrow> property_t \<Rightarrow>
    8 word \<Rightarrow> property_t \<Rightarrow> 8 word \<Rightarrow> 32 word \<Rightarrow> 32 word \<Rightarrow> 32 word \<Rightarrow> property_t \<Rightarrow> bytes" where
  "ser_UpdateEdgeProp src_label src dst_label dst edge_label oe_offset ie_offset prop_id value =
     put8 5 @ put8 src_label @ put_property src @ put8 dst_label @ put_property dst @
     put8 edge_label @ put32 oe_offset @ put32 ie_offset @ put32 prop_id @ put_property value"

definition ser_RemoveVertex :: "8 word \<Rightarrow> property_t \<Rightarrow> bytes" where
  "ser_RemoveVertex label oid =
     put8 6 @ put8 label @ put_property oid"

definition ser_RemoveEdge :: "8 word \<Rightarrow> property_t \<Rightarrow> 8 word \<Rightarrow>
    property_t \<Rightarrow> 8 word \<Rightarrow> 32 word \<Rightarrow> 32 word \<Rightarrow> bytes" where
  "ser_RemoveEdge src_label src dst_label dst edge_label oe_offset ie_offset =
     put8 7 @ put8 src_label @ put_property src @ put8 dst_label @ put_property dst @
     put8 edge_label @ put32 oe_offset @ put32 ie_offset"

primrec put_redo :: "redo \<Rightarrow> bytes" where
  "put_redo (CreateVertexType a b c) = ser_CreateVertexType a b c"
| "put_redo (CreateEdgeType a b c d e f) = ser_CreateEdgeType a b c d e f"
| "put_redo (AddVertexProperties a b) = ser_AddVertexProperties a b"
| "put_redo (AddEdgeProperties a b c d) = ser_AddEdgeProperties a b c d"
| "put_redo (RenameVertexProperties a b) = ser_RenameVertexProperties a b"
| "put_redo (RenameEdgeProperties a b c d) = ser_RenameEdgeProperties a b c d"
| "put_redo (DeleteVertexProperties a b) = ser_DeleteVertexProperties a b"
| "put_redo (DeleteEdgeProperties a b c d) = ser_DeleteEdgeProperties a b c d"
| "put_redo (DeleteVertexType a) = ser_DeleteVertexType a"
| "put_redo (DeleteEdgeType a b c) = ser_DeleteEdgeType a b c"
| "put_redo (InsertVertex a b c) = ser_InsertVertex a b c"
| "put_redo (InsertEdge a b c d e f) = ser_InsertEdge a b c d e f"
| "put_redo (UpdateVertexProp a b c d) = ser_UpdateVertexProp a b c d"
| "put_redo (UpdateEdgeProp a b c d e f g h i) = ser_UpdateEdgeProp a b c d e f g h i"
| "put_redo (RemoveVertex a b) = ser_RemoveVertex a b"
| "put_redo (RemoveEdge a b c d e f g) = ser_RemoveEdge a b c d e f g"

section \<open>Reading\<close>

definition des_CreateVertexType :: "bytes \<Rightarrow> (redo \<times> bytes) option" where
  "des_CreateVertexType bs =
     do { (vertex_type, r) \<leftarrow> get_string bs;
          (properties, r) \<leftarrow> get_list get_prop_def r;
          (primary_key_names, r) \<leftarrow> get_list get_string r;
          Some (CreateVertexType vertex_type properties primary_key_names, r) }"

definition des_CreateEdgeType :: "bytes \<Rightarrow> (redo \<times> bytes) option" where
  "des_CreateEdgeType bs =
     do { (src_type, r) \<leftarrow> get_string bs; (dst_type, r) \<leftarrow> get_string r;
          (edge_type, r) \<leftarrow> get_string r;
          (properties, r) \<leftarrow> get_list get_prop_def r;
          (oe_edge_strategy, r) \<leftarrow> get32 r; (ie_edge_strategy, r) \<leftarrow> get32 r;
          Some (CreateEdgeType src_type dst_type edge_type properties oe_edge_strategy ie_edge_strategy, r) }"

definition des_AddVertexProperties :: "bytes \<Rightarrow> (redo \<times> bytes) option" where
  "des_AddVertexProperties bs =
     do { (vertex_type, r) \<leftarrow> get_string bs;
          (properties, r) \<leftarrow> get_list get_prop_def r;
          Some (AddVertexProperties vertex_type properties, r) }"

definition des_AddEdgeProperties :: "bytes \<Rightarrow> (redo \<times> bytes) option" where
  "des_AddEdgeProperties bs =
     do { (src_type, r) \<leftarrow> get_string bs; (dst_type, r) \<leftarrow> get_string r;
          (edge_type, r) \<leftarrow> get_string r;
          (properties, r) \<leftarrow> get_list get_prop_def r;
          Some (AddEdgeProperties src_type dst_type edge_type properties, r) }"

definition des_RenameVertexProperties :: "bytes \<Rightarrow> (redo \<times> bytes) option" where
  "des_RenameVertexProperties bs =
     do { (vertex_type, r) \<leftarrow> get_string bs;
          (update_properties, r) \<leftarrow> get_list (get_pair get_string get_string) r;
          Some (RenameVertexProperties vertex_type update_properties, r) }"

definition des_RenameEdgeProperties :: "bytes \<Rightarrow> (redo \<times> bytes) option" where
  "des_RenameEdgeProperties bs =
     do { (src_type, r) \<leftarrow> get_string bs; (dst_type, r) \<leftarrow> get_string r;
          (edge_type, r) \<leftarrow> get_string r;
          (update_properties, r) \<leftarrow> get_list (get_pair get_string get_string) r;
          Some (RenameEdgeProperties src_type dst_type edge_type update_properties, r) }"

definition des_DeleteVertexProperties :: "bytes \<Rightarrow> (redo \<times> bytes) option" where
  "des_DeleteVertexProperties bs =
     do { (vertex_type, r) \<leftarrow> get_string bs;
          (delete_properties, r) \<leftarrow> get_list get_string r;
          Some (DeleteVertexProperties vertex_type delete_properties, r) }"

definition des_DeleteEdgeProperties :: "bytes \<Rightarrow> (redo \<times> bytes) option" where
  "des_DeleteEdgeProperties bs =
     do { (src_type, r) \<leftarrow> get_string bs; (dst_type, r) \<leftarrow> get_string r;
          (edge_type, r) \<leftarrow> get_string r;
          (delete_properties, r) \<leftarrow> get_list get_string r;
          Some (DeleteEdgeProperties src_type dst_type edge_type delete_properties, r) }"

definition des_DeleteVertexType :: "bytes \<Rightarrow> (redo \<times> bytes) option" where
  "des_DeleteVertexType bs =
     do { (vertex_type, r) \<leftarrow> get_string bs; Some (DeleteVertexType vertex_type, r) }"

definition des_DeleteEdgeType :: "bytes \<Rightarrow> (redo \<times> bytes) option" where
  "des_DeleteEdgeType bs =
     do { (src_type, r) \<leftarrow> get_string bs; (dst_type, r) \<leftarrow> get_string r;
          (edge_type, r) \<leftarrow> get_string r;
          Some (DeleteEdgeType src_type dst_type edge_type, r) }"

definition des_InsertVertex :: "bytes \<Rightarrow> (redo \<times> bytes) option" where
  "des_InsertVertex bs =
     do { (label, r) \<leftarrow> get8 bs; (oid, r) \<leftarrow> get_property r;
          (props, r) \<leftarrow> get_list get_property r;
          Some (InsertVertex label oid props, r) }"

definition des_InsertEdge :: "bytes \<Rightarrow> (redo \<times> bytes) option" where
  "des_InsertEdge bs =
     do { (src_label, r) \<leftarrow> get8 bs; (src, r) \<leftarrow> get_property r;
          (dst_label, r) \<leftarrow> get8 r; (dst, r) \<leftarrow> get_property r;
          (edge_label, r) \<leftarrow> get8 r;
          (properties, r) \<leftarrow> get_list get_property r;
          Some (InsertEdge src_label src dst_label dst edge_label properties, r) }"

definition des_UpdateVertexProp :: "bytes \<Rightarrow> (redo \<times> bytes) option" where
  "des_UpdateVertexProp bs =
     do { (label, r) \<leftarrow> get8 bs; (oid, r) \<leftarrow> get_property r;
          (prop_id, r) \<leftarrow> get32 r; (value, r) \<leftarrow> get_property r;
          Some (UpdateVertexProp label oid prop_id value, r) }"

definition des_UpdateEdgeProp :: "bytes \<Rightarrow> (redo \<times> bytes) option" where
  "des_UpdateEdgeProp bs =
     do { (src_label, r) \<leftarrow> get8 bs; (src, r) \<leftarrow> get_property r;
          (dst_label, r) \<leftarrow> get8 r; (dst, r) \<leftarrow> get_property r;
          (edge_label, r) \<leftarrow> get8 r; (oe_offset, r) \<leftarrow> get32 r;
          (ie_offset, r) \<leftarrow> get32 r; (prop_id, r) \<leftarrow> get32 r;
          (value, r) \<leftarrow> get_property r;
          Some (UpdateEdgeProp src_label src dst_label dst edge_label oe_offset ie_offset prop_id value, r) }"

definition des_RemoveVertex :: "bytes \<Rightarrow> (redo \<times> bytes) option" where
  "des_RemoveVertex bs =
     do { (label, r) \<leftarrow> get8 bs; (oid, r) \<leftarrow> get_property r;
          Some (RemoveVertex label oid, r) }"

definition des_RemoveEdge :: "bytes \<Rightarrow> (redo \<times> bytes) option" where
  "des_RemoveEdge bs =
     do { (src_label, r) \<leftarrow> get8 bs; (src, r) \<leftarrow> get_property r;
          (dst_label, r) \<leftarrow> get8 r; (dst, r) \<leftarrow> get_property r;
          (edge_label, r) \<leftarrow> get8 r; (oe_offset, r) \<leftarrow> get32 r;
          (ie_offset, r) \<leftarrow> get32 r;
          Some (RemoveEdge src_label src dst_label dst edge_label oe_offset ie_offset, r) }"

text \<open>The dispatch on the operation code, as \<^verbatim>\<open>UpdateTransaction::IngestWal\<close> does it.\<close>

definition get_redo :: "bytes \<Rightarrow> (redo \<times> bytes) option" where
  "get_redo bs =
     do { (op, r) \<leftarrow> get8 bs;
          if op = 0 then des_CreateVertexType r
          else if op = 1 then des_CreateEdgeType r
          else if op = 2 then des_InsertVertex r
          else if op = 3 then des_InsertEdge r
          else if op = 4 then des_UpdateVertexProp r
          else if op = 5 then des_UpdateEdgeProp r
          else if op = 6 then des_RemoveVertex r
          else if op = 7 then des_RemoveEdge r
          else if op = 8 then des_AddVertexProperties r
          else if op = 9 then des_AddEdgeProperties r
          else if op = 10 then des_RenameVertexProperties r
          else if op = 11 then des_RenameEdgeProperties r
          else if op = 12 then des_DeleteVertexProperties r
          else if op = 13 then des_DeleteEdgeProperties r
          else if op = 14 then des_DeleteVertexType r
          else if op = 15 then des_DeleteEdgeType r
          else None }"

lemmas ser_defs =
  ser_CreateVertexType_def
  ser_CreateEdgeType_def
  ser_AddVertexProperties_def
  ser_AddEdgeProperties_def
  ser_RenameVertexProperties_def
  ser_RenameEdgeProperties_def
  ser_DeleteVertexProperties_def
  ser_DeleteEdgeProperties_def
  ser_DeleteVertexType_def
  ser_DeleteEdgeType_def
  ser_InsertVertex_def
  ser_InsertEdge_def
  ser_UpdateVertexProp_def
  ser_UpdateEdgeProp_def
  ser_RemoveVertex_def
  ser_RemoveEdge_def

lemmas des_defs =
  des_CreateVertexType_def
  des_CreateEdgeType_def
  des_AddVertexProperties_def
  des_AddEdgeProperties_def
  des_RenameVertexProperties_def
  des_RenameEdgeProperties_def
  des_DeleteVertexProperties_def
  des_DeleteEdgeProperties_def
  des_DeleteVertexType_def
  des_DeleteEdgeType_def
  des_InsertVertex_def
  des_InsertEdge_def
  des_UpdateVertexProp_def
  des_UpdateEdgeProp_def
  des_RemoveVertex_def
  des_RemoveEdge_def

text \<open>
  The loop of \<^verbatim>\<open>IngestWal\<close> over a log: records are read until the archive is empty. Insert
  transactions accept two kinds of records and stop the program on any other.
\<close>

partial_function (option) read_redos :: "bytes \<Rightarrow> redo list option" where
  "read_redos arc =
     (if arc = [] then Some []
      else do { (x, r) \<leftarrow> get_redo arc; xs \<leftarrow> read_redos r; Some (x # xs) })"

definition get_insert_redo :: "bytes \<Rightarrow> (redo \<times> bytes) option" where
  "get_insert_redo bs =
     do { (op, r) \<leftarrow> get8 bs;
          if op = 2 then des_InsertVertex r else if op = 3 then des_InsertEdge r else None }"

partial_function (option) read_insert_redos :: "bytes \<Rightarrow> redo list option" where
  "read_insert_redos arc =
     (if arc = [] then Some []
      else do { (x, r) \<leftarrow> get_insert_redo arc; xs \<leftarrow> read_insert_redos r; Some (x # xs) })"

section \<open>Reading inverts writing\<close>

definition list_ok :: "('a \<Rightarrow> bool) \<Rightarrow> 'a list \<Rightarrow> bool" where
  "list_ok v xs \<longleftrightarrow> list_all v xs \<and> length xs < 2 ^ 32"

definition prop_def_small :: "prop_def \<Rightarrow> bool" where
  "prop_def_small p \<longleftrightarrow> (case p of (t, n, d) \<Rightarrow> dt_small t \<and> small n \<and> prop_small d)"

text \<open>Records that the log can hold: sizes fit their counts.\<close>

primrec redo_ok :: "redo \<Rightarrow> bool" where
  "redo_ok (CreateVertexType a b c) \<longleftrightarrow> small a \<and> list_ok prop_def_small b \<and> list_ok small c"
| "redo_ok (CreateEdgeType a b c d e f) \<longleftrightarrow> small a \<and> small b \<and> small c \<and> list_ok prop_def_small d"
| "redo_ok (AddVertexProperties a b) \<longleftrightarrow> small a \<and> list_ok prop_def_small b"
| "redo_ok (AddEdgeProperties a b c d) \<longleftrightarrow> small a \<and> small b \<and> small c \<and> list_ok prop_def_small d"
| "redo_ok (RenameVertexProperties a b) \<longleftrightarrow> small a \<and> list_ok (\<lambda>(x, y). small x \<and> small y) b"
| "redo_ok (RenameEdgeProperties a b c d) \<longleftrightarrow> small a \<and> small b \<and> small c \<and> list_ok (\<lambda>(x, y). small x \<and> small y) d"
| "redo_ok (DeleteVertexProperties a b) \<longleftrightarrow> small a \<and> list_ok small b"
| "redo_ok (DeleteEdgeProperties a b c d) \<longleftrightarrow> small a \<and> small b \<and> small c \<and> list_ok small d"
| "redo_ok (DeleteVertexType a) \<longleftrightarrow> small a"
| "redo_ok (DeleteEdgeType a b c) \<longleftrightarrow> small a \<and> small b \<and> small c"
| "redo_ok (InsertVertex a b c) \<longleftrightarrow> prop_small b \<and> list_ok prop_small c"
| "redo_ok (InsertEdge a b c d e f) \<longleftrightarrow> prop_small b \<and> prop_small d \<and> list_ok prop_small f"
| "redo_ok (UpdateVertexProp a b c d) \<longleftrightarrow> prop_small b \<and> prop_small d"
| "redo_ok (UpdateEdgeProp a b c d e f g h i) \<longleftrightarrow> prop_small b \<and> prop_small d \<and> prop_small i"
| "redo_ok (RemoveVertex a b) \<longleftrightarrow> prop_small b"
| "redo_ok (RemoveEdge a b c d e f g) \<longleftrightarrow> prop_small b \<and> prop_small d"

context codec
begin

lemma get_list_put: "list_ok valid xs \<Longrightarrow> get_list get (put_list put xs @ r) = Some (xs, r)"
  using get_items_put [of xs r]
  by (simp add: list_ok_def put_list_def get_list_def codec_simps unat_of_nat)

end

interpretation cprop_def: codec put_prop_def get_prop_def prop_def_small
proof -
  have "prop_def_small = (\<lambda>(t, p). dt_small t \<and> (case p of (n, d) \<Rightarrow> small n \<and> prop_small d))"
    by (auto simp: prop_def_small_def fun_eq_iff)
  then show "codec put_prop_def get_prop_def prop_def_small"
    using codec_pair [OF cdata_type.codec_axioms
        codec_pair [OF cstring.codec_axioms cproperty.codec_axioms]]
    by (simp add: put_prop_def_def get_prop_def_def)
qed

interpretation cnames: codec "put_pair put_string put_string" "get_pair get_string get_string"
    "\<lambda>(x, y). small x \<and> small y"
  by (rule codec_pair [OF cstring.codec_axioms cstring.codec_axioms])

lemmas codec_lists [codec_simps] =
  cprop_def.get_list_put cnames.get_list_put cstring.get_list_put cproperty.get_list_put

lemma get_redo_put: "redo_ok x \<Longrightarrow> get_redo (put_redo x @ r) = Some (x, r)"
  by (cases x) (simp_all add: get_redo_def ser_defs des_defs codec_simps)

interpretation credo: codec put_redo get_redo redo_ok
  by unfold_locales (rule get_redo_put)

lemma put_redo_op: "\<exists>bs. put_redo x = op_type x # bs"
  by (cases x) (simp_all add: ser_defs put8_def)

lemma put_redo_not_Nil [simp]: "put_redo x \<noteq> []"
  using put_redo_op [of x] by auto

lemma read_redos_put: "list_all redo_ok xs \<Longrightarrow> read_redos (concat (map put_redo xs)) = Some xs"
proof (induction xs)
  case (Cons x xs)
  then show ?case by (subst read_redos.simps) (simp add: get_redo_put)
qed (simp add: read_redos.simps)

lemma get_insert_redo_put:
  assumes "redo_ok x" and "op_type x \<in> {2, 3}"
  shows "get_insert_redo (put_redo x @ r) = Some (x, r)"
  using assms by (cases x) (simp_all add: get_insert_redo_def ser_defs des_defs codec_simps)

lemma read_insert_redos_put:
  "list_all (\<lambda>x. redo_ok x \<and> op_type x \<in> {2, 3}) xs \<Longrightarrow>
     read_insert_redos (concat (map put_redo xs)) = Some xs"
proof (induction xs)
  case Nil
  show ?case by (simp add: read_insert_redos.simps)
next
  case (Cons x xs)
  then have "get_insert_redo (concat (map put_redo (x # xs))) = Some (x, concat (map put_redo xs))"
    by (simp add: get_insert_redo_put)
  moreover have "read_insert_redos (concat (map put_redo xs)) = Some xs" using Cons by simp
  moreover have "concat (map put_redo (x # xs)) \<noteq> []" by simp
  ultimately show ?case by (subst read_insert_redos.simps) simp
qed

section \<open>Properties\<close>

text \<open>
  C12. A log of redo records, whatever their kinds, is read back exactly: the loop of
  \<^verbatim>\<open>IngestWal\<close> terminates, reads every record that was serialized, in order, with the same
  fields, and stops at the end. Hence two logs with the same bytes are the same.
\<close>

theorem wal_redo_roundtrip:
  assumes "list_all redo_ok xs" and "list_all redo_ok ys"
  shows "read_redos (concat (map put_redo xs)) = Some xs \<and>
    (concat (map put_redo xs) = concat (map put_redo ys) \<longrightarrow> xs = ys)"
  using read_redos_put [OF assms(1)] read_redos_put [OF assms(2)] by (metis option.inject)

theorem wal_redo_roundtrip_witness:
  "read_redos (put_redo (DeleteVertexType [80]) @ put_redo (RemoveVertex 1 (PInt64 7)))
     = Some [DeleteVertexType [80], RemoveVertex 1 (PInt64 7)]"
  using wal_redo_roundtrip [of "[DeleteVertexType [80], RemoveVertex 1 (PInt64 7)]" "[]"]
  by (simp add: small_def prop_small_def)

end
