(* ===== verification/Wal_File.thy ===== *)
theory Wal_File
  imports Wal_Redo
begin

text \<open>
  The write-ahead log on disk and its replay: \<^verbatim>\<open>local_wal_writer.cc\<close>,
  \<^verbatim>\<open>local_wal_parser.cc\<close> and \<^verbatim>\<open>NeugDB::ingestWals\<close> of \<^verbatim>\<open>main/neug_db.cc\<close>. Every
  thread appends to a file of its own; a file is extended with zeros in steps of 1 GiB, so that the
  zero timestamp after the last unit ends it. The parser reads all files, puts the insert units in a
  vector indexed by timestamp and sorts the update units; the replay goes through both in the order
  of timestamps.

  A file is the bytes written and its size. The calls that replay makes are a list. A read outside a
  mapped file or past the end of the vector is undefined and \<open>None\<close> here, and so is a negative
  length, which moves the read position back to a header already seen.

  The lemmas show that replay makes one call for each unit logged, in the order of timestamps, as
  long as the file has room for the final zero and no update is much later than every insert.
\<close>

section \<open>Units\<close>

text \<open>
  \<^verbatim>\<open>WalHeader\<close>: the timestamp, one bit for the kind (true for update and compaction) and a
  signed 31-bit length. A commit fills it in front of the redo records it has collected.
\<close>

definition header_word :: "bool \<Rightarrow> nat \<Rightarrow> 32 word" where
  "header_word type len = push_bit 1 (of_nat len) OR of_bool type"

definition put_header :: "timestamp_t \<Rightarrow> bool \<Rightarrow> nat \<Rightarrow> bytes" where
  "put_header ts type len = put32 ts @ put32 (header_word type len)"

definition header_type :: "32 word \<Rightarrow> bool" where
  "header_type w = bit w 0"

definition header_length :: "32 word \<Rightarrow> int" where
  "header_length w = signed_take_bit 30 (uint (drop_bit 1 w))"

type_synonym wal_unit = "timestamp_t \<times> bool \<times> bytes"

definition put_unit :: "wal_unit \<Rightarrow> bytes" where
  "put_unit u = (case u of (ts, type, data) \<Rightarrow> put_header ts type (length data) @ data)"

section \<open>The writer\<close>

definition TRUNC_SIZE :: nat where
  "TRUNC_SIZE = 2 ^ 30"

record wal_writer =
  fd :: "nat option"
  written :: bytes
  file_size :: nat
  file_used :: nat

text \<open>\<open>exists v\<close> tells whether the file with version \<open>v\<close> of this thread is in the directory.\<close>

definition new_writer :: "nat \<Rightarrow> wal_writer" where
  "new_writer version =
     \<lparr>fd = Some version, written = [], file_size = TRUNC_SIZE, file_used = 0\<rparr>"

definition wal_open :: "(nat \<Rightarrow> bool) \<Rightarrow> wal_writer option" where
  "wal_open exists =
     map_option new_writer (List.find (\<lambda>version. \<not> exists version) [0..<65536])"

definition wal_close :: "wal_writer \<Rightarrow> wal_writer" where
  "wal_close w = (if fd w \<noteq> None then w\<lparr>fd := None, file_size := 0, file_used := 0\<rparr> else w)"

definition wal_append :: "wal_writer \<Rightarrow> bytes \<Rightarrow> bool \<times> wal_writer" where
  "wal_append w data =
     (if fd w = None then (False, w)
      else let expected_size = file_used w + length data;
               w = (if expected_size > file_size w
                    then w\<lparr>file_size := (expected_size div TRUNC_SIZE + 1) * TRUNC_SIZE\<rparr> else w)
           in (True, w\<lparr>file_used := file_used w + length data, written := written w @ data\<rparr>))"

text \<open>The file as the parser maps it.\<close>

definition wal_image :: "wal_writer \<Rightarrow> bytes" where
  "wal_image w = written w @ replicate (file_size w - length (written w)) 0"

section \<open>The parser\<close>

record wal_parser =
  insert_wal_list :: "bytes list"
  update_wal_list :: "(timestamp_t \<times> bytes) list"
  last_ts :: timestamp_t

definition add_unit :: "wal_unit \<Rightarrow> wal_parser \<Rightarrow> wal_parser" where
  "add_unit u p =
     (case u of (ts, type, data) \<Rightarrow>
        let p = (if type then p\<lparr>update_wal_list := update_wal_list p @ [(ts, data)]\<rparr>
                 else let n = length (insert_wal_list p);
                          l = (if n \<le> unat ts
                               then insert_wal_list p @ replicate (unat ts + 1 - n) []
                               else insert_wal_list p)
                      in p\<lparr>insert_wal_list := l[unat ts := data]\<rparr>)
        in p\<lparr>last_ts := max ts (last_ts p)\<rparr>)"

function parse_file :: "bytes \<Rightarrow> wal_parser \<Rightarrow> wal_parser option" where
  "parse_file bs p =
     (case get32 bs of
        None \<Rightarrow> None
      | Some (ts, r) \<Rightarrow>
          if ts = 0 then Some p
          else case get32 r of
                 None \<Rightarrow> None
               | Some (w, r1) \<Rightarrow>
                   if header_length w < 0 then None
                   else case get_bytes (nat (header_length w)) r1 of
                          None \<Rightarrow> None
                        | Some (data, r2) \<Rightarrow> parse_file r2 (add_unit (ts, header_type w, data) p))"
  by pat_completeness auto

lemma get_bytes_length: "get_bytes n bs = Some (x, r) \<Longrightarrow> length bs = n + length r"
  by (auto simp: get_bytes_def split: if_splits)

termination parse_file
  by (relation "measure (length \<circ> fst)") (auto dest!: get_word_length get_bytes_length)

declare parse_file.simps [simp del]

fun parse_files :: "bytes list \<Rightarrow> wal_parser \<Rightarrow> wal_parser option" where
  "parse_files [] p = Some p"
| "parse_files (f # fs) p =
     (if f = [] then parse_files fs p
      else case parse_file f p of None \<Rightarrow> None | Some p \<Rightarrow> parse_files fs p)"

definition parser_empty :: wal_parser where
  "parser_empty = \<lparr>insert_wal_list = replicate 4096 [], update_wal_list = [], last_ts = 0\<rparr>"

definition parser_open :: "bytes list \<Rightarrow> wal_parser option" where
  "parser_open files =
     map_option (\<lambda>p. p\<lparr>update_wal_list := sort_key fst (update_wal_list p)\<rparr>)
       (parse_files files parser_empty)"

definition get_insert_wal :: "wal_parser \<Rightarrow> nat \<Rightarrow> bytes option" where
  "get_insert_wal p ts =
     (if ts < length (insert_wal_list p) then Some (insert_wal_list p ! ts) else None)"

section \<open>Replay\<close>

datatype replay_call =
    IngestInsert nat bytes
  | IngestUpdate timestamp_t bytes
  | Compact timestamp_t

fun ingest_list :: "wal_parser \<Rightarrow> nat list \<Rightarrow> replay_call list option" where
  "ingest_list p [] = Some []"
| "ingest_list p (j # js) =
     do { data \<leftarrow> get_insert_wal p j; cs \<leftarrow> ingest_list p js; Some (IngestInsert j data # cs) }"

definition IngestWalRange :: "wal_parser \<Rightarrow> timestamp_t \<Rightarrow> timestamp_t \<Rightarrow> replay_call list option" where
  "IngestWalRange p from to =
     (if from \<ge> to then Some [] else ingest_list p [unat from..<unat to])"

fun ingest_updates :: "wal_parser \<Rightarrow> timestamp_t \<Rightarrow> (timestamp_t \<times> bytes) list \<Rightarrow>
    (replay_call list \<times> timestamp_t) option" where
  "ingest_updates p from_ts [] = Some ([], from_ts)"
| "ingest_updates p from_ts ((to_ts, data) # us) =
     do { cs \<leftarrow> (if from_ts < to_ts then IngestWalRange p from_ts to_ts else Some []);
          let c = (if data = [] then Compact to_ts else IngestUpdate to_ts data);
          (ds, from_ts') \<leftarrow> ingest_updates p (to_ts + 1) us;
          Some (cs @ c # ds, from_ts') }"

definition ingestWals :: "wal_parser \<Rightarrow> replay_call list option" where
  "ingestWals p =
     do { (cs, from_ts) \<leftarrow> ingest_updates p 1 (update_wal_list p);
          ds \<leftarrow> (if from_ts \<le> last_ts p then IngestWalRange p from_ts (last_ts p + 1) else Some []);
          Some (cs @ ds) }"

section \<open>Slots of a sorted list\<close>

lemma concat_slots_sorted:
  fixes f :: "'a \<Rightarrow> nat"
  assumes "sorted (map f ys)" and "\<forall>y\<in>set ys. a \<le> f y \<and> f y < b"
  shows "concat (map (\<lambda>j. filter (\<lambda>x. f x = j) ys) [a..<b]) = ys"
  using assms
proof (induction ys arbitrary: a)
  case (Cons y ys)
  have y: "a \<le> f y" "f y < b" using Cons.prems by auto
  have le: "\<forall>x\<in>set ys. f y \<le> f x \<and> f x < b" using Cons.prems by auto
  have split: "[a..<b] = [a..<f y] @ f y # [Suc (f y)..<b]"
    using y by (metis le_iff_add upt_add_eq_append upt_conv_Cons less_imp_le)
  define g where "g = (\<lambda>j. filter (\<lambda>x. f x = j) (y # ys))"
  define h where "h = (\<lambda>j. filter (\<lambda>x. f x = j) ys)"
  have "g j = []" if "j < f y" for j
    using that le by (auto simp: g_def filter_empty_conv)
  then have "concat (map g [a..<f y]) = []" by simp
  moreover have "map g [Suc (f y)..<b] = map h [Suc (f y)..<b]"
    by (intro map_cong) (auto simp: g_def h_def)
  moreover have "g (f y) = y # h (f y)" by (simp add: g_def h_def)
  moreover have "concat (map h [f y..<b]) = ys"
    unfolding h_def using Cons.IH [of "f y"] Cons.prems(1) le by simp
  then have "h (f y) @ concat (map h [Suc (f y)..<b]) = ys"
    using y(2) by (simp add: upt_conv_Cons)
  ultimately have "concat (map g [a..<b]) = y # ys"
    by (simp only: split map_append list.map concat_append concat.simps append_Nil append_Cons)
  then show ?case by (simp only: g_def)
qed simp

lemma concat_slots_sort_key:
  fixes f :: "'a \<Rightarrow> nat"
  assumes "\<forall>x\<in>set xs. a \<le> f x \<and> f x < b"
  shows "concat (map (\<lambda>j. filter (\<lambda>x. f x = j) xs) [a..<b]) = sort_key f xs"
  using concat_slots_sorted [of f "sort_key f xs" a b] assms by (simp add: sort_key_stable)

lemma filter_key_distinct:
  "distinct (map f xs) \<Longrightarrow> x \<in> set xs \<Longrightarrow> filter (\<lambda>y. f y = f x) xs = [x]"
proof (induction xs)
  case (Cons y ys)
  have "filter (\<lambda>z. f z = f y) ys = []"
    using Cons.prems(1) by (auto simp: filter_empty_conv image_iff)
  then show ?case using Cons by auto
qed simp

section \<open>Reading a file\<close>

lemma header_type_word [simp]: "header_type (header_word t n) = t"
  unfolding header_type_def header_word_def bit_or_iff bit_push_bit_iff by simp

lemma header_length_word:
  assumes "n < 2 ^ 30"
  shows "header_length (header_word t n) = int n"
proof -
  have "drop_bit 1 (push_bit 1 w OR of_bool t) = take_bit 31 w" for w :: "32 word"
    by (rule bit_word_eqI, unfold bit_drop_bit_eq comp_def bit_or_iff bit_push_bit_iff bit_take_bit_iff)
      (auto simp: bit_of_bool_iff)
  moreover have "take_bit 31 (of_nat n) = (of_nat n :: 32 word)"
    using assms by (simp add: take_bit_of_nat take_bit_nat_eq_self)
  moreover have "uint (of_nat n :: 32 word) = int n"
    using assms by (simp add: unsigned_of_nat take_bit_nat_eq_self)
  moreover have "signed_take_bit 30 (int n) = int n"
    using assms by (simp add: signed_take_bit_int_eq_self_iff)
  ultimately show ?thesis unfolding header_length_def header_word_def by simp
qed

definition unit_ok :: "wal_unit \<Rightarrow> bool" where
  "unit_ok u \<longleftrightarrow> (case u of (ts, type, data) \<Rightarrow> ts \<noteq> 0 \<and> length data < 2 ^ 30 \<and> (\<not> type \<longrightarrow> data \<noteq> []))"

lemma parse_unit:
  assumes "unit_ok u"
  shows "parse_file (put_unit u @ r) p = parse_file r (add_unit u p)"
proof -
  obtain ts type data where u: "u = (ts, type, data)" by (metis prod_cases3)
  have "header_length (header_word type (length data)) = int (length data)"
    using assms by (intro header_length_word) (simp add: unit_ok_def u)
  then show ?thesis
    using assms by (subst parse_file.simps) (simp add: u put_unit_def put_header_def codec_simps unit_ok_def)
qed

lemma parse_zeros:
  assumes "4 \<le> k"
  shows "parse_file (replicate k 0) p = Some p"
proof -
  have "replicate k 0 = put32 0 @ replicate (k - 4) 0"
  proof -
    have "put32 0 = replicate 4 0" by (simp add: numeral_eq_Suc)
    then show ?thesis using assms by (metis le_add_diff_inverse replicate_add)
  qed
  then show ?thesis by (subst parse_file.simps) (simp add: codec_simps)
qed

lemma parse_file_units:
  "list_all unit_ok us \<Longrightarrow> 4 \<le> k \<Longrightarrow>
     parse_file (concat (map put_unit us) @ replicate k 0) p = Some (fold add_unit us p)"
  by (induction us arbitrary: p) (simp_all add: parse_zeros parse_unit)

section \<open>What the parser collects\<close>

abbreviation unit_ts :: "wal_unit \<Rightarrow> nat" where "unit_ts u \<equiv> unat (fst u)"
abbreviation is_update :: "wal_unit \<Rightarrow> bool" where "is_update u \<equiv> fst (snd u)"
abbreviation unit_data :: "wal_unit \<Rightarrow> bytes" where "unit_data u \<equiv> snd (snd u)"

definition insert_at :: "wal_parser \<Rightarrow> nat \<Rightarrow> bytes" where
  "insert_at p j = (if j < length (insert_wal_list p) then insert_wal_list p ! j else [])"

lemma insert_at_frame [simp]: "insert_at (p\<lparr>update_wal_list := l\<rparr>) = insert_at p"
  by (simp add: insert_at_def fun_eq_iff)

lemma add_unit_updates:
  "update_wal_list (add_unit u p) =
     update_wal_list p @ (if is_update u then [(fst u, unit_data u)] else [])"
  by (cases u) (simp add: add_unit_def Let_def)

lemma add_unit_last: "last_ts (add_unit u p) = max (fst u) (last_ts p)"
  by (cases u) (simp add: add_unit_def Let_def)

lemma add_unit_length:
  "length (insert_wal_list (add_unit u p)) =
     (if is_update u then length (insert_wal_list p)
      else max (length (insert_wal_list p)) (Suc (unit_ts u)))"
  by (cases u) (simp add: add_unit_def Let_def)

lemma add_unit_insert_at:
  "insert_at (add_unit u p) j = (if \<not> is_update u \<and> unit_ts u = j then unit_data u else insert_at p j)"
  by (cases u) (auto simp: insert_at_def add_unit_def Let_def nth_append nth_list_update)

lemma parsed_updates:
  "update_wal_list (fold add_unit us p) =
     update_wal_list p @ map (\<lambda>u. (fst u, unit_data u)) (filter is_update us)"
  by (induction us arbitrary: p) (simp_all add: add_unit_updates)

lemma parsed_insert_at:
  assumes "distinct (map unit_ts us)" and "u \<in> set us" and "\<not> is_update u"
  shows "insert_at (fold add_unit us p) (unit_ts u) = unit_data u"
  using assms
proof (induction us rule: rev_induct)
  case (snoc v us)
  show ?case
  proof (cases "u = v")
    case False
    then have "unit_ts v \<noteq> unit_ts u" using snoc.prems by (auto simp: image_iff)
    then show ?thesis using False snoc by (simp add: add_unit_insert_at)
  qed (use snoc.prems in \<open>simp add: add_unit_insert_at\<close>)
qed simp

lemma parsed_insert_none:
  "\<forall>u\<in>set us. is_update u \<or> unit_ts u \<noteq> j \<Longrightarrow> insert_at (fold add_unit us p) j = insert_at p j"
  by (induction us arbitrary: p) (auto simp: add_unit_insert_at)

lemma parsed_length_mono: "length (insert_wal_list p) \<le> length (insert_wal_list (fold add_unit us p))"
proof (induction us arbitrary: p)
  case (Cons u us)
  have "length (insert_wal_list p) \<le> length (insert_wal_list (add_unit u p))"
    by (simp add: add_unit_length)
  then show ?case using Cons [of "add_unit u p"] by simp
qed simp

lemma parsed_length_insert:
  "u \<in> set us \<Longrightarrow> \<not> is_update u \<Longrightarrow> unit_ts u < length (insert_wal_list (fold add_unit us p))"
proof (induction us arbitrary: p)
  case (Cons v us)
  show ?case
  proof (cases "u = v")
    case True
    then have "unit_ts u < length (insert_wal_list (add_unit v p))"
      using Cons.prems by (simp add: add_unit_length)
    then show ?thesis using parsed_length_mono [of "add_unit v p" us] by simp
  qed (use Cons in simp)
qed simp

lemma parsed_length_bound:
  "length (insert_wal_list p) \<le> m \<Longrightarrow> \<forall>u\<in>set us. is_update u \<or> unit_ts u < m \<Longrightarrow>
     length (insert_wal_list (fold add_unit us p)) \<le> m"
  by (induction us arbitrary: p) (auto simp: add_unit_length)

lemma unat_max: "unat (max (a :: timestamp_t) b) = max (unat a) (unat b)"
  by (simp add: max_def word_le_nat_alt)

lemma parsed_last:
  "unat (last_ts (fold add_unit us p)) = fold max (map unit_ts us) (unat (last_ts p))"
  by (induction us arbitrary: p) (simp_all add: add_unit_last unat_max)

lemma parsed_last_ge: "u \<in> set us \<Longrightarrow> unit_ts u \<le> unat (last_ts (fold add_unit us p))"
proof -
  have "fold max xs (m :: nat) = Max (set (m # xs))" for xs m by (rule Max.set_eq_fold [symmetric])
  then show "u \<in> set us \<Longrightarrow> ?thesis" unfolding parsed_last by simp
qed

lemma insert_at_empty [simp]: "insert_at parser_empty j = []"
  by (simp add: insert_at_def parser_empty_def)

lemma parse_files_units:
  assumes "list_all (\<lambda>(us, k). list_all unit_ok us \<and> 4 \<le> k) fs"
  shows "parse_files (map (\<lambda>(us, k). concat (map put_unit us) @ replicate k 0) fs) p
    = Some (fold add_unit (concat (map fst fs)) p)"
  using assms by (induction fs arbitrary: p) (auto simp: parse_file_units)

section \<open>Replay in the order of timestamps\<close>

definition call_of :: "wal_unit \<Rightarrow> replay_call" where
  "call_of u = (case u of (ts, type, data) \<Rightarrow>
     if \<not> type then IngestInsert (unat ts) data
     else if data = [] then Compact ts else IngestUpdate ts data)"

text \<open>Calls on an empty slot do nothing.\<close>

definition effective :: "replay_call \<Rightarrow> bool" where
  "effective c = (case c of IngestInsert _ data \<Rightarrow> data \<noteq> [] | _ \<Rightarrow> True)"

definition insert_slot :: "wal_parser \<Rightarrow> nat \<Rightarrow> replay_call list" where
  "insert_slot p j = (if insert_at p j = [] then [] else [IngestInsert j (insert_at p j)])"

definition update_slot :: "(timestamp_t \<times> bytes) list \<Rightarrow> nat \<Rightarrow> replay_call list" where
  "update_slot us j = map (\<lambda>(ts, d). call_of (ts, True, d)) (filter (\<lambda>(ts, _). unat ts = j) us)"

lemma ingest_list_slots:
  "\<forall>j\<in>set js. j < length (insert_wal_list p) \<Longrightarrow>
     \<exists>cs. ingest_list p js = Some cs \<and> filter effective cs = concat (map (insert_slot p) js)"
  by (induction js) (auto simp: get_insert_wal_def insert_slot_def insert_at_def effective_def)

lemma IngestWalRange_slots:
  assumes "unat to \<le> length (insert_wal_list p)"
  shows "\<exists>cs. IngestWalRange p from to = Some cs \<and>
    filter effective cs = concat (map (insert_slot p) [unat from..<unat to])"
proof (cases "from \<ge> to")
  case True
  then have "unat to \<le> unat from" by (simp add: word_le_nat_alt)
  then show ?thesis using True by (simp add: IngestWalRange_def)
next
  case False
  then show ?thesis
    using assms ingest_list_slots [of "[unat from..<unat to]" p] by (auto simp: IngestWalRange_def)
qed

lemma update_slot_empty: "\<forall>u\<in>set us. unat (fst u) \<noteq> j \<Longrightarrow> update_slot us j = []"
  by (auto simp: update_slot_def filter_empty_conv)

lemma unat_next_timestamp:
  assumes "(ts :: timestamp_t) \<noteq> INVALID_TIMESTAMP"
  shows "unat (ts + 1) = Suc (unat ts)"
proof -
  have "unat ts \<noteq> 2 ^ 32 - 1" using assms unat_INVALID by (metis word_unat_eq_iff)
  then have "unat ts < 2 ^ 32 - 1" using unat_timestamp_le [of ts] by simp
  then show ?thesis by (intro unat_Suc_word) simp
qed

abbreviation slot :: "wal_parser \<Rightarrow> (timestamp_t \<times> bytes) list \<Rightarrow> nat \<Rightarrow> replay_call list" where
  "slot p us j \<equiv> insert_slot p j @ update_slot us j"

lemma slots_without_updates:
  assumes "\<forall>u\<in>set us. unat (fst u) < a \<or> b \<le> unat (fst u)"
  shows "concat (map (slot p us) [a..<b]) = concat (map (insert_slot p) [a..<b])"
proof -
  have "update_slot us j = []" if "a \<le> j" "j < b" for j
    using assms that by (intro update_slot_empty) auto
  then have "map (slot p us) [a..<b] = map (insert_slot p) [a..<b]" by (intro map_cong) auto
  then show ?thesis by (simp only:)
qed

text \<open>Updates that may come next: in order, not before \<open>from_ts\<close>, on slots without an insert.\<close>

definition updates_from :: "wal_parser \<Rightarrow> timestamp_t \<Rightarrow> (timestamp_t \<times> bytes) list \<Rightarrow> bool" where
  "updates_from p from_ts us \<longleftrightarrow>
     sorted_wrt (<) (map (\<lambda>u. unat (fst u)) us) \<and>
     (\<forall>u\<in>set us. unat from_ts \<le> unat (fst u) \<and> fst u \<noteq> INVALID_TIMESTAMP \<and>
       unat (fst u) \<le> length (insert_wal_list p) \<and> insert_at p (unat (fst u)) = [])"

lemma updates_from_Cons:
  assumes "updates_from p from_ts ((ts, d) # us)"
  shows "updates_from p (ts + 1) us" and "ts \<noteq> INVALID_TIMESTAMP" and "unat from_ts \<le> unat ts"
    and "unat ts \<le> length (insert_wal_list p)" and "insert_slot p (unat ts) = []"
    and "\<forall>u\<in>set us. Suc (unat ts) \<le> unat (fst u)"
  using assms unat_next_timestamp [of ts]
  by (auto simp: updates_from_def insert_slot_def Suc_le_eq)

lemma ingest_updates_slots:
  "updates_from p from_ts us \<Longrightarrow>
     \<exists>cs from_ts'. ingest_updates p from_ts us = Some (cs, from_ts') \<and> unat from_ts \<le> unat from_ts' \<and>
       (\<forall>u\<in>set us. unat (fst u) < unat from_ts') \<and>
       (from_ts' = from_ts \<or> (\<exists>u\<in>set us. unat from_ts' = Suc (unat (fst u)))) \<and>
       filter effective cs = concat (map (slot p us) [unat from_ts..<unat from_ts'])"
proof (induction us arbitrary: from_ts)
  case (Cons u us)
  obtain ts d where u: "u = (ts, d)" by (cases u)
  note next_facts = updates_from_Cons [OF Cons.prems [unfolded u]]
  have Suc: "unat (ts + 1) = Suc (unat ts)" by (rule unat_next_timestamp [OF next_facts(2)])
  obtain cs where cs: "(if from_ts < ts then IngestWalRange p from_ts ts else Some []) = Some cs"
    "filter effective cs = concat (map (insert_slot p) [unat from_ts..<unat ts])"
    using IngestWalRange_slots [OF next_facts(4), of from_ts] next_facts(3)
    by (cases "from_ts < ts") (auto simp: word_less_nat_alt)
  obtain ds f where ds: "ingest_updates p (ts + 1) us = Some (ds, f)" "Suc (unat ts) \<le> unat f"
    "\<forall>u\<in>set us. unat (fst u) < unat f"
    "f = ts + 1 \<or> (\<exists>u\<in>set us. unat f = Suc (unat (fst u)))"
    "filter effective ds = concat (map (slot p us) [Suc (unat ts)..<unat f])"
    using Cons.IH [OF next_facts(1)] unfolding Suc by blast
  let ?c = "if d = [] then Compact ts else IngestUpdate ts d"
  have before: "concat (map (slot p (u # us)) [unat from_ts..<unat ts])
      = concat (map (insert_slot p) [unat from_ts..<unat ts])"
    using next_facts(6) by (intro slots_without_updates) (auto simp: u)
  have "update_slot us (unat ts) = []" using next_facts(6) by (intro update_slot_empty) auto
  then have at: "slot p (u # us) (unat ts) = [?c]"
    using next_facts(5) by (auto simp: u update_slot_def call_of_def)
  have after: "map (slot p (u # us)) [Suc (unat ts)..<unat f] = map (slot p us) [Suc (unat ts)..<unat f]"
    by (intro map_cong) (auto simp: u update_slot_def)
  have split: "[unat from_ts..<unat f] = [unat from_ts..<unat ts] @ unat ts # [Suc (unat ts)..<unat f]"
    using next_facts(3) ds(2)
    by (metis Suc_le_lessD le_iff_add less_imp_le upt_add_eq_append upt_conv_Cons)
  have "filter effective (cs @ ?c # ds) = concat (map (slot p (u # us)) [unat from_ts..<unat f])"
    unfolding split map_append concat_append before list.map concat.simps at after filter_append
    by (simp add: cs(2) ds(5) effective_def)
  moreover have "ingest_updates p from_ts (u # us) = Some (cs @ ?c # ds, f)"
    by (simp add: u cs(1) ds(1) Let_def)
  moreover have "\<forall>v\<in>set (u # us). unat (fst v) < unat f" using ds(2,3) by (auto simp: u)
  moreover have "\<exists>v\<in>set (u # us). unat f = Suc (unat (fst v))" using ds(4) Suc by (auto simp: u)
  ultimately show ?case using ds(2) next_facts(3) by auto
qed simp

lemma ingestWals_slots:
  assumes "updates_from p 1 (update_wal_list p)" and "last_ts p \<noteq> INVALID_TIMESTAMP"
    and "unat (last_ts p) < length (insert_wal_list p)"
    and "\<forall>u\<in>set (update_wal_list p). unat (fst u) \<le> unat (last_ts p)"
  shows "\<exists>cs. ingestWals p = Some cs \<and>
    filter effective cs = concat (map (slot p (update_wal_list p)) [1..<Suc (unat (last_ts p))])"
proof -
  let ?us = "update_wal_list p" and ?n = "Suc (unat (last_ts p))"
  obtain cs f where cs: "ingest_updates p 1 ?us = Some (cs, f)" "1 \<le> unat f"
    "\<forall>u\<in>set ?us. unat (fst u) < unat f"
    "f = 1 \<or> (\<exists>u\<in>set ?us. unat f = Suc (unat (fst u)))"
    "filter effective cs = concat (map (slot p ?us) [1..<unat f])"
    using ingest_updates_slots [OF assms(1)] by auto
  have next_ts: "unat (last_ts p + 1) = ?n" by (rule unat_next_timestamp [OF assms(2)])
  have f_le: "unat f \<le> ?n" using cs(4) assms(4) by auto
  have rest: "concat (map (slot p ?us) [unat f..<?n]) = concat (map (insert_slot p) [unat f..<?n])"
    using cs(3) by (intro slots_without_updates) auto
  have split: "[1..<?n] = [1..<unat f] @ [unat f..<?n]"
    using cs(2) f_le by (metis le_iff_add upt_add_eq_append)
  obtain ds where ds: "(if f \<le> last_ts p then IngestWalRange p f (last_ts p + 1) else Some []) = Some ds"
    "filter effective ds = concat (map (insert_slot p) [unat f..<?n])"
  proof (cases "f \<le> last_ts p")
    case True
    then show ?thesis
      using that IngestWalRange_slots [of "last_ts p + 1" p f] assms(3) next_ts by auto
  next
    case False
    then have "\<not> unat f \<le> unat (last_ts p)" by (simp add: word_le_nat_alt)
    then show ?thesis using that False by simp
  qed
  have "ingestWals p = Some (cs @ ds)" by (simp add: ingestWals_def cs(1) ds(1))
  moreover have "filter effective (cs @ ds) = concat (map (slot p ?us) [1..<?n])"
    by (simp only: split map_append concat_append rest filter_append cs(5) ds(2))
  ultimately show ?thesis by blast
qed

section \<open>From writers to replay\<close>

text \<open>A log file: units appended one after the other to a new file.\<close>

definition wal_write :: "wal_unit list \<Rightarrow> wal_writer \<Rightarrow> wal_writer" where
  "wal_write us w = fold (\<lambda>u w. snd (wal_append w (put_unit u))) us w"

definition wal_log :: "wal_unit list \<Rightarrow> wal_writer" where
  "wal_log us = wal_write us (new_writer 0)"

definition writer_ok :: "wal_writer \<Rightarrow> bool" where
  "writer_ok w \<longleftrightarrow> fd w \<noteq> None \<and> file_used w = length (written w) \<and> file_used w \<le> file_size w \<and>
     TRUNC_SIZE dvd file_size w"

lemma new_writer_ok: "writer_ok (new_writer v)"
  by (simp add: writer_ok_def new_writer_def)

lemma wal_append_ok:
  assumes "writer_ok w"
  shows "fst (wal_append w data)" and "writer_ok (snd (wal_append w data))"
    and "written (snd (wal_append w data)) = written w @ data"
proof -
  have "n \<le> (n div TRUNC_SIZE + 1) * TRUNC_SIZE" for n :: nat
    using dividend_less_div_times [of TRUNC_SIZE n] by (simp add: TRUNC_SIZE_def)
  then show "writer_ok (snd (wal_append w data))"
    using assms by (auto simp: writer_ok_def wal_append_def Let_def)
qed (use assms in \<open>auto simp: writer_ok_def wal_append_def Let_def\<close>)

lemma wal_write_ok:
  "writer_ok w \<Longrightarrow> writer_ok (wal_write us w) \<and> written (wal_write us w) = written w @ concat (map put_unit us)"
  by (induction us arbitrary: w) (simp_all add: wal_write_def wal_append_ok)

lemma wal_log_ok: "writer_ok (wal_log us)" "written (wal_log us) = concat (map put_unit us)"
  using wal_write_ok [OF new_writer_ok, of us 0] by (simp_all add: wal_log_def new_writer_def)

text \<open>The file has room for the zero timestamp that ends it.\<close>

definition log_room :: "wal_unit list \<Rightarrow> bool" where
  "log_room us \<longleftrightarrow> file_used (wal_log us) + 4 \<le> file_size (wal_log us)"

lemma wal_image_log:
  "wal_image (wal_log us) =
     concat (map put_unit us) @ replicate (file_size (wal_log us) - file_used (wal_log us)) 0"
  using wal_log_ok [of us] by (simp add: wal_image_def writer_ok_def)

lemma parser_open_logs:
  assumes "list_all unit_ok (concat logs)" and "list_all log_room logs"
  shows "parser_open (map (\<lambda>us. wal_image (wal_log us)) logs) =
    Some (let p = fold add_unit (concat logs) parser_empty
          in p\<lparr>update_wal_list := sort_key fst (update_wal_list p)\<rparr>)"
proof -
  let ?fs = "map (\<lambda>us. (us, file_size (wal_log us) - file_used (wal_log us))) logs"
  have fs: "list_all (\<lambda>(us, k). list_all unit_ok us \<and> 4 \<le> k) ?fs"
    using assms by (auto simp: list_all_iff log_room_def)
  have "parse_files (map (\<lambda>us. wal_image (wal_log us)) logs) parser_empty
      = Some (fold add_unit (concat logs) parser_empty)"
    using parse_files_units [OF fs, of parser_empty] by (simp add: wal_image_log comp_def)
  then show ?thesis by (simp add: parser_open_def Let_def)
qed

text \<open>The units of all logs can be replayed: timestamps differ and stay within the insert vector.\<close>

definition units_ok :: "wal_unit list \<Rightarrow> bool" where
  "units_ok us \<longleftrightarrow> list_all unit_ok us \<and> distinct (map unit_ts us) \<and>
     (\<forall>u\<in>set us. fst u \<noteq> INVALID_TIMESTAMP) \<and>
     (\<forall>u\<in>set us. unit_ts u < 4096 \<or> (\<exists>v\<in>set us. \<not> is_update v \<and> unit_ts u \<le> unit_ts v))"

lemma parsed_slot:
  assumes "units_ok us" and "p = fold add_unit us parser_empty"
  shows "slot p (sort_key fst (update_wal_list p)) j = map call_of (filter (\<lambda>u. unit_ts u = j) us)"
proof -
  let ?upd = "\<lambda>us. map (\<lambda>u. (fst u, unit_data u)) (filter is_update us)"
  have "filter (\<lambda>(ts, _). unat ts = j) (update_wal_list p) = ?upd (filter (\<lambda>u. unit_ts u = j) us)"
    unfolding assms(2) parsed_updates by (simp add: parser_empty_def) (induction us; simp)
  then have upd: "update_slot (sort_key fst (update_wal_list p)) j =
      map (\<lambda>(ts, d). call_of (ts, True, d)) (sort_key fst (?upd (filter (\<lambda>u. unit_ts u = j) us)))"
    by (simp add: update_slot_def filter_sort)
  show ?thesis
  proof (cases "\<exists>u\<in>set us. unit_ts u = j")
    case True
    then obtain u where u: "u \<in> set us" "unit_ts u = j" by blast
    have f: "filter (\<lambda>v. unit_ts v = j) us = [u]"
      using filter_key_distinct [of unit_ts us u] u assms(1) by (simp add: units_ok_def)
    have ok: "unit_ok u" using assms(1) u(1) by (auto simp: units_ok_def list_all_iff)
    have only: "v = u" if "v \<in> set us" "unit_ts v = j" for v
    proof -
      have "v \<in> set (filter (\<lambda>v. unit_ts v = j) us)" using that by simp
      then show ?thesis unfolding f by simp
    qed
    show ?thesis
    proof (cases "is_update u")
      case True
      then have "\<forall>v\<in>set us. is_update v \<or> unit_ts v \<noteq> j" using only by blast
      then have "insert_at p j = []" using assms(2) by (simp add: parsed_insert_none)
      then show ?thesis using True by (cases u) (simp add: upd f insert_slot_def)
    next
      case False
      then have "insert_at p j = unit_data u"
        using parsed_insert_at [of us u parser_empty] assms u by (simp add: units_ok_def)
      then show ?thesis
        using False ok u(2) by (cases u) (auto simp: upd f insert_slot_def call_of_def unit_ok_def)
    qed
  next
    case False
    then have "filter (\<lambda>u. unit_ts u = j) us = []" by (auto simp: filter_empty_conv)
    moreover have "insert_at p j = []" using False by (simp add: assms(2) parsed_insert_none)
    ultimately show ?thesis by (simp add: upd insert_slot_def)
  qed
qed

lemma parsed_bounds:
  assumes "units_ok us" and "p = fold add_unit us parser_empty"
  shows "last_ts p \<noteq> INVALID_TIMESTAMP" and "unat (last_ts p) < length (insert_wal_list p)"
    and "\<forall>u\<in>set us. 1 \<le> unit_ts u \<and> unit_ts u < Suc (unat (last_ts p))"
proof -
  have len: "4096 \<le> length (insert_wal_list p)"
    using parsed_length_mono [of parser_empty us] assms(2) by (simp add: parser_empty_def)
  have "fst u \<noteq> 0" if "u \<in> set us" for u
    using assms(1) that by (auto simp: units_ok_def list_all_iff unit_ok_def)
  then have "0 < unit_ts u" if "u \<in> set us" for u using that by (metis unat_gt_0)
  then show "\<forall>u\<in>set us. 1 \<le> unit_ts u \<and> unit_ts u < Suc (unat (last_ts p))"
    using parsed_last_ge [of _ us parser_empty] assms(2) by (auto simp: Suc_le_eq less_Suc_eq_le)
  have "unat (last_ts p) = 0 \<or> (\<exists>u\<in>set us. unat (last_ts p) = unit_ts u)"
  proof -
    have "fold max xs (0 :: nat) = Max (set (0 # xs))" for xs by (rule Max.set_eq_fold [symmetric])
    then have "unat (last_ts p) = Max (set (0 # map unit_ts us))"
      unfolding assms(2) parsed_last by (simp add: parser_empty_def)
    then have "unat (last_ts p) \<in> set (0 # map unit_ts us)" 
      using Max_in [of "set (0 # map unit_ts us)"] by simp
    then show ?thesis by auto
  qed
  moreover have "unit_ts u < length (insert_wal_list p)" if u: "u \<in> set us" for u
  proof -
    consider "unit_ts u < 4096" | v where "v \<in> set us" "\<not> is_update v" "unit_ts u \<le> unit_ts v"
      using assms(1) u unfolding units_ok_def by blast
    then show ?thesis
    proof cases
      case 2
      then show ?thesis using parsed_length_insert [of v us parser_empty] assms(2) by simp
    qed (use len in simp)
  qed
  moreover have "fst u \<noteq> INVALID_TIMESTAMP" if "u \<in> set us" for u
    using assms(1) that by (auto simp: units_ok_def)
  then have "unit_ts u \<noteq> 2 ^ 32 - 1" if "u \<in> set us" for u
    using that unat_INVALID by (metis word_unat_eq_iff)
  ultimately have "unat (last_ts p) \<noteq> 2 ^ 32 - 1" "unat (last_ts p) < length (insert_wal_list p)"
    using len by auto
  then show "last_ts p \<noteq> INVALID_TIMESTAMP" "unat (last_ts p) < length (insert_wal_list p)"
    using unat_INVALID by auto
qed

lemma parsed_updates_from:
  assumes "units_ok us" and "p = fold add_unit us parser_empty"
  shows "updates_from (p\<lparr>update_wal_list := sort_key fst (update_wal_list p)\<rparr>) 1
    (sort_key fst (update_wal_list p))"
proof -
  let ?l = "sort_key fst (update_wal_list p)"
  have upd: "update_wal_list p = map (\<lambda>u. (fst u, unit_data u)) (filter is_update us)"
    by (simp add: assms(2) parsed_updates parser_empty_def)
  have "distinct (map (\<lambda>u. unat (fst u)) (update_wal_list p))"
    using assms(1) unfolding upd units_ok_def by (simp add: comp_def distinct_map inj_on_def)
  then have "distinct (map (\<lambda>u. unat (fst u)) ?l)"
    by (metis (no_types, lifting) distinct_map distinct_sort set_sort)
  moreover have "sorted (map (\<lambda>u. unat (fst u)) ?l)"
  proof -
    have "sorted_wrt (\<le>) (map fst ?l)" by simp
    then show ?thesis
      unfolding sorted_map by (rule sorted_wrt_mono_rel [rotated]) (simp add: word_le_nat_alt)
  qed
  ultimately have "sorted_wrt (<) (map (\<lambda>u. unat (fst u)) ?l)" by (simp add: strict_sorted_iff)
  moreover have "unat (1 :: timestamp_t) \<le> unat (fst v) \<and> fst v \<noteq> INVALID_TIMESTAMP \<and>
      unat (fst v) \<le> length (insert_wal_list p) \<and> insert_at p (unat (fst v)) = []"
    if v: "v \<in> set ?l" for v
  proof -
    obtain u where u: "u \<in> set us" "is_update u" "fst v = fst u"
      using v by (auto simp: upd)
    have "w = u" if "w \<in> set us" "unit_ts w = unit_ts u" for w
      using assms(1) that u(1) by (auto simp: units_ok_def distinct_map inj_on_def)
    then have "\<forall>w\<in>set us. is_update w \<or> unit_ts w \<noteq> unit_ts u" using u(2) by blast
    then have "insert_at p (unit_ts u) = []" by (simp add: assms(2) parsed_insert_none)
    moreover have "1 \<le> unit_ts u" "unit_ts u \<le> length (insert_wal_list p)"
      using parsed_bounds(2,3) [OF assms] u(1) by force+
    ultimately show ?thesis using u assms(1) by (simp add: units_ok_def)
  qed
  ultimately show ?thesis by (simp add: updates_from_def)
qed

lemma ingest_parsed:
  assumes "units_ok us" and "p = fold add_unit us parser_empty"
    and "q = p\<lparr>update_wal_list := sort_key fst (update_wal_list p)\<rparr>"
  shows "\<exists>cs. ingestWals q = Some cs \<and> filter effective cs = map call_of (sort_key unit_ts us)"
proof -
  define g where "g = (\<lambda>j. filter (\<lambda>u. unit_ts u = j) us)"
  let ?js = "[1..<Suc (unat (last_ts q))]"
  have "\<exists>cs. ingestWals q = Some cs \<and>
      filter effective cs = concat (map (slot q (update_wal_list q)) ?js)"
  proof (rule ingestWals_slots)
    have "update_wal_list p = map (\<lambda>u. (fst u, unit_data u)) (filter is_update us)"
      by (simp add: assms(2) parsed_updates parser_empty_def)
    then show "\<forall>u\<in>set (update_wal_list q). unat (fst u) \<le> unat (last_ts q)"
      using parsed_bounds(3) [OF assms(1,2)] by (auto simp: assms(3) less_Suc_eq_le)
  qed (use parsed_updates_from [OF assms(1,2)] parsed_bounds(1,2) [OF assms(1,2)]
      in \<open>simp_all add: assms(3)\<close>)
  moreover have "slot q (update_wal_list q) = (\<lambda>j. map call_of (g j))"
  proof
    have "insert_slot q j = insert_slot p j" for j by (simp add: insert_slot_def assms(3))
    then show "slot q (update_wal_list q) j = map call_of (g j)" for j
      using parsed_slot [OF assms(1,2), of j] by (simp add: assms(3) g_def)
  qed
  moreover have "concat (map g ?js) = sort_key unit_ts us"
    using parsed_bounds(3) [OF assms(1,2)] unfolding g_def
    by (intro concat_slots_sort_key) (simp add: assms(3))
  moreover have "concat (map (\<lambda>j. map call_of (g j)) ?js) = map call_of (concat (map g ?js))"
    by (simp add: map_concat comp_def)
  ultimately show ?thesis by metis
qed

section \<open>Properties\<close>

text \<open>
  C5. Recovery replays the log: whatever number of threads wrote units into files of their own, in
  whatever interleaving, opening the files and ingesting them makes exactly one call for every unit,
  with its timestamp and its data, in increasing order of timestamps; every other call is on an empty
  slot and does nothing. Timestamps must differ, a unit be shorter than 1 GiB, the file have room for
  its final zero, and no update be later than timestamp 4095 and than every insert.
\<close>

theorem wal_recovery_replays:
  assumes "units_ok (concat logs)" and "list_all log_room logs"
  shows "\<exists>p cs. parser_open (map (\<lambda>us. wal_image (wal_log us)) logs) = Some p \<and>
    ingestWals p = Some cs \<and>
    filter effective cs = map call_of (sort_key (\<lambda>u. unat (fst u)) (concat logs))"
proof -
  have "list_all unit_ok (concat logs)" using assms(1) unfolding units_ok_def by blast
  from parser_open_logs [OF this assms(2)] ingest_parsed [OF assms(1) refl refl]
  show ?thesis unfolding Let_def by blast
qed

theorem wal_recovery_replays_witness:
  "\<exists>p cs. parser_open (map (\<lambda>us. wal_image (wal_log us)) [[(2, False, [2, 1])], [(1, True, [])]]) = Some p \<and>
     ingestWals p = Some cs \<and> filter effective cs = [Compact 1, IngestInsert 2 [2, 1]]"
proof -
  let ?logs = "[[(2, False, [2, 1])], [(1, True, [])]]"
  have "units_ok (concat ?logs)" by (simp add: units_ok_def unit_ok_def INVALID_TIMESTAMP_def)
  moreover have "list_all log_room ?logs"
    by (simp add: log_room_def wal_log_def wal_write_def wal_append_def new_writer_def put_unit_def
        put_header_def TRUNC_SIZE_def)
  ultimately show ?thesis
    using wal_recovery_replays [of ?logs] by (simp add: call_of_def)
qed

lemma parse_file_Nil: "parse_file [] p = None"
  by (subst parse_file.simps) (simp add: get_word_def get_bytes_def)

lemma wal_log_exact:
  assumes "length data = 2 ^ 30 - 8"
  shows "file_used (wal_log [(ts, type, data)]) = TRUNC_SIZE"
    and "file_size (wal_log [(ts, type, data)]) = TRUNC_SIZE"
  using assms
  by (simp_all add: wal_log_def wal_write_def wal_append_def new_writer_def put_unit_def
      put_header_def TRUNC_SIZE_def)

text \<open>
  A file that a unit fills exactly cannot be read: the writer extends a file only when a unit does
  not fit, so a unit that ends at the end of the file leaves no zero timestamp after it, and the
  parser reads past the mapping.
\<close>

theorem wal_full_file_unreadable:
  assumes "ts \<noteq> 0" and "length data = 2 ^ 30 - 8"
  shows "file_used (wal_log [(ts, type, data)]) = file_size (wal_log [(ts, type, data)]) \<and>
    parser_open [wal_image (wal_log [(ts, type, data)])] = None"
proof -
  have "data \<noteq> []" using assms(2) by auto
  then have "unit_ok (ts, type, data)" using assms by (simp add: unit_ok_def)
  then have "parse_file (put_unit (ts, type, data) @ []) p = None" for p
    by (simp only: parse_unit parse_file_Nil)
  then show ?thesis
    using \<open>data \<noteq> []\<close>
    by (simp add: wal_log_exact [OF assms(2)] wal_image_log parser_open_def)
      (simp add: put_unit_def)
qed

theorem wal_full_file_unreadable_witness:
  "parser_open [wal_image (wal_log [(7, True, replicate (2 ^ 30 - 8) 1)])] = None"
proof -
  have "length (replicate (2 ^ 30 - 8) (1 :: 8 word)) = 2 ^ 30 - 8" by (rule length_replicate)
  from wal_full_file_unreadable [OF _ this, of 7 True] show ?thesis by simp
qed

lemma ingest_list_out_of_range:
  "j \<in> set js \<Longrightarrow> length (insert_wal_list p) \<le> j \<Longrightarrow> ingest_list p js = None"
  by (induction js) (auto simp: get_insert_wal_def split: Option.bind_splits)

text \<open>
  A late update breaks recovery: the vector of insert units has 4096 slots and only grows with
  insert units, but before an update is replayed every earlier slot is read. With a single update
  unit after timestamp 4096 in the log, recovery reads past the end of the vector.
\<close>

theorem wal_late_update_out_of_range:
  assumes "4096 < unat ts" and "length data < 2 ^ 30 - 16"
  shows "\<exists>p. parser_open [wal_image (wal_log [(ts, True, data)])] = Some p \<and> ingestWals p = None"
proof -
  let ?p = "fold add_unit [(ts, True, data)] parser_empty"
  have ts: "ts \<noteq> 0" using assms(1) by auto
  have "log_room [(ts, True, data)]"
    using assms(2) by (simp add: log_room_def wal_log_def wal_write_def wal_append_def new_writer_def
        put_unit_def put_header_def TRUNC_SIZE_def)
  then have "parser_open [wal_image (wal_log [(ts, True, data)])]
      = Some (?p\<lparr>update_wal_list := sort_key fst (update_wal_list ?p)\<rparr>)"
    using parser_open_logs [of "[[(ts, True, data)]]"] assms(2) ts by (simp add: unit_ok_def Let_def)
  moreover have "ingestWals (?p\<lparr>update_wal_list := sort_key fst (update_wal_list ?p)\<rparr>) = None"
  proof -
    have "ingest_list q [unat 1..<unat ts] = None" if "length (insert_wal_list q) = 4096" for q
      using that assms(1) by (intro ingest_list_out_of_range [of 4096]) auto
    moreover have "1 < ts" using assms(1) by (simp add: word_less_nat_alt)
    ultimately show ?thesis
      by (simp add: ingestWals_def IngestWalRange_def add_unit_def parser_empty_def)
  qed
  ultimately show ?thesis by blast
qed

theorem wal_late_update_out_of_range_witness:
  "\<exists>p. parser_open [wal_image (wal_log [(5000, True, [6])])] = Some p \<and> ingestWals p = None"
  using wal_late_update_out_of_range [of 5000 "[6]"] by simp

end
