(* ===== verification/Mutable_Csr.thy ===== *)
theory Mutable_Csr
  imports Prelude "HOL-Library.Monad_Syntax"
begin

text \<open>
  Adjacency lists with timestamps: \<^verbatim>\<open>storages/csr/mutable_csr.h\<close> and \<^verbatim>\<open>.cc\<close>, both
  \<^verbatim>\<open>MutableCsr\<close> (any number of edges per vertex) and \<^verbatim>\<open>SingleMutableCsr\<close> (at most one),
  and the readers of \<^verbatim>\<open>generic_view.h\<close>. An edge carries the timestamp of its insertion; a
  deleted edge keeps its place with the invalid timestamp until compaction.

  A row is the entries below its size and its capacity; the entries between size and capacity are
  never read before they are written, and a null buffer is a row without entries. An exception is
  \<open>None\<close>, and so is a negative offset, which the code does not test and which reads before the
  buffer; in \<^verbatim>\<open>SingleMutableCsr\<close> so is an offset other than zero, which the code only asserts. The edge counter is 64 bits wide
  and wraps. The capacity after a bulk load, computed from a ratio in the generated configuration
  header, is the argument \<open>reserve\<close>.

  The locale \<open>edge_store\<close> is the contract of both classes for single edges: what put, delete and
  revert do to the edge at a position and to the counter. That the counter is the number of live
  edges after any sequence of these operations is proved once and holds for both. For the bulk
  operations it is shown exactly when they keep the counter, class by class.
\<close>

section \<open>Rows and edges\<close>

record 'd nbr =
  neighbor :: vid_t
  nts :: timestamp_t
  ndata :: 'd

abbreviation live :: "'d nbr \<Rightarrow> bool" where
  "live e \<equiv> nts e \<noteq> INVALID_TIMESTAMP"

record 'd row =
  nbrs :: "'d nbr list"
  cap :: nat

record 'd csr =
  rows :: "'d row list"
  edge_num :: "64 word"
  unsorted_since :: timestamp_t

definition vertex_capacity :: "'d csr \<Rightarrow> nat" where
  "vertex_capacity c = length (rows c)"

definition put_edge :: "vid_t \<Rightarrow> vid_t \<Rightarrow> 'd \<Rightarrow> timestamp_t \<Rightarrow> 'd csr \<Rightarrow> (nat \<times> 'd csr) option" where
  "put_edge src dst data ts c =
     (if unat src \<ge> vertex_capacity c then None
      else let r = rows c ! unat src;
               sz = length (nbrs r);
               r = (if sz = cap r then r\<lparr>cap := max (cap r + cap r div 2) 8\<rparr> else r);
               r = r\<lparr>nbrs := nbrs r @ [\<lparr>neighbor = dst, nts = ts, ndata = data\<rparr>]\<rparr>
           in Some (sz, c\<lparr>rows := (rows c)[unat src := r], edge_num := edge_num c + 1\<rparr>))"

definition export_row :: "nat \<Rightarrow> 'd row \<Rightarrow> (vid_t \<times> vid_t \<times> 'd) list" where
  "export_row src r = map (\<lambda>e. (of_nat src, neighbor e, ndata e)) (filter live (nbrs r))"

definition batch_export :: "'d csr \<Rightarrow> (vid_t \<times> vid_t \<times> 'd) list" where
  "batch_export c = concat (map2 export_row [0..<vertex_capacity c] (rows c))"

definition reset_timestamp :: "'d csr \<Rightarrow> 'd csr" where
  "reset_timestamp c =
     c\<lparr>rows := map (\<lambda>r. r\<lparr>nbrs := map (\<lambda>e. if live e then e\<lparr>nts := 0\<rparr> else e) (nbrs r)\<rparr>) (rows c)\<rparr>"

text \<open>Compaction changes the rows first and then throws if the counter disagrees.\<close>

definition total_size :: "'d csr \<Rightarrow> nat" where
  "total_size c = sum_list (map (\<lambda>r. length (nbrs r)) (rows c))"

definition compact :: "'d csr \<Rightarrow> bool \<times> 'd csr" where
  "compact c =
     (let c' = c\<lparr>rows := map (\<lambda>r. r\<lparr>nbrs := filter live (nbrs r)\<rparr>) (rows c)\<rparr>
      in (of_nat (total_size c') = edge_num c, c'))"

definition csr_resize :: "nat \<Rightarrow> 'd csr \<Rightarrow> 'd csr" where
  "csr_resize vnum c =
     c\<lparr>rows := take vnum (rows c) @ replicate (vnum - vertex_capacity c) \<lparr>nbrs = [], cap = 0\<rparr>\<rparr>"

text \<open>Sorting leaves the order of edges with equal data open; the model keeps it.\<close>

definition batch_sort_by_edge_data :: "timestamp_t \<Rightarrow> 'd::linorder csr \<Rightarrow> 'd csr" where
  "batch_sort_by_edge_data ts c =
     c\<lparr>rows := map (\<lambda>r. r\<lparr>nbrs := sort_key ndata (nbrs r)\<rparr>) (rows c), unsorted_since := ts\<rparr>"

definition live_count :: "'d nbr list \<Rightarrow> nat" where
  "live_count es = length (filter live es)"

definition clear_sources :: "vid_t set \<Rightarrow> 'd csr \<Rightarrow> 'd csr" where
  "clear_sources src_set c =
     (let hit = (\<lambda>i. of_nat i \<in> src_set)
      in c\<lparr>rows := map (\<lambda>(i, r). if hit i then r\<lparr>nbrs := []\<rparr> else r)
                    (zip [0..<vertex_capacity c] (rows c)),
           edge_num := edge_num c -
             of_nat (sum_list (map (\<lambda>(i, r). if hit i then live_count (nbrs r) else 0)
               (zip [0..<vertex_capacity c] (rows c))))\<rparr>)"

definition drop_targets :: "vid_t set \<Rightarrow> 'd csr \<Rightarrow> 'd csr" where
  "drop_targets dst_set c =
     (let hit = (\<lambda>e. neighbor e \<in> dst_set)
      in c\<lparr>rows := map (\<lambda>r. r\<lparr>nbrs := filter (\<lambda>e. \<not> hit e) (nbrs r)\<rparr>) (rows c),
           edge_num := edge_num c -
             of_nat (sum_list (map (\<lambda>r. live_count (filter hit (nbrs r))) (rows c)))\<rparr>)"

definition batch_delete_vertices :: "vid_t set \<Rightarrow> vid_t set \<Rightarrow> 'd csr \<Rightarrow> 'd csr" where
  "batch_delete_vertices src_set dst_set c = drop_targets dst_set (clear_sources src_set c)"

definition mark_deleted :: "'d nbr \<Rightarrow> 'd nbr" where
  "mark_deleted e = e\<lparr>nts := INVALID_TIMESTAMP\<rparr>"

text \<open>Deleting the edges between given endpoints, row by row, and by position.\<close>

definition batch_delete_edges :: "(vid_t \<times> vid_t) list \<Rightarrow> 'd csr \<Rightarrow> 'd csr" where
  "batch_delete_edges edges c =
     (let hit = (\<lambda>i e. (of_nat i, neighbor e) \<in> set edges);
          irs = zip [0..<vertex_capacity c] (rows c)
      in c\<lparr>rows := map (\<lambda>(i, r). r\<lparr>nbrs := map (\<lambda>e. if hit i e then mark_deleted e else e) (nbrs r)\<rparr>) irs,
           edge_num := edge_num c -
             of_nat (sum_list (map (\<lambda>(i, r). length (filter (hit i) (nbrs r))) irs))\<rparr>)"

definition delete_offset :: "vid_t \<Rightarrow> nat \<Rightarrow> 'd csr \<Rightarrow> 'd csr" where
  "delete_offset src offset c =
     (let r = rows c ! unat src; e = nbrs r ! offset
      in c\<lparr>rows := (rows c)[unat src := r\<lparr>nbrs := (nbrs r)[offset := mark_deleted e]\<rparr>],
           edge_num := (if live e then edge_num c - 1 else edge_num c)\<rparr>)"

definition batch_delete_offsets :: "(vid_t \<times> int) list \<Rightarrow> 'd csr \<Rightarrow> 'd csr option" where
  "batch_delete_offsets edges c =
     (let inside = (\<lambda>(src, offset). unat src < vertex_capacity c \<and>
            offset < int (length (nbrs (rows c ! unat src))));
          todo = remdups (filter inside edges)
      in if \<exists>(src, offset) \<in> set todo. offset < 0 then None
         else Some (fold (\<lambda>(src, offset). delete_offset src (nat offset)) todo c))"

definition delete_edge :: "vid_t \<Rightarrow> int \<Rightarrow> timestamp_t \<Rightarrow> 'd csr \<Rightarrow> 'd csr option" where
  "delete_edge src offset ts c =
     (if unat src \<ge> vertex_capacity c \<or> offset \<ge> int (length (nbrs (rows c ! unat src))) then None
      else if offset < 0 then None
      else let r = rows c ! unat src; e = nbrs r ! nat offset
           in if nts e \<le> ts
              then Some (c\<lparr>rows := (rows c)[unat src := r\<lparr>nbrs := (nbrs r)[nat offset := mark_deleted e]\<rparr>],
                          edge_num := edge_num c - 1\<rparr>)
              else Some c)"

definition revert_delete_edge :: "vid_t \<Rightarrow> vid_t \<Rightarrow> int \<Rightarrow> timestamp_t \<Rightarrow> 'd csr \<Rightarrow> 'd csr option" where
  "revert_delete_edge src v offset ts c =
     (if unat src \<ge> vertex_capacity c \<or> offset \<ge> int (length (nbrs (rows c ! unat src))) then None
      else if offset < 0 then None
      else let r = rows c ! unat src; e = nbrs r ! nat offset
           in if neighbor e \<noteq> v then None
              else if nts e = INVALID_TIMESTAMP
              then Some (c\<lparr>rows := (rows c)[unat src := r\<lparr>nbrs := (nbrs r)[nat offset := e\<lparr>nts := ts\<rparr>]\<rparr>],
                          edge_num := edge_num c + 1\<rparr>)
              else None)"

definition append_edge :: "timestamp_t \<Rightarrow> vid_t \<times> vid_t \<times> 'd \<Rightarrow> 'd csr \<Rightarrow> 'd csr" where
  "append_edge ts edge c =
     (case edge of (src, dst, data) \<Rightarrow>
        if unat src \<ge> vertex_capacity c then c
        else let r = rows c ! unat src
             in c\<lparr>rows := (rows c)[unat src :=
                    r\<lparr>nbrs := nbrs r @ [\<lparr>neighbor = dst, nts = ts, ndata = data\<rparr>]\<rparr>],
                  edge_num := edge_num c + 1\<rparr>)"

definition batch_put_edges ::
  "(nat \<Rightarrow> nat) \<Rightarrow> (vid_t \<times> vid_t \<times> 'd) list \<Rightarrow> timestamp_t \<Rightarrow> 'd csr \<Rightarrow> 'd csr" where
  "batch_put_edges reserve edges ts c =
     (if vertex_capacity c = 0 then c
      else let degree = (\<lambda>i. length (filter (\<lambda>(src, _). unat src = i) edges));
               c = c\<lparr>rows := map (\<lambda>(i, r). r\<lparr>cap := reserve (degree i + length (nbrs r))\<rparr>)
                       (zip [0..<vertex_capacity c] (rows c))\<rparr>
           in fold (append_edge ts) edges c)"

section \<open>Snapshots\<close>

text \<open>
  The files of a snapshot: the counter and the sort limit, the degrees, the capacities when one
  differs from its degree, and for each row as many cells as its capacity, \<open>None\<close> where the content
  is left over.
\<close>

record 'd csr_snapshot =
  meta :: "timestamp_t \<times> 64 word"
  degree_list :: "nat list"
  cap_list :: "nat list option"
  nbr_file :: "'d nbr option list"

definition csr_dump :: "'d csr \<Rightarrow> 'd csr_snapshot" where
  "csr_dump c =
     \<lparr>meta = (unsorted_since c, edge_num c),
      degree_list = map (\<lambda>r. length (nbrs r)) (rows c),
      cap_list = (if \<exists>r\<in>set (rows c). length (nbrs r) \<noteq> cap r then Some (map cap (rows c)) else None),
      nbr_file = concat (map (\<lambda>r. map Some (nbrs r) @ replicate (cap r - length (nbrs r)) None) (rows c))\<rparr>"

fun split_rows :: "nat list \<Rightarrow> nat list \<Rightarrow> 'd nbr option list \<Rightarrow> 'd row list option" where
  "split_rows [] [] cells = Some []"
| "split_rows (deg # degs) (cp # caps) cells =
     do { es \<leftarrow> those (take deg cells);
          rs \<leftarrow> split_rows degs caps (drop cp cells);
          Some (\<lparr>nbrs = es, cap = cp\<rparr> # rs) }"
| "split_rows _ _ cells = None"

definition csr_open :: "'d csr_snapshot \<Rightarrow> 'd csr option" where
  "csr_open s =
     do { rs \<leftarrow> split_rows (degree_list s)
                 (case cap_list s of None \<Rightarrow> degree_list s | Some l \<Rightarrow> l) (nbr_file s);
          if snd (meta s) \<noteq> of_nat (sum_list (degree_list s)) then None
          else Some \<lparr>rows = rs, edge_num = snd (meta s), unsorted_since = fst (meta s)\<rparr> }"

section \<open>Readers\<close>

text \<open>
  The iterator over a row at a timestamp: \<open>seek\<close> skips the entries that are later, after
  \<^verbatim>\<open>init\<close> and after each \<^verbatim>\<open>operator++\<close>.
\<close>

fun seek :: "timestamp_t \<Rightarrow> 'd nbr list \<Rightarrow> 'd nbr list" where
  "seek ts [] = []"
| "seek ts (e # es) = (if nts e > ts then seek ts es else e # es)"

definition iter_next :: "timestamp_t \<Rightarrow> 'd nbr list \<Rightarrow> 'd nbr list" where
  "iter_next ts cur = seek ts (tl cur)"

primrec iter_plus :: "timestamp_t \<Rightarrow> nat \<Rightarrow> 'd nbr list \<Rightarrow> 'd nbr list" where
  "iter_plus ts 0 cur = cur"
| "iter_plus ts (Suc n) cur = iter_plus ts n (iter_next ts cur)"

lemma length_seek: "length (seek ts es) \<le> length es"
  by (induction es) auto

function iterate :: "timestamp_t \<Rightarrow> 'd nbr list \<Rightarrow> 'd nbr list" where
  "iterate ts cur = (case cur of [] \<Rightarrow> [] | e # es \<Rightarrow> e # iterate ts (iter_next ts cur))"
  by pat_completeness auto
termination
  by (relation "measure (length \<circ> snd)") (auto simp: iter_next_def le_imp_less_Suc length_seek)

declare iterate.simps [simp del]

definition get_edges :: "timestamp_t \<Rightarrow> vid_t \<Rightarrow> 'd csr \<Rightarrow> 'd nbr list" where
  "get_edges ts v c = iterate ts (seek ts (nbrs (rows c ! unat v)))"

text \<open>
  The readers that use the sort order go through a row from its end. Entries not older than
  \<^verbatim>\<open>unsorted_since\<close> are looked at one by one; from the first older entry on, the row is
  taken as sorted.
\<close>

fun scan_gt :: "timestamp_t \<Rightarrow> timestamp_t \<Rightarrow> 'd::linorder \<Rightarrow> 'd nbr list \<Rightarrow> 'd nbr list" where
  "scan_gt ts since threshold [] = []"
| "scan_gt ts since threshold (e # es) =
     (if nts e > ts then scan_gt ts since threshold es
      else if nts e < since then takeWhile (\<lambda>e. threshold < ndata e) (e # es)
      else (if threshold < ndata e then [e] else []) @ scan_gt ts since threshold es)"

fun scan_lt :: "timestamp_t \<Rightarrow> timestamp_t \<Rightarrow> 'd::linorder \<Rightarrow> 'd nbr list \<Rightarrow> 'd nbr list" where
  "scan_lt ts since threshold [] = []"
| "scan_lt ts since threshold (e # es) =
     (if nts e > ts then scan_lt ts since threshold es
      else if nts e < since then dropWhile (\<lambda>e. threshold < ndata e) (e # es)
      else (if threshold > ndata e then [e] else []) @ scan_lt ts since threshold es)"

definition foreach_nbr_gt :: "timestamp_t \<Rightarrow> vid_t \<Rightarrow> 'd::linorder \<Rightarrow> 'd csr \<Rightarrow> 'd nbr list" where
  "foreach_nbr_gt ts v threshold c =
     scan_gt ts (unsorted_since c) threshold (rev (nbrs (rows c ! unat v)))"

definition foreach_nbr_lt :: "timestamp_t \<Rightarrow> vid_t \<Rightarrow> 'd::linorder \<Rightarrow> 'd csr \<Rightarrow> 'd nbr list" where
  "foreach_nbr_lt ts v threshold c =
     scan_lt ts (unsorted_since c) threshold (rev (nbrs (rows c ! unat v)))"

section \<open>At most one edge per vertex\<close>

text \<open>
  \<^verbatim>\<open>SingleMutableCsr\<close>: one entry per vertex, absent while its timestamp is invalid. \<open>fill\<close> is
  what new memory holds.
\<close>

record 'd single_csr =
  entries :: "'d nbr list"
  s_edge_num :: "64 word"

definition s_resize :: "'d nbr \<Rightarrow> nat \<Rightarrow> 'd single_csr \<Rightarrow> 'd single_csr" where
  "s_resize fill vnum c =
     c\<lparr>entries := take vnum (entries c) @ replicate (vnum - length (entries c)) (mark_deleted fill)\<rparr>"

definition s_put_edge ::
  "vid_t \<Rightarrow> vid_t \<Rightarrow> 'd \<Rightarrow> timestamp_t \<Rightarrow> 'd single_csr \<Rightarrow> (nat \<times> 'd single_csr) option" where
  "s_put_edge src dst data ts c =
     (if unat src \<ge> length (entries c) then None
      else if live (entries c ! unat src) then None
      else Some (0, c\<lparr>entries := (entries c)[unat src := \<lparr>neighbor = dst, nts = ts, ndata = data\<rparr>],
                     s_edge_num := s_edge_num c + 1\<rparr>))"

definition s_reset_timestamp :: "'d single_csr \<Rightarrow> 'd single_csr" where
  "s_reset_timestamp c = c\<lparr>entries := map (\<lambda>e. if live e then e\<lparr>nts := 0\<rparr> else e) (entries c)\<rparr>"

definition s_mark :: "vid_t \<Rightarrow> 'd single_csr \<Rightarrow> 'd single_csr" where
  "s_mark v c =
     (let e = entries c ! unat v
      in c\<lparr>entries := (entries c)[unat v := mark_deleted e],
           s_edge_num := (if live e then s_edge_num c - 1 else s_edge_num c)\<rparr>)"

definition s_batch_delete_vertices :: "vid_t list \<Rightarrow> vid_t set \<Rightarrow> 'd single_csr \<Rightarrow> 'd single_csr" where
  "s_batch_delete_vertices src_set dst_set c =
     (let c = fold (\<lambda>src c. if unat src < length (entries c) then s_mark src c else c) src_set c
      in fold (\<lambda>v c. if neighbor (entries c ! v) \<in> dst_set then s_mark (of_nat v) c else c)
           [0..<length (entries c)] c)"

definition s_batch_delete_edges :: "(vid_t \<times> vid_t) list \<Rightarrow> 'd single_csr \<Rightarrow> 'd single_csr" where
  "s_batch_delete_edges edges c =
     fold (\<lambda>(src, dst) c. if unat src < length (entries c) \<and> neighbor (entries c ! unat src) = dst
             then s_mark src c else c) edges c"

definition s_batch_delete_offsets :: "vid_t list \<Rightarrow> 'd single_csr \<Rightarrow> 'd single_csr" where
  "s_batch_delete_offsets srcs c =
     fold (\<lambda>src c. if unat src < length (entries c)
             then c\<lparr>entries := (entries c)[unat src := mark_deleted (entries c ! unat src)],
                    s_edge_num := s_edge_num c - 1\<rparr>
             else c) srcs c"

definition s_delete_edge :: "vid_t \<Rightarrow> int \<Rightarrow> timestamp_t \<Rightarrow> 'd single_csr \<Rightarrow> 'd single_csr option" where
  "s_delete_edge src offset ts c =
     (if unat src \<ge> length (entries c) \<or> offset \<noteq> 0 then None
      else let e = entries c ! unat src
           in if nts e \<le> ts
              then Some (c\<lparr>entries := (entries c)[unat src := mark_deleted e],
                          s_edge_num := s_edge_num c - 1\<rparr>)
              else Some c)"

definition s_revert_delete_edge ::
  "vid_t \<Rightarrow> vid_t \<Rightarrow> int \<Rightarrow> timestamp_t \<Rightarrow> 'd single_csr \<Rightarrow> 'd single_csr option" where
  "s_revert_delete_edge src v offset ts c =
     (if unat src \<ge> length (entries c) \<or> offset \<noteq> 0 then None
      else let e = entries c ! unat src
           in if neighbor e \<noteq> v then None
              else if nts e = INVALID_TIMESTAMP
              then Some (c\<lparr>entries := (entries c)[unat src := e\<lparr>nts := ts\<rparr>],
                          s_edge_num := s_edge_num c + 1\<rparr>)
              else None)"

definition s_batch_put_edges ::
  "(vid_t \<times> vid_t \<times> 'd) list \<Rightarrow> timestamp_t \<Rightarrow> 'd single_csr \<Rightarrow> 'd single_csr" where
  "s_batch_put_edges edges ts c =
     fold (\<lambda>(src, dst, data) c. if unat src < length (entries c)
             then c\<lparr>entries := (entries c)[unat src := \<lparr>neighbor = dst, nts = ts, ndata = data\<rparr>],
                    s_edge_num := s_edge_num c + 1\<rparr>
             else c) edges c"

section \<open>The contract for single edges\<close>

text \<open>The positions that hold an edge, and the edge with a new entry at one position.\<close>

definition edge_set :: "(nat \<Rightarrow> nat \<Rightarrow> 'd nbr option) \<Rightarrow> (nat \<times> nat) set" where
  "edge_set at = {(s, k). at s k \<noteq> None}"

definition set_edge :: "nat \<Rightarrow> nat \<Rightarrow> 'd nbr option \<Rightarrow> (nat \<Rightarrow> nat \<Rightarrow> 'd nbr option) \<Rightarrow>
    nat \<Rightarrow> nat \<Rightarrow> 'd nbr option" where
  "set_edge s k x at = (\<lambda>s' k'. if s' = s \<and> k' = k then x else at s' k')"

lemma edge_set_None: "edge_set (set_edge s k None at) = edge_set at - {(s, k)}"
  by (auto simp: edge_set_def set_edge_def split: if_splits)

lemma edge_set_Some: "edge_set (set_edge s k (Some e) at) = insert (s, k) (edge_set at)"
  by (auto simp: edge_set_def set_edge_def split: if_splits)

datatype 'd csr_op =
    Put vid_t vid_t 'd timestamp_t
  | Del vid_t int timestamp_t
  | Revert vid_t vid_t int timestamp_t

fun run_ops :: "(vid_t \<Rightarrow> vid_t \<Rightarrow> 'd \<Rightarrow> timestamp_t \<Rightarrow> 's \<Rightarrow> (nat \<times> 's) option) \<Rightarrow>
    (vid_t \<Rightarrow> int \<Rightarrow> timestamp_t \<Rightarrow> 's \<Rightarrow> 's option) \<Rightarrow>
    (vid_t \<Rightarrow> vid_t \<Rightarrow> int \<Rightarrow> timestamp_t \<Rightarrow> 's \<Rightarrow> 's option) \<Rightarrow> 'd csr_op list \<Rightarrow> 's \<Rightarrow> 's option" where
  "run_ops put del revert [] s = Some s"
| "run_ops put del revert (Put src dst d ts # ops) s =
     do { (_, s') \<leftarrow> put src dst d ts s; run_ops put del revert ops s' }"
| "run_ops put del revert (Del src off ts # ops) s =
     do { s' \<leftarrow> del src off ts s; run_ops put del revert ops s' }"
| "run_ops put del revert (Revert src v off ts # ops) s =
     do { s' \<leftarrow> revert src v off ts s; run_ops put del revert ops s' }"

definition op_valid :: "'d csr_op \<Rightarrow> bool" where
  "op_valid op = (case op of Put _ _ _ ts \<Rightarrow> ts \<noteq> INVALID_TIMESTAMP | Del _ _ ts \<Rightarrow> ts \<noteq> INVALID_TIMESTAMP
     | Revert _ _ _ ts \<Rightarrow> ts \<noteq> INVALID_TIMESTAMP)"

locale edge_store =
  fixes edge_at :: "'s \<Rightarrow> nat \<Rightarrow> nat \<Rightarrow> 'd nbr option"
    and num :: "'s \<Rightarrow> 64 word"
    and put :: "vid_t \<Rightarrow> vid_t \<Rightarrow> 'd \<Rightarrow> timestamp_t \<Rightarrow> 's \<Rightarrow> (nat \<times> 's) option"
    and del :: "vid_t \<Rightarrow> int \<Rightarrow> timestamp_t \<Rightarrow> 's \<Rightarrow> 's option"
    and revert :: "vid_t \<Rightarrow> vid_t \<Rightarrow> int \<Rightarrow> timestamp_t \<Rightarrow> 's \<Rightarrow> 's option"
  assumes finite_edges: "finite (edge_set (edge_at c))"
    and put_law: "put src dst d ts c = Some (k, c') \<Longrightarrow> ts \<noteq> INVALID_TIMESTAMP \<Longrightarrow>
      edge_at c (unat src) k = None \<and> num c' = num c + 1 \<and>
      edge_at c' = set_edge (unat src) k (Some \<lparr>neighbor = dst, nts = ts, ndata = d\<rparr>) (edge_at c)"
    and del_hit: "del src off ts c = Some c' \<Longrightarrow> ts \<noteq> INVALID_TIMESTAMP \<Longrightarrow>
      edge_at c (unat src) (nat off) = Some e \<Longrightarrow> nts e \<le> ts \<Longrightarrow>
      num c' = num c - 1 \<and> edge_at c' = set_edge (unat src) (nat off) None (edge_at c)"
    and del_miss: "del src off ts c = Some c' \<Longrightarrow> ts \<noteq> INVALID_TIMESTAMP \<Longrightarrow>
      (\<And>e. edge_at c (unat src) (nat off) = Some e \<Longrightarrow> ts < nts e) \<Longrightarrow> c' = c"
    and revert_law: "revert src v off ts c = Some c' \<Longrightarrow> ts \<noteq> INVALID_TIMESTAMP \<Longrightarrow>
      num c' = num c + 1 \<and> edge_at c (unat src) (nat off) = None \<and>
      (\<exists>d. edge_at c' = set_edge (unat src) (nat off) (Some \<lparr>neighbor = v, nts = ts, ndata = d\<rparr>) (edge_at c))"
begin

lemma put_counts:
  assumes "put src dst d ts c = Some (off, c')" and "ts \<noteq> INVALID_TIMESTAMP"
    and "num c = of_nat (card (edge_set (edge_at c)))"
  shows "num c' = of_nat (card (edge_set (edge_at c')))"
proof -
  have "(unat src, off) \<notin> edge_set (edge_at c)"
    using put_law [OF assms(1,2)] by (simp add: edge_set_def)
  then show ?thesis
    using put_law [OF assms(1,2)] assms(3) finite_edges [of c] by (simp add: edge_set_Some)
qed

lemma del_counts:
  assumes "del src off ts c = Some c'" and "ts \<noteq> INVALID_TIMESTAMP"
    and "num c = of_nat (card (edge_set (edge_at c)))"
  shows "num c' = of_nat (card (edge_set (edge_at c')))"
proof (cases "\<exists>e. edge_at c (unat src) (nat off) = Some e \<and> nts e \<le> ts")
  case True
  then obtain e where e: "edge_at c (unat src) (nat off) = Some e" "nts e \<le> ts" by blast
  then have m: "(unat src, nat off) \<in> edge_set (edge_at c)" by (simp add: edge_set_def)
  then have "0 < card (edge_set (edge_at c))" using finite_edges card_gt_0_iff by blast
  then show ?thesis
    using del_hit [OF assms(1,2) e] assms(3) finite_edges [of c] m
    by (simp add: edge_set_None card_Diff_singleton of_nat_diff Suc_leI)
next
  case False
  then have "c' = c" using del_miss [OF assms(1,2)] by (metis not_le_imp_less)
  then show ?thesis using assms(3) by simp
qed

lemma revert_counts:
  assumes "revert src v off ts c = Some c'" and "ts \<noteq> INVALID_TIMESTAMP"
    and "num c = of_nat (card (edge_set (edge_at c)))"
  shows "num c' = of_nat (card (edge_set (edge_at c')))"
proof -
  have "(unat src, nat off) \<notin> edge_set (edge_at c)"
    using revert_law [OF assms(1,2)] by (simp add: edge_set_def)
  then show ?thesis
    using revert_law [OF assms(1,2)] assms(3) finite_edges [of c] by (auto simp: edge_set_Some)
qed

lemma run_counts:
  assumes "run_ops put del revert ops c = Some c'" and "list_all op_valid ops"
    and "num c = of_nat (card (edge_set (edge_at c)))"
  shows "num c' = of_nat (card (edge_set (edge_at c')))"
  using assms
proof (induction ops arbitrary: c)
  case (Cons op ops)
  then show ?case
    by (cases op) (auto simp: op_valid_def split: Option.bind_splits dest: put_counts del_counts revert_counts)
qed simp

end

section \<open>Both classes keep the contract\<close>

definition csr_edge_at :: "'d csr \<Rightarrow> nat \<Rightarrow> nat \<Rightarrow> 'd nbr option" where
  "csr_edge_at c s k =
     (if s < length (rows c) \<and> k < length (nbrs (rows c ! s)) \<and> live (nbrs (rows c ! s) ! k)
      then Some (nbrs (rows c ! s) ! k) else None)"

lemma csr_edge_at_update:
  assumes "s < length (rows c)" and "k < length (nbrs (rows c ! s))"
  shows "csr_edge_at (c\<lparr>rows := (rows c)[s := r\<lparr>nbrs := (nbrs (rows c ! s))[k := e]\<rparr>], edge_num := n\<rparr>) =
    set_edge s k (if live e then Some e else None) (csr_edge_at c)"
  using assms by (auto simp: csr_edge_at_def set_edge_def fun_eq_iff nth_list_update)

lemma csr_edge_at_append:
  assumes "s < length (rows c)" and "live e"
  shows "csr_edge_at (c\<lparr>rows := (rows c)[s := r\<lparr>nbrs := nbrs (rows c ! s) @ [e]\<rparr>], edge_num := n\<rparr>) =
    set_edge s (length (nbrs (rows c ! s))) (Some e) (csr_edge_at c)"
  using assms by (auto simp: csr_edge_at_def set_edge_def fun_eq_iff nth_list_update nth_append less_Suc_eq)

lemma csr_edge_set:
  "edge_set (csr_edge_at c) =
     (SIGMA s:{..<length (rows c)}. {k. k < length (nbrs (rows c ! s)) \<and> live (nbrs (rows c ! s) ! k)})"
  by (auto simp: edge_set_def csr_edge_at_def split: if_splits)

lemma csr_edge_set_finite: "finite (edge_set (csr_edge_at c))"
  by (simp add: csr_edge_set)

lemma mark_deleted_simps [simp]:
  "\<not> live (mark_deleted e)" "neighbor (mark_deleted e) = neighbor e" "ndata (mark_deleted e) = ndata e"
  "(mark_deleted e)\<lparr>nts := ts\<rparr> = e\<lparr>nts := ts\<rparr>"
  by (simp_all add: mark_deleted_def)

lemma delete_edge_cases:
  assumes "delete_edge src off ts c = Some c'"
  shows "unat src < length (rows c)" and "0 \<le> off" and "nat off < length (nbrs (rows c ! unat src))"
    and "let r = rows c ! unat src; e = nbrs r ! nat off
      in if nts e \<le> ts
         then c' = c\<lparr>rows := (rows c)[unat src := r\<lparr>nbrs := (nbrs r)[nat off := mark_deleted e]\<rparr>],
                edge_num := edge_num c - 1\<rparr>
         else c' = c"
  using assms by (auto simp: delete_edge_def vertex_capacity_def Let_def split: if_splits)

lemma revert_delete_edge_cases:
  assumes "revert_delete_edge src v off ts c = Some c'"
  shows "unat src < length (rows c)" and "0 \<le> off" and "nat off < length (nbrs (rows c ! unat src))"
    and "let r = rows c ! unat src; e = nbrs r ! nat off
      in neighbor e = v \<and> \<not> live e \<and>
         c' = c\<lparr>rows := (rows c)[unat src := r\<lparr>nbrs := (nbrs r)[nat off := e\<lparr>nts := ts\<rparr>]\<rparr>],
                edge_num := edge_num c + 1\<rparr>"
  using assms by (auto simp: revert_delete_edge_def vertex_capacity_def Let_def split: if_splits)

lemma delete_edge_hit:
  assumes "delete_edge src off ts c = Some c'"
    and "csr_edge_at c (unat src) (nat off) = Some e" and "nts e \<le> ts"
  shows "edge_num c' = edge_num c - 1"
    and "csr_edge_at c' = set_edge (unat src) (nat off) None (csr_edge_at c)"
    and "c' = c\<lparr>rows := (rows c)[unat src := (rows c ! unat src)\<lparr>nbrs :=
      (nbrs (rows c ! unat src))[nat off := mark_deleted e]\<rparr>], edge_num := edge_num c - 1\<rparr>"
    and "unat src < length (rows c)" and "0 \<le> off" and "nat off < length (nbrs (rows c ! unat src))"
proof -
  note d = delete_edge_cases [OF assms(1)]
  have e: "nbrs (rows c ! unat src) ! nat off = e"
    using assms(2) by (auto simp: csr_edge_at_def split: if_splits)
  then show c': "c' = c\<lparr>rows := (rows c)[unat src := (rows c ! unat src)\<lparr>nbrs :=
      (nbrs (rows c ! unat src))[nat off := mark_deleted e]\<rparr>], edge_num := edge_num c - 1\<rparr>"
    using d(4) assms(3) by (simp add: Let_def)
  show "csr_edge_at c' = set_edge (unat src) (nat off) None (csr_edge_at c)"
    unfolding c' csr_edge_at_update [OF d(1,3)] by simp
  show "edge_num c' = edge_num c - 1" by (simp add: c')
  show "unat src < length (rows c)" "0 \<le> off" "nat off < length (nbrs (rows c ! unat src))" by (rule d)+
qed

lemma delete_edge_miss:
  assumes "delete_edge src off ts c = Some c'" and "ts \<noteq> INVALID_TIMESTAMP"
    and "\<And>e. csr_edge_at c (unat src) (nat off) = Some e \<Longrightarrow> ts < nts e"
  shows "c' = c"
proof -
  note d = delete_edge_cases [OF assms(1)]
  let ?e = "nbrs (rows c ! unat src) ! nat off"
  have "\<not> nts ?e \<le> ts"
  proof (cases "live ?e")
    case True
    then have "ts < nts ?e" using d(1,3) by (intro assms(3)) (simp add: csr_edge_at_def)
    then show ?thesis by simp
  next
    case False
    then show ?thesis using assms(2) timestamp_le_INVALID [of ts] by (auto intro: order_antisym)
  qed
  then show ?thesis using d(4) by (simp add: Let_def)
qed

lemma revert_delete_edge_law:
  assumes "revert_delete_edge src v off ts c = Some c'" and "ts \<noteq> INVALID_TIMESTAMP"
  shows "edge_num c' = edge_num c + 1" and "csr_edge_at c (unat src) (nat off) = None"
    and "csr_edge_at c' = set_edge (unat src) (nat off)
      (Some ((nbrs (rows c ! unat src) ! nat off)\<lparr>nts := ts\<rparr>)) (csr_edge_at c)"
    and "neighbor (nbrs (rows c ! unat src) ! nat off) = v"
proof -
  note d = revert_delete_edge_cases [OF assms(1)]
  let ?e = "nbrs (rows c ! unat src) ! nat off"
  have c': "c' = c\<lparr>rows := (rows c)[unat src := (rows c ! unat src)\<lparr>nbrs :=
      (nbrs (rows c ! unat src))[nat off := ?e\<lparr>nts := ts\<rparr>]\<rparr>], edge_num := edge_num c + 1\<rparr>"
    and e: "neighbor ?e = v" "\<not> live ?e" using d(4) by (auto simp: Let_def)
  show "csr_edge_at c' = set_edge (unat src) (nat off) (Some (?e\<lparr>nts := ts\<rparr>)) (csr_edge_at c)"
    unfolding c' csr_edge_at_update [OF d(1,3)] using assms(2) by simp
  show "edge_num c' = edge_num c + 1" by (simp add: c')
  show "csr_edge_at c (unat src) (nat off) = None" using e(2) by (simp add: csr_edge_at_def)
qed (use revert_delete_edge_cases(4) [OF assms(1)] in \<open>simp add: Let_def\<close>)

lemma put_edge_law:
  assumes "put_edge src dst d ts c = Some (k, c')" and "ts \<noteq> INVALID_TIMESTAMP"
  shows "csr_edge_at c (unat src) k = None" and "edge_num c' = edge_num c + 1"
    and "csr_edge_at c' = set_edge (unat src) k (Some \<lparr>neighbor = dst, nts = ts, ndata = d\<rparr>) (csr_edge_at c)"
proof -
  have s: "unat src < length (rows c)" and k: "k = length (nbrs (rows c ! unat src))"
    using assms(1) by (auto simp: put_edge_def vertex_capacity_def Let_def split: if_splits)
  obtain r where c': "c' = c\<lparr>rows := (rows c)[unat src := r\<lparr>nbrs := nbrs (rows c ! unat src) @
      [\<lparr>neighbor = dst, nts = ts, ndata = d\<rparr>]\<rparr>], edge_num := edge_num c + 1\<rparr>"
    using assms(1)
    by (cases "length (nbrs (rows c ! unat src)) = cap (rows c ! unat src)")
      (auto simp: put_edge_def vertex_capacity_def Let_def split: if_splits)
  show "csr_edge_at c' = set_edge (unat src) k (Some \<lparr>neighbor = dst, nts = ts, ndata = d\<rparr>) (csr_edge_at c)"
    unfolding c' k by (rule csr_edge_at_append) (use s assms(2) in simp_all)
qed (use assms in \<open>auto simp: put_edge_def vertex_capacity_def Let_def csr_edge_at_def split: if_splits\<close>)

interpretation mcsr: edge_store csr_edge_at edge_num put_edge delete_edge revert_delete_edge
proof unfold_locales
  fix c :: "'d csr" show "finite (edge_set (csr_edge_at c))" by (rule csr_edge_set_finite)
next
  fix src dst d ts and c :: "'d csr" and k c'
  assume "put_edge src dst d ts c = Some (k, c')" "ts \<noteq> INVALID_TIMESTAMP"
  from put_edge_law [OF this]
  show "csr_edge_at c (unat src) k = None \<and> edge_num c' = edge_num c + 1 \<and>
      csr_edge_at c' = set_edge (unat src) k (Some \<lparr>neighbor = dst, nts = ts, ndata = d\<rparr>) (csr_edge_at c)"
    by blast
next
  fix src off ts and c c' :: "'d csr" and e
  assume "delete_edge src off ts c = Some c'" "ts \<noteq> INVALID_TIMESTAMP"
    "csr_edge_at c (unat src) (nat off) = Some e" "nts e \<le> ts"
  from delete_edge_hit [OF this(1,3,4)]
  show "edge_num c' = edge_num c - 1 \<and>
      csr_edge_at c' = set_edge (unat src) (nat off) None (csr_edge_at c)"
    by blast
next
  fix src off ts and c c' :: "'d csr"
  assume "delete_edge src off ts c = Some c'" "ts \<noteq> INVALID_TIMESTAMP"
    "\<And>e. csr_edge_at c (unat src) (nat off) = Some e \<Longrightarrow> ts < nts e"
  then show "c' = c" by (rule delete_edge_miss)
next
  fix src v off ts and c c' :: "'d csr"
  assume a: "revert_delete_edge src v off ts c = Some c'" "ts \<noteq> INVALID_TIMESTAMP"
  have "(nbrs (rows c ! unat src) ! nat off)\<lparr>nts := ts\<rparr> =
      \<lparr>neighbor = v, nts = ts, ndata = ndata (nbrs (rows c ! unat src) ! nat off)\<rparr>"
    using revert_delete_edge_law(4) [OF a] by simp
  then show "edge_num c' = edge_num c + 1 \<and> csr_edge_at c (unat src) (nat off) = None \<and>
      (\<exists>d. csr_edge_at c' = set_edge (unat src) (nat off) (Some \<lparr>neighbor = v, nts = ts, ndata = d\<rparr>)
        (csr_edge_at c))"
    using revert_delete_edge_law(1-3) [OF a] by metis
qed

definition s_edge_at :: "'d single_csr \<Rightarrow> nat \<Rightarrow> nat \<Rightarrow> 'd nbr option" where
  "s_edge_at c s k =
     (if k = 0 \<and> s < length (entries c) \<and> live (entries c ! s) then Some (entries c ! s) else None)"

lemma s_edge_at_update:
  assumes "s < length (entries c)"
  shows "s_edge_at (c\<lparr>entries := (entries c)[s := e], s_edge_num := n\<rparr>) =
    set_edge s 0 (if live e then Some e else None) (s_edge_at c)"
  using assms by (auto simp: s_edge_at_def set_edge_def fun_eq_iff nth_list_update)

lemma s_edge_set_finite: "finite (edge_set (s_edge_at c))"
proof -
  have "edge_set (s_edge_at c) \<subseteq> {..<length (entries c)} \<times> {0}"
    by (auto simp: edge_set_def s_edge_at_def split: if_splits)
  then show ?thesis by (rule finite_subset) simp
qed

lemma s_delete_edge_hit:
  assumes "s_delete_edge src off ts c = Some c'"
    and "s_edge_at c (unat src) (nat off) = Some e" and "nts e \<le> ts"
  shows "c' = c\<lparr>entries := (entries c)[unat src := mark_deleted e], s_edge_num := s_edge_num c - 1\<rparr>"
    and "unat src < length (entries c)" and "off = 0" and "entries c ! unat src = e"
  using assms by (auto simp: s_delete_edge_def s_edge_at_def Let_def split: if_splits)

interpretation scsr: edge_store s_edge_at s_edge_num s_put_edge s_delete_edge s_revert_delete_edge
proof unfold_locales
  fix c :: "'d single_csr" show "finite (edge_set (s_edge_at c))" by (rule s_edge_set_finite)
next
  fix src dst d ts and c :: "'d single_csr" and k c'
  assume a: "s_put_edge src dst d ts c = Some (k, c')" "ts \<noteq> INVALID_TIMESTAMP"
  then have "unat src < length (entries c)" by (auto simp: s_put_edge_def split: if_splits)
  from s_edge_at_update [OF this, where n = "s_edge_num c + 1"] a
  show "s_edge_at c (unat src) k = None \<and> s_edge_num c' = s_edge_num c + 1 \<and>
      s_edge_at c' = set_edge (unat src) k (Some \<lparr>neighbor = dst, nts = ts, ndata = d\<rparr>) (s_edge_at c)"
    by (auto simp: s_put_edge_def s_edge_at_def split: if_splits)
next
  fix src off ts and c c' :: "'d single_csr" and e
  assume "s_delete_edge src off ts c = Some c'" "ts \<noteq> INVALID_TIMESTAMP"
    "s_edge_at c (unat src) (nat off) = Some e" "nts e \<le> ts"
  note h = s_delete_edge_hit [OF this(1,3,4)]
  from h s_edge_at_update [OF h(2), where e = "mark_deleted e" and n = "s_edge_num c - 1"]
  show "s_edge_num c' = s_edge_num c - 1 \<and>
      s_edge_at c' = set_edge (unat src) (nat off) None (s_edge_at c)"
    by simp
next
  fix src off ts and c c' :: "'d single_csr"
  assume "s_delete_edge src off ts c = Some c'" "ts \<noteq> INVALID_TIMESTAMP"
    "\<And>e. s_edge_at c (unat src) (nat off) = Some e \<Longrightarrow> ts < nts e"
  then show "c' = c"
    using timestamp_le_INVALID [of ts]
    by (cases "live (entries c ! unat src)")
      (auto simp: s_delete_edge_def s_edge_at_def Let_def split: if_splits intro: order_antisym)
next
  fix src v off ts and c c' :: "'d single_csr"
  assume a: "s_revert_delete_edge src v off ts c = Some c'" "ts \<noteq> INVALID_TIMESTAMP"
  let ?e = "entries c ! unat src"
  have h: "unat src < length (entries c)" "off = 0" "neighbor ?e = v" "\<not> live ?e"
    "c' = c\<lparr>entries := (entries c)[unat src := ?e\<lparr>nts := ts\<rparr>], s_edge_num := s_edge_num c + 1\<rparr>"
    using a(1) by (auto simp: s_revert_delete_edge_def Let_def split: if_splits)
  have "?e\<lparr>nts := ts\<rparr> = \<lparr>neighbor = v, nts = ts, ndata = ndata ?e\<rparr>" using h(3) by simp
  with s_edge_at_update [OF h(1), where e = "?e\<lparr>nts := ts\<rparr>" and n = "s_edge_num c + 1"] h a(2)
  have "s_edge_at c' = set_edge (unat src) (nat off)
      (Some \<lparr>neighbor = v, nts = ts, ndata = ndata ?e\<rparr>) (s_edge_at c)" by simp
  then show "s_edge_num c' = s_edge_num c + 1 \<and> s_edge_at c (unat src) (nat off) = None \<and>
      (\<exists>d. s_edge_at c' = set_edge (unat src) (nat off) (Some \<lparr>neighbor = v, nts = ts, ndata = d\<rparr>)
        (s_edge_at c))"
    using h by (auto simp: s_edge_at_def)
qed

lemma delete_edge_revert:
  assumes "delete_edge src off ts c = Some c' \<and> csr_edge_at c (unat src) (nat off) = Some e" and "nts e \<le> ts"
  shows "revert_delete_edge src (neighbor e) off ts' c' =
      Some (c\<lparr>rows := (rows c)[unat src := (rows c ! unat src)\<lparr>nbrs :=
        (nbrs (rows c ! unat src))[nat off := e\<lparr>nts := ts'\<rparr>]\<rparr>]\<rparr>)"
    and "revert_delete_edge src (neighbor e) off (nts e) c' = Some c"
proof -
  note h = delete_edge_hit [OF conjunct1 [OF assms(1)] conjunct2 [OF assms(1)] assms(2)]
  have l: "off < int (length (nbrs (rows c ! unat src)))" using h(5,6) by linarith
  show r: "revert_delete_edge src (neighbor e) off ts' c' =
      Some (c\<lparr>rows := (rows c)[unat src := (rows c ! unat src)\<lparr>nbrs :=
        (nbrs (rows c ! unat src))[nat off := e\<lparr>nts := ts'\<rparr>]\<rparr>]\<rparr>)" for ts'
    using h(4-6) l by (simp add: h(3) revert_delete_edge_def vertex_capacity_def Let_def)
  have e: "nbrs (rows c ! unat src) ! nat off = e"
    using assms(1) by (auto simp: csr_edge_at_def split: if_splits)
  have "(nbrs (rows c ! unat src))[nat off := e\<lparr>nts := nts e\<rparr>] = nbrs (rows c ! unat src)"
    using e list_update_id by force
  then have "(rows c)[unat src := (rows c ! unat src)\<lparr>nbrs :=
      (nbrs (rows c ! unat src))[nat off := e\<lparr>nts := nts e\<rparr>]\<rparr>] = rows c" by simp
  then show "revert_delete_edge src (neighbor e) off (nts e) c' = Some c" unfolding r by simp
qed

lemma s_delete_edge_revert:
  assumes "s_delete_edge src off ts c = Some c' \<and> s_edge_at c (unat src) (nat off) = Some e" and "nts e \<le> ts"
  shows "s_revert_delete_edge src (neighbor e) off ts' c' = Some (c\<lparr>entries := (entries c)[unat src := e\<lparr>nts := ts'\<rparr>]\<rparr>)"
    and "s_revert_delete_edge src (neighbor e) off (nts e) c' = Some c"
proof -
  note h = s_delete_edge_hit [OF conjunct1 [OF assms(1)] conjunct2 [OF assms(1)] assms(2)]
  show r: "s_revert_delete_edge src (neighbor e) off ts' c' = Some (c\<lparr>entries := (entries c)[unat src := e\<lparr>nts := ts'\<rparr>]\<rparr>)" for ts'
    using h(2,3) by (simp add: h(1) s_revert_delete_edge_def Let_def)
  have "(entries c)[unat src := e\<lparr>nts := nts e\<rparr>] = entries c" using h(4) list_update_id by force
  then show "s_revert_delete_edge src (neighbor e) off (nts e) c' = Some c" unfolding r by simp
qed

section \<open>Counting live edges\<close>

definition live_num :: "'d csr \<Rightarrow> nat" where
  "live_num c = sum_list (map (\<lambda>r. live_count (nbrs r)) (rows c))"

lemma length_batch_export: "length (batch_export c) = live_num c"
proof -
  have "map length (map2 export_row [0..<length (rows c)] (rows c))
      = map (\<lambda>r. live_count (nbrs r)) (rows c)"
    by (rule nth_equalityI) (simp_all add: live_count_def export_row_def)
  then show ?thesis
    unfolding batch_export_def vertex_capacity_def live_num_def length_concat by (simp only:)
qed

lemma card_csr_edges: "card (edge_set (csr_edge_at c)) = live_num c"
proof -
  have "card {k. k < length es \<and> live (es ! k)} = live_count es" for es :: "'a nbr list"
    by (simp add: live_count_def length_filter_conv_card)
  then have "card (edge_set (csr_edge_at c)) = (\<Sum>s<length (rows c). live_count (nbrs (rows c ! s)))"
    unfolding csr_edge_set by (subst card_SigmaI) simp_all
  then show ?thesis
    by (simp add: live_num_def sum_list_sum_nth atLeast0LessThan)
qed

lemma compact_size: "total_size (snd (compact c)) = live_num c"
  by (simp add: compact_def total_size_def live_num_def live_count_def comp_def Let_def)

lemma compact_export: "batch_export (snd (compact c)) = batch_export c"
proof -
  have "map2 export_row [0..<length (rows c)] (map (\<lambda>r. r\<lparr>nbrs := filter live (nbrs r)\<rparr>) (rows c)) =
      map2 export_row [0..<length (rows c)] (rows c)"
    by (rule nth_equalityI) (simp_all add: export_row_def)
  then show ?thesis by (simp add: batch_export_def compact_def vertex_capacity_def Let_def)
qed

definition counted :: "'d csr \<Rightarrow> bool" where
  "counted c \<longleftrightarrow> edge_num c = of_nat (length (batch_export c))"

lemma counted_live: "counted c \<longleftrightarrow> edge_num c = of_nat (live_num c)"
  by (simp add: counted_def length_batch_export)

lemma sum_list_update_row:
  assumes "s < length rs"
  shows "sum_list (map f (rs[s := r])) + f (rs ! s) = sum_list (map f rs) + (f r :: nat)"
  using assms
proof (induction rs arbitrary: s)
  case (Cons x xs)
  show ?case
  proof (cases s)
    case (Suc k)
    then show ?thesis using Cons.IH [of k] Cons.prems by simp
  qed simp
qed simp

lemma live_count_update:
  assumes "k < length es"
  shows "live_count (es[k := e]) + (if live (es ! k) then 1 else 0) =
    live_count es + (if live e then 1 else 0)"
proof -
  have c: "live_count es = sum_list (map (\<lambda>e. if live e then 1 else 0) es)" for es :: "'a nbr list"
    by (induction es) (simp_all add: live_count_def)
  show ?thesis unfolding c by (rule sum_list_update_row [OF assms])
qed

lemma live_count_append: "live_count (xs @ ys) = live_count xs + live_count ys"
  by (simp add: live_count_def)

lemma live_count_filter:
  "live_count (filter (\<lambda>e. \<not> P e) es) + live_count (filter P es) = live_count es"
  by (induction es) (simp_all add: live_count_def)

lemma append_edge_counted:
  assumes "counted c" and "ts \<noteq> INVALID_TIMESTAMP"
  shows "counted (append_edge ts edge c)"
proof -
  obtain src dst d where e: "edge = (src, dst, d)" by (metis prod_cases3)
  let ?r = "rows c ! unat src"
  have "live_num (c\<lparr>rows := (rows c)[unat src := ?r\<lparr>nbrs := nbrs ?r @ [\<lparr>neighbor = dst, nts = ts, ndata = d\<rparr>]\<rparr>],
      edge_num := edge_num c + 1\<rparr>) = live_num c + 1" if "unat src < length (rows c)"
    using sum_list_update_row [OF that, of "\<lambda>r. live_count (nbrs r)"
        "?r\<lparr>nbrs := nbrs ?r @ [\<lparr>neighbor = dst, nts = ts, ndata = d\<rparr>]\<rparr>"] assms(2)
    by (simp add: live_num_def live_count_append live_count_def)
  then show ?thesis
    using assms(1) by (simp add: e append_edge_def counted_live vertex_capacity_def Let_def)
qed

lemma fold_append_counted:
  "counted c \<Longrightarrow> ts \<noteq> INVALID_TIMESTAMP \<Longrightarrow> counted (fold (append_edge ts) edges c)"
  by (induction edges arbitrary: c) (simp_all add: append_edge_counted)

lemma batch_put_edges_counted:
  assumes "counted c" and "ts \<noteq> INVALID_TIMESTAMP"
  shows "counted (batch_put_edges reserve edges ts c)"
proof -
  define f where "f = (\<lambda>g. c\<lparr>rows := map (\<lambda>(i, r). r\<lparr>cap := reserve (g i + length (nbrs r))\<rparr>)
      (zip [0..<vertex_capacity c] (rows c))\<rparr>)"
  have "map (\<lambda>r. live_count (nbrs r)) (rows (f g)) = map (\<lambda>r. live_count (nbrs r)) (rows c)" for g
    by (rule nth_equalityI) (simp_all add: f_def vertex_capacity_def)
  then have "live_num (f g) = live_num c" for g by (simp only: live_num_def)
  then have "counted (f g)" for g using assms(1) by (simp add: counted_live f_def)
  then show ?thesis using assms unfolding f_def by (simp add: batch_put_edges_def Let_def fold_append_counted)
qed

lemma live_num_zip:
  "live_num c = sum_list (map (\<lambda>(i, r). live_count (nbrs r)) (zip [0..<vertex_capacity c] (rows c)))"
proof -
  have "map (\<lambda>(i, r). live_count (nbrs r)) (zip [0..<length (rows c)] (rows c)) =
      map (\<lambda>r. live_count (nbrs r)) (rows c)"
    by (rule nth_equalityI) simp_all
  then show ?thesis by (simp only: live_num_def vertex_capacity_def)
qed

lemma counted_sub:
  assumes "counted c" and "live_num c' + n = live_num c" and "edge_num c' = edge_num c - of_nat n"
  shows "counted c'"
proof -
  have "edge_num c = of_nat (live_num c' + n)" using assms(1,2) by (simp add: counted_live)
  then show ?thesis using assms(3) by (simp add: counted_live)
qed

lemma clear_sources_counted:
  assumes "counted c"
  shows "counted (clear_sources src_set c)"
proof (rule counted_sub [OF assms])
  let ?irs = "zip [0..<vertex_capacity c] (rows c)" and ?hit = "\<lambda>i. of_nat i \<in> src_set"
  let ?n = "sum_list (map (\<lambda>(i, r). if ?hit i then live_count (nbrs r) else 0) ?irs)"
  have "live_num (clear_sources src_set c) =
      sum_list (map (\<lambda>(i, r). if ?hit i then 0 else live_count (nbrs r)) ?irs)"
  proof -
    have "map (\<lambda>r. live_count (nbrs r)) (map (\<lambda>(i, r). if ?hit i then r\<lparr>nbrs := []\<rparr> else r) irs) =
        map (\<lambda>(i, r). if ?hit i then 0 else live_count (nbrs r)) irs" for irs :: "(nat \<times> 'a row) list"
      by (induction irs) (auto simp: live_count_def)
    moreover have "rows (clear_sources src_set c) =
        map (\<lambda>(i, r). if ?hit i then r\<lparr>nbrs := []\<rparr> else r) ?irs"
      by (simp add: clear_sources_def Let_def)
    ultimately show ?thesis unfolding live_num_def by (simp only:)
  qed
  then have "live_num (clear_sources src_set c) + ?n =
      sum_list (map (\<lambda>x. (case x of (i, r) \<Rightarrow> if ?hit i then 0 else live_count (nbrs r)) +
        (case x of (i, r) \<Rightarrow> if ?hit i then live_count (nbrs r) else 0)) ?irs)"
    by (simp only: sum_list_addf)
  also have "\<dots> = live_num c"
    unfolding live_num_zip by (intro arg_cong [where f = sum_list] map_cong) auto
  finally show "live_num (clear_sources src_set c) + ?n = live_num c" .
qed (simp add: clear_sources_def Let_def)

lemma drop_targets_counted:
  assumes "counted c"
  shows "counted (drop_targets dst_set c)"
proof (rule counted_sub [OF assms])
  let ?hit = "\<lambda>e. neighbor e \<in> dst_set"
  have "live_num (drop_targets dst_set c) =
      sum_list (map (\<lambda>r. live_count (filter (\<lambda>e. \<not> ?hit e) (nbrs r))) (rows c))"
    by (simp add: live_num_def drop_targets_def Let_def comp_def)
  then show "live_num (drop_targets dst_set c) +
      sum_list (map (\<lambda>r. live_count (filter ?hit (nbrs r))) (rows c)) = live_num c"
    by (simp only: sum_list_addf [symmetric] live_count_filter live_num_def)
qed (simp add: drop_targets_def Let_def)

lemma delete_offset_counted:
  assumes "counted c" and "unat src < length (rows c)" and "k < length (nbrs (rows c ! unat src))"
  shows "counted (delete_offset src k c)"
proof -
  let ?r = "rows c ! unat src"
  have "live_num (delete_offset src k c) + live_count (nbrs ?r) =
      live_num c + live_count ((nbrs ?r)[k := mark_deleted (nbrs ?r ! k)])"
    using sum_list_update_row [OF assms(2), of "\<lambda>r. live_count (nbrs r)"
        "?r\<lparr>nbrs := (nbrs ?r)[k := mark_deleted (nbrs ?r ! k)]\<rparr>"]
    by (simp add: live_num_def delete_offset_def Let_def)
  moreover have "live_count ((nbrs ?r)[k := mark_deleted (nbrs ?r ! k)]) +
      (if live (nbrs ?r ! k) then 1 else 0) = live_count (nbrs ?r)"
    using live_count_update [OF assms(3), of "mark_deleted (nbrs ?r ! k)"] by simp
  ultimately have "live_num (delete_offset src k c) + (if live (nbrs ?r ! k) then 1 else 0) = live_num c"
    by linarith
  then show ?thesis
    by (rule counted_sub [OF assms(1)]) (simp add: delete_offset_def Let_def)
qed

lemma delete_offset_frame:
  "length (rows (delete_offset src k c)) = length (rows c)"
  "length (nbrs (rows (delete_offset src k c) ! i)) = length (nbrs (rows c ! i))"
proof -
  have "length (nbrs (rs[s := (rs ! s)\<lparr>nbrs := (nbrs (rs ! s))[k := e]\<rparr>] ! i)) = length (nbrs (rs ! i))"
    for rs s e
    by (cases "i = s \<and> s < length rs") (auto simp: list_update_beyond not_less)
  then show "length (nbrs (rows (delete_offset src k c) ! i)) = length (nbrs (rows c ! i))"
    by (simp add: delete_offset_def Let_def)
qed (simp add: delete_offset_def Let_def)

lemma fold_delete_offset_counted:
  assumes "counted c" and "\<forall>(src, off)\<in>set es. unat src < length (rows c) \<and>
      0 \<le> off \<and> off < int (length (nbrs (rows c ! unat src)))"
  shows "counted (fold (\<lambda>(src, off). delete_offset src (nat off)) es c)"
  using assms
proof (induction es arbitrary: c)
  case (Cons e es)
  obtain src off where e: "e = (src, off)" by (cases e)
  have "counted (delete_offset src (nat off) c)"
    using Cons.prems by (intro delete_offset_counted) (auto simp: e)
  then show ?case
    using Cons.IH [of "delete_offset src (nat off) c"] Cons.prems(2)
    by (auto simp: e delete_offset_frame)
qed simp

lemma batch_delete_offsets_counted:
  assumes "counted c" and "batch_delete_offsets edges c = Some c'"
  shows "counted c'"
proof -
  define todo where "todo = remdups (filter (\<lambda>(src, off). unat src < vertex_capacity c \<and>
      off < int (length (nbrs (rows c ! unat src)))) edges)"
  have "\<not> (\<exists>(src, off)\<in>set todo. off < 0)"
    and c': "c' = fold (\<lambda>(src, off). delete_offset src (nat off)) todo c"
    using assms(2) unfolding batch_delete_offsets_def Let_def todo_def [symmetric]
    by (simp_all split: if_splits)
  then have "0 \<le> off" if "(src, off) \<in> set todo" for src off using that by fastforce
  moreover have "unat src < length (rows c) \<and> off < int (length (nbrs (rows c ! unat src)))"
    if "(src, off) \<in> set todo" for src off
    using that by (auto simp: todo_def vertex_capacity_def)
  ultimately show ?thesis
    unfolding c' by (intro fold_delete_offset_counted [OF assms(1)]) auto
qed

lemma reset_timestamp_counted: "counted c \<Longrightarrow> counted (reset_timestamp c)"
proof -
  have "live_count (map (\<lambda>e. if live e then e\<lparr>nts := 0\<rparr> else e) es) = live_count es"
    for es :: "'a nbr list"
    by (induction es) (auto simp: live_count_def INVALID_TIMESTAMP_def)
  then have "live_num (reset_timestamp c) = live_num c"
    by (simp add: live_num_def reset_timestamp_def comp_def)
  then show "counted c \<Longrightarrow> ?thesis" by (simp add: counted_live reset_timestamp_def)
qed

text \<open>Deleting by endpoints subtracts every entry it marks, live or not.\<close>

definition marked :: "(vid_t \<times> vid_t) list \<Rightarrow> 'd csr \<Rightarrow> 'd nbr list" where
  "marked edges c = concat (map (\<lambda>(i, r). filter (\<lambda>e. (of_nat i, neighbor e) \<in> set edges) (nbrs r))
     (zip [0..<vertex_capacity c] (rows c)))"

lemma live_count_le: "live_count es \<le> length es" "live_count es = length es \<longleftrightarrow> (\<forall>e\<in>set es. live e)"
proof -
  show "live_count es \<le> length es" by (simp add: live_count_def)
  show "live_count es = length es \<longleftrightarrow> (\<forall>e\<in>set es. live e)"
    using length_filter_less [of _ es live] by (auto simp: live_count_def filter_id_conv)
qed

lemma live_count_concat: "live_count (concat ess) = sum_list (map live_count ess)"
  by (induction ess) (simp_all add: live_count_append, simp add: live_count_def)

lemma set_marked:
  "set (marked edges c) =
     {e. \<exists>i<vertex_capacity c. e \<in> set (nbrs (rows c ! i)) \<and> (of_nat i, neighbor e) \<in> set edges}"
proof -
  have "zip [0..<vertex_capacity c] (rows c) = map (\<lambda>i. (i, rows c ! i)) [0..<vertex_capacity c]"
    by (rule nth_equalityI) (simp_all add: vertex_capacity_def)
  then show ?thesis by (auto simp: marked_def)
qed

lemma marked_total: "length (marked edges c) \<le> total_size c"
proof -
  have "length (marked edges c) =
      sum_list (map (\<lambda>(i, r). length (filter (\<lambda>e. (of_nat i, neighbor e) \<in> set edges) (nbrs r)))
        (zip [0..<length (rows c)] (rows c)))"
    by (simp add: marked_def length_concat comp_def case_prod_unfold vertex_capacity_def)
  also have "\<dots> \<le> sum_list (map (\<lambda>(i, r). length (nbrs r)) (zip [0..<length (rows c)] (rows c)))"
    by (rule sum_list_mono) auto
  also have "map (\<lambda>(i, r). length (nbrs r)) (zip [0..<length (rows c)] (rows c)) = map (\<lambda>r. length (nbrs r)) (rows c)"
    by (rule nth_equalityI) simp_all
  finally show ?thesis by (simp add: total_size_def)
qed

lemma batch_delete_edges_num:
  "live_num (batch_delete_edges edges c) + live_count (marked edges c) = live_num c"
  "edge_num (batch_delete_edges edges c) = edge_num c - of_nat (length (marked edges c))"
proof -
  let ?irs = "zip [0..<vertex_capacity c] (rows c)" and ?hit = "\<lambda>i e. (of_nat i, neighbor e) \<in> set edges"
  have row: "live_count (map (\<lambda>e. if P e then mark_deleted e else e) es) + live_count (filter P es) = live_count es"
    for P and es :: "'a nbr list"
    by (induction es) (auto simp: live_count_def)
  have "live_num (batch_delete_edges edges c) =
      sum_list (map (\<lambda>(i, r). live_count (map (\<lambda>e. if ?hit i e then mark_deleted e else e) (nbrs r))) ?irs)"
    by (simp add: live_num_def batch_delete_edges_def Let_def comp_def case_prod_unfold)
  moreover have "live_count (marked edges c) = sum_list (map (\<lambda>(i, r). live_count (filter (?hit i) (nbrs r))) ?irs)"
    by (simp add: marked_def live_count_concat comp_def case_prod_unfold)
  ultimately show "live_num (batch_delete_edges edges c) + live_count (marked edges c) = live_num c"
    unfolding live_num_zip [of c] by (simp add: sum_list_addf [symmetric] row case_prod_unfold)
  show "edge_num (batch_delete_edges edges c) = edge_num c - of_nat (length (marked edges c))"
    by (simp add: batch_delete_edges_def marked_def length_concat Let_def comp_def case_prod_unfold)
qed

lemma of_nat_eq_small: "a < 2 ^ 64 \<Longrightarrow> b < 2 ^ 64 \<Longrightarrow> (of_nat a = (of_nat b :: 64 word)) \<longleftrightarrow> a = b"
  by (simp add: word_of_nat_eq_iff take_bit_nat_eq_self)

lemma batch_delete_edges_counted:
  assumes "counted c" and "total_size c < 2 ^ 64"
  shows "counted (batch_delete_edges edges c) \<longleftrightarrow> (\<forall>e\<in>set (marked edges c). live e)"
proof -
  let ?m = "marked edges c"
  note n = batch_delete_edges_num [where edges = edges and c = c]
  have "edge_num c = of_nat (live_num (batch_delete_edges edges c)) + of_nat (live_count ?m)"
    using assms(1) by (simp add: counted_live flip: n(1))
  then have "counted (batch_delete_edges edges c) \<longleftrightarrow> (of_nat (live_count ?m) = (of_nat (length ?m) :: 64 word))"
    by (simp add: counted_live n(2) algebra_simps)
  also have "\<dots> \<longleftrightarrow> live_count ?m = length ?m"
    using live_count_le(1) [of ?m] marked_total [of edges c] assms(2) by (intro of_nat_eq_small) linarith+
  finally show ?thesis by (simp add: live_count_le(2))
qed

text \<open>
  \<^verbatim>\<open>SingleMutableCsr\<close>: how far the counter is from the number of live entries, and what one write of
  an entry does to that.
\<close>

definition drift :: "'d single_csr \<Rightarrow> 64 word" where
  "drift c = s_edge_num c - of_nat (live_count (entries c))"

definition s_counted :: "'d single_csr \<Rightarrow> bool" where
  "s_counted c \<longleftrightarrow> s_edge_num c = of_nat (live_count (entries c))"

lemma s_counted_drift: "s_counted c \<longleftrightarrow> drift c = 0"
  by (simp add: s_counted_def drift_def)

lemma drift_update:
  assumes "k < length (entries c)"
  shows "drift (c\<lparr>entries := (entries c)[k := e], s_edge_num := n\<rparr>) =
    drift c + (n - s_edge_num c) + of_bool (live (entries c ! k)) - of_bool (live e)"
proof -
  have "(of_nat (live_count ((entries c)[k := e]) + (if live (entries c ! k) then 1 else 0)) :: 64 word) =
      of_nat (live_count (entries c) + (if live e then 1 else 0))"
    using live_count_update [OF assms] by (simp only:)
  then show ?thesis by (auto simp: drift_def algebra_simps split: if_splits)
qed

lemma drift_s_mark: "unat v < length (entries c) \<Longrightarrow> drift (s_mark v c) = drift c"
  by (simp add: s_mark_def Let_def drift_update)

lemma length_s_mark [simp]: "length (entries (s_mark v c)) = length (entries c)"
  by (simp add: s_mark_def Let_def)

lemma drift_fold_mark:
  assumes "\<And>x c. length (entries (f x c)) = length (entries c)"
    and "\<And>x c. x \<in> set xs \<Longrightarrow> length (entries c) = n \<Longrightarrow> drift (f x c) = drift c" and "length (entries c) = n"
  shows "drift (fold f xs c) = drift c \<and> length (entries (fold f xs c)) = n"
  using assms(2,3) by (induction xs arbitrary: c) (auto simp: assms(1))

text \<open>The vertices of a list that the array has room for.\<close>

definition inside :: "nat \<Rightarrow> vid_t list \<Rightarrow> nat list" where
  "inside n srcs = filter (\<lambda>v. v < n) (map unat srcs)"

lemma inside_simps [simp]:
  "inside n [] = []" "inside n (s # srcs) = (if unat s < n then unat s # inside n srcs else inside n srcs)"
  by (simp_all add: inside_def)

lemma s_batch_delete_offsets_drift:
  "\<exists>m\<le>length srcs. drift (s_batch_delete_offsets srcs c) = drift c - of_nat m \<and>
     (m = 0 \<longleftrightarrow> distinct (inside (length (entries c)) srcs) \<and>
       (\<forall>v\<in>set (inside (length (entries c)) srcs). live (entries c ! v)))"
proof (induction srcs arbitrary: c)
  case (Cons src srcs)
  define c1 where "c1 = (if unat src < length (entries c)
    then c\<lparr>entries := (entries c)[unat src := mark_deleted (entries c ! unat src)], s_edge_num := s_edge_num c - 1\<rparr> else c)"
  have l: "length (entries c1) = length (entries c)" by (simp add: c1_def)
  obtain m where m: "m \<le> length srcs" "drift (s_batch_delete_offsets srcs c1) = drift c1 - of_nat m"
    "m = 0 \<longleftrightarrow> distinct (inside (length (entries c)) srcs) \<and>
      (\<forall>v\<in>set (inside (length (entries c)) srcs). live (entries c1 ! v))"
    using Cons.IH [of c1] l by auto
  have f: "s_batch_delete_offsets (src # srcs) c = s_batch_delete_offsets srcs c1"
    by (simp add: s_batch_delete_offsets_def c1_def)
  show ?case
  proof (cases "unat src < length (entries c) \<and> \<not> live (entries c ! unat src)")
    case True
    then have "drift c1 = drift c - 1" by (simp add: c1_def drift_update)
    then show ?thesis using m(1,2) True by (intro exI [of _ "Suc m"]) (simp add: f algebra_simps)
  next
    case False
    then have "drift c1 = drift c" by (auto simp: c1_def drift_update)
    moreover have "live (entries c1 ! v) \<longleftrightarrow> live (entries c ! v) \<and> (unat src < length (entries c) \<longrightarrow> v \<noteq> unat src)" for v
      by (cases "v = unat src") (auto simp: c1_def)
    ultimately show ?thesis using m False by (intro exI [of _ m]) (auto simp: f split: if_splits)
  qed
qed (simp add: s_batch_delete_offsets_def)

lemma s_batch_put_edges_drift:
  assumes "ts \<noteq> INVALID_TIMESTAMP"
  shows "\<exists>m\<le>length edges. drift (s_batch_put_edges edges ts c) = drift c + of_nat m \<and>
     (m = 0 \<longleftrightarrow> distinct (inside (length (entries c)) (map fst edges)) \<and>
       (\<forall>v\<in>set (inside (length (entries c)) (map fst edges)). \<not> live (entries c ! v)))"
proof (induction edges arbitrary: c)
  case (Cons edge edges)
  obtain src dst d where e: "edge = (src, dst, d)" by (cases edge)
  define c1 where "c1 = (if unat src < length (entries c)
    then c\<lparr>entries := (entries c)[unat src := \<lparr>neighbor = dst, nts = ts, ndata = d\<rparr>], s_edge_num := s_edge_num c + 1\<rparr> else c)"
  have l: "length (entries c1) = length (entries c)" by (simp add: c1_def)
  obtain m where m: "m \<le> length edges" "drift (s_batch_put_edges edges ts c1) = drift c1 + of_nat m"
    "m = 0 \<longleftrightarrow> distinct (inside (length (entries c)) (map fst edges)) \<and>
      (\<forall>v\<in>set (inside (length (entries c)) (map fst edges)). \<not> live (entries c1 ! v))"
    using Cons.IH [of c1] l by auto
  have f: "s_batch_put_edges ((src, dst, d) # edges) ts c = s_batch_put_edges edges ts c1"
    by (simp add: s_batch_put_edges_def c1_def)
  show ?case
  proof (cases "unat src < length (entries c) \<and> live (entries c ! unat src)")
    case True
    then have "drift c1 = drift c + 1" using assms by (simp add: c1_def drift_update)
    then show ?thesis using m(1,2) True by (intro exI [of _ "Suc m"]) (simp add: f e algebra_simps)
  next
    case False
    then have "drift c1 = drift c" using assms by (auto simp: c1_def drift_update)
    moreover have "\<not> live (entries c1 ! v) \<longleftrightarrow> \<not> live (entries c ! v) \<and> (unat src < length (entries c) \<longrightarrow> v \<noteq> unat src)" for v
      using False assms by (cases "v = unat src") (auto simp: c1_def)
    ultimately show ?thesis using m False by (intro exI [of _ m]) (auto simp: f e split: if_splits)
  qed
qed (simp add: s_batch_put_edges_def)

lemma of_nat_zero_small: "m < 2 ^ 64 \<Longrightarrow> (of_nat m = (0 :: 64 word)) \<longleftrightarrow> m = 0"
  using of_nat_eq_small [of m 0] by simp

lemma s_marking_counted:
  assumes "s_counted c" and "length (entries c) \<le> 2 ^ 32"
  shows "s_counted (s_batch_delete_vertices srcs dst_set c)" "s_counted (s_batch_delete_edges ends c)"
    "s_counted (s_reset_timestamp c)"
proof -
  let ?f = "\<lambda>src c. if unat src < length (entries c) then s_mark src c else c"
    and ?g = "\<lambda>v c. if neighbor (entries c ! v) \<in> dst_set then s_mark (of_nat v) c else c"
  have 1: "drift (fold ?f srcs c) = drift c \<and> length (entries (fold ?f srcs c)) = length (entries c)"
    by (rule drift_fold_mark) (auto simp: drift_s_mark)
  have "unat (of_nat v :: vid_t) = v" if "v < length (entries c)" for v
    using that assms(2) by (intro of_nat_inverse [OF refl]) simp
  then have "drift (fold ?g [0..<length (entries c)] (fold ?f srcs c)) = drift (fold ?f srcs c) \<and>
      length (entries (fold ?g [0..<length (entries c)] (fold ?f srcs c))) = length (entries c)"
    using 1 by (intro drift_fold_mark) (auto simp: drift_s_mark)
  then show "s_counted (s_batch_delete_vertices srcs dst_set c)"
    using 1 assms(1) by (simp add: s_batch_delete_vertices_def s_counted_drift Let_def)
  have "drift (s_batch_delete_edges ends c) = drift c \<and> length (entries (s_batch_delete_edges ends c)) = length (entries c)"
    unfolding s_batch_delete_edges_def by (rule drift_fold_mark) (auto simp: drift_s_mark)
  then show "s_counted (s_batch_delete_edges ends c)" using assms(1) by (simp add: s_counted_drift)
  have "live_count (map (\<lambda>e. if live e then e\<lparr>nts := 0\<rparr> else e) es) = live_count es" for es :: "'a nbr list"
    by (induction es) (auto simp: live_count_def INVALID_TIMESTAMP_def)
  then show "s_counted (s_reset_timestamp c)" using assms(1) by (simp add: s_counted_def s_reset_timestamp_def)
qed

section \<open>Snapshots\<close>

definition csr_wf :: "'d csr \<Rightarrow> bool" where
  "csr_wf c \<longleftrightarrow> (\<forall>r\<in>set (rows c). length (nbrs r) \<le> cap r) \<and> total_size c < 2 ^ 64"

lemma those_map_Some: "those (map Some xs) = Some xs"
  by (induction xs) simp_all

lemma split_rows_dump:
  assumes "\<forall>r\<in>set rs. length (nbrs r) \<le> cap r"
  shows "split_rows (map (\<lambda>r. length (nbrs r)) rs) (map cap rs)
    (concat (map (\<lambda>r. map Some (nbrs r) @ replicate (cap r - length (nbrs r)) None) rs)) = Some rs"
  using assms by (induction rs) (simp_all add: those_map_Some)

lemma live_num_total:
  "live_num c \<le> total_size c"
  "live_num c = total_size c \<longleftrightarrow> (\<forall>r\<in>set (rows c). \<forall>e\<in>set (nbrs r). live e)"
proof -
  have le: "live_count es \<le> length es" for es :: "'a nbr list" by (simp add: live_count_def)
  have eq: "live_count es = length es \<longleftrightarrow> (\<forall>e\<in>set es. live e)" for es :: "'a nbr list"
  proof
    assume a: "live_count es = length es"
    have "live e" if "e \<in> set es" for e
    proof (rule ccontr)
      assume "\<not> live e"
      then have "live_count es < length es"
        unfolding live_count_def by (rule length_filter_less [OF that])
      then show False using a by simp
    qed
    then show "\<forall>e\<in>set es. live e" by blast
  qed (simp add: live_count_def)
  have "sum_list (map (\<lambda>r. live_count (nbrs r)) rs) \<le> sum_list (map (\<lambda>r. length (nbrs r)) rs) \<and>
    (sum_list (map (\<lambda>r. live_count (nbrs r)) rs) = sum_list (map (\<lambda>r. length (nbrs r)) rs) \<longleftrightarrow>
      (\<forall>r\<in>set rs. \<forall>e\<in>set (nbrs r). live e))" for rs :: "'a row list"
  proof (induction rs)
    case (Cons r rs)
    then show ?case using le [of "nbrs r"] eq [of "nbrs r"] by (auto simp: add_mono)
  qed simp
  then show "live_num c \<le> total_size c"
    "live_num c = total_size c \<longleftrightarrow> (\<forall>r\<in>set (rows c). \<forall>e\<in>set (nbrs r). live e)"
    by (simp_all add: live_num_def total_size_def)
qed

section \<open>What readers see\<close>

lemma iterate_seek: "iterate ts (seek ts es) = filter (\<lambda>e. nts e \<le> ts) es"
proof (induction es)
  case Nil
  show ?case by (simp add: iterate.simps)
next
  case (Cons e es)
  then show ?case by (subst seek.simps) (auto simp: iterate.simps [of ts "e # es"] iter_next_def)
qed

lemma get_edges_filter: "get_edges ts v c = filter (\<lambda>e. nts e \<le> ts) (nbrs (rows c ! unat v))"
  by (simp add: get_edges_def iterate_seek)

lemma takeWhile_sorted:
  fixes f :: "'a \<Rightarrow> 'b::linorder"
  assumes "sorted (map f xs)"
  shows "takeWhile (\<lambda>x. t < f x) (rev xs) = filter (\<lambda>x. t < f x) (rev xs)"
  using assms
proof (induction xs rule: rev_induct)
  case (snoc x xs)
  have "\<forall>y\<in>set xs. f y \<le> f x" using snoc.prems by (auto simp: sorted_append)
  moreover have "sorted (map f xs)" using snoc.prems by (simp add: sorted_append)
  moreover have "filter (\<lambda>x. t < f x) (rev xs) = []" if "\<not> t < f x"
    using that calculation(1) by (auto simp: filter_empty_conv)
  ultimately show ?case using snoc.IH by simp
qed simp

text \<open>
  A row as the sorted readers expect it: first sorted entries older than \<open>since\<close> that the reader may
  see, none of them deleted, then entries not older than \<open>since\<close>.
\<close>

definition ordered_row :: "timestamp_t \<Rightarrow> timestamp_t \<Rightarrow> 'd::linorder nbr list \<Rightarrow> bool" where
  "ordered_row ts since es \<longleftrightarrow>
     (let old = takeWhile (\<lambda>e. nts e < since) es
      in sorted (map ndata old) \<and> (\<forall>e\<in>set old. nts e \<le> ts) \<and>
         (\<forall>e\<in>set (drop (length old) es). since \<le> nts e))"

lemma scan_gt_new:
  "\<forall>e\<in>set es. since \<le> nts e \<Longrightarrow> scan_gt ts since t (es @ rest) =
     filter (\<lambda>e. nts e \<le> ts \<and> t < ndata e) es @ scan_gt ts since t rest"
  by (induction es) (auto simp: not_less)

lemma scan_gt_old:
  assumes "\<forall>e\<in>set es. nts e < since \<and> nts e \<le> ts" and "sorted (map ndata es)"
  shows "scan_gt ts since t (rev es) = filter (\<lambda>e. t < ndata e) (rev es)"
proof (cases "rev es")
  case (Cons e r)
  then have "e \<in> set es" by (metis list.set_intros(1) set_rev)
  then show ?thesis
    using assms takeWhile_sorted [OF assms(2), of t] unfolding Cons by (simp add: not_less [symmetric])
qed simp

lemma foreach_nbr_gt_ordered:
  assumes "ordered_row ts (unsorted_since c) (nbrs (rows c ! unat v))"
  shows "foreach_nbr_gt ts v t c =
    filter (\<lambda>e. nts e \<le> ts \<and> t < ndata e) (rev (nbrs (rows c ! unat v)))"
proof -
  let ?es = "nbrs (rows c ! unat v)" and ?since = "unsorted_since c"
  define old where "old = takeWhile (\<lambda>e. nts e < ?since) ?es"
  define new where "new = drop (length old) ?es"
  have es: "?es = old @ new" unfolding new_def old_def dropWhile_eq_drop [symmetric] by simp
  have old: "\<forall>e\<in>set old. nts e < ?since \<and> nts e \<le> ts" "sorted (map ndata old)"
    using assms by (auto simp: ordered_row_def Let_def old_def dest: set_takeWhileD)
  have new: "\<forall>e\<in>set (rev new). ?since \<le> nts e"
    using assms by (simp add: ordered_row_def Let_def old_def new_def)
  have "filter (\<lambda>e. nts e \<le> ts \<and> t < ndata e) (rev old) = filter (\<lambda>e. t < ndata e) (rev old)"
    using old(1) by (intro filter_cong) auto
  then show ?thesis
    unfolding foreach_nbr_gt_def es rev_append scan_gt_new [OF new] scan_gt_old [OF old]
    by simp
qed

section \<open>Properties\<close>

text \<open>
  C10. The edge counter is exact: after any sequence of insertions, deletions and reverted deletions,
  with the failing ones excluded, it is the number of edges that an export lists; then compaction does
  not throw, and it removes nothing that the export lists.
\<close>

theorem csr_edge_num_exact:
  assumes "run_ops put_edge delete_edge revert_delete_edge ops c = Some c'"
    and "list_all op_valid ops" and "counted c"
  shows "counted c' \<and> fst (compact c') \<and> batch_export (snd (compact c')) = batch_export c'"
proof -
  have "edge_num c = of_nat (card (edge_set (csr_edge_at c)))"
    using assms(3) by (simp add: counted_live card_csr_edges)
  from mcsr.run_counts [OF assms(1,2) this] have "counted c'"
    by (simp add: counted_live card_csr_edges)
  moreover from this have "fst (compact c')"
    using compact_size [of c'] by (simp add: compact_def Let_def counted_live)
  ultimately show ?thesis by (simp add: compact_export)
qed

theorem csr_edge_num_exact_witness:
  "\<exists>c'. run_ops put_edge delete_edge revert_delete_edge [Put 0 1 (5 :: nat) 3, Del 0 0 4]
      (csr_resize 1 \<lparr>rows = [], edge_num = 0, unsorted_since = 0\<rparr>) = Some c' \<and>
    counted c' \<and> fst (compact c')"
proof -
  let ?c = "csr_resize 1 \<lparr>rows = [], edge_num = 0, unsorted_since = 0\<rparr> :: nat csr"
  let ?ops = "[Put 0 1 (5 :: nat) 3, Del 0 0 4]"
  obtain c' where c': "run_ops put_edge delete_edge revert_delete_edge ?ops ?c = Some c'"
    by (simp add: csr_resize_def put_edge_def vertex_capacity_def delete_edge_def Let_def)
  moreover have "list_all op_valid ?ops" by (simp add: op_valid_def INVALID_TIMESTAMP_def)
  moreover have "counted ?c"
    by (simp add: counted_live live_num_def csr_resize_def vertex_capacity_def live_count_def)
  ultimately show ?thesis using csr_edge_num_exact [of ?ops ?c c'] by blast
qed

text \<open>
  C39. The bulk operations of \<^verbatim>\<open>MutableCsr\<close> and the edge counter: bulk insertion, deletion of
  vertices, deletion by position and the reset of timestamps keep it exact; deletion by endpoints keeps it
  exact if and only if every entry between the given endpoints is still live.
\<close>

theorem csr_batch_counted:
  assumes "counted c" and "ts \<noteq> INVALID_TIMESTAMP" and "total_size c < 2 ^ 64"
  shows "counted (batch_put_edges reserve edges ts c) \<and>
    counted (batch_delete_vertices src_set dst_set c) \<and> counted (reset_timestamp c) \<and>
    (\<forall>c'. batch_delete_offsets offsets c = Some c' \<longrightarrow> counted c') \<and>
    (counted (batch_delete_edges ends c) \<longleftrightarrow>
      (\<forall>i<vertex_capacity c. \<forall>e\<in>set (nbrs (rows c ! i)). (of_nat i, neighbor e) \<in> set ends \<longrightarrow> live e))"
proof -
  have "(\<forall>e\<in>set (marked ends c). live e) \<longleftrightarrow>
      (\<forall>i<vertex_capacity c. \<forall>e\<in>set (nbrs (rows c ! i)). (of_nat i, neighbor e) \<in> set ends \<longrightarrow> live e)"
    unfolding set_marked by blast
  then show ?thesis
    using assms
    by (simp add: batch_put_edges_counted batch_delete_vertices_def clear_sources_counted
        drop_targets_counted reset_timestamp_counted batch_delete_offsets_counted batch_delete_edges_counted)
qed

theorem csr_batch_counted_witness:
  "counted (batch_put_edges (\<lambda>n. n) [(0, 1, 7 :: nat)] 2
     \<lparr>rows = [\<lparr>nbrs = [mark_deleted \<lparr>neighbor = 1, nts = 0, ndata = 4\<rparr>], cap = 1\<rparr>], edge_num = 0, unsorted_since = 0\<rparr>) \<and>
   \<not> counted (batch_delete_edges [(0, 1)]
     \<lparr>rows = [\<lparr>nbrs = [mark_deleted \<lparr>neighbor = 1, nts = 0, ndata = (4 :: nat)\<rparr>], cap = 1\<rparr>], edge_num = 0, unsorted_since = 0\<rparr>)"
proof -
  let ?c = "\<lparr>rows = [\<lparr>nbrs = [mark_deleted \<lparr>neighbor = 1, nts = 0, ndata = 4\<rparr>], cap = 1\<rparr>], edge_num = 0, unsorted_since = 0\<rparr> :: nat csr"
  have "counted ?c" "total_size ?c < 2 ^ 64"
    by (simp_all add: counted_live live_num_def live_count_def total_size_def)
  from csr_batch_counted [OF this(1) _ this(2), of 2 "\<lambda>n. n" "[(0, 1, 7)]" _ _ _ "[(0, 1)]"] show ?thesis
    by (simp add: INVALID_TIMESTAMP_def vertex_capacity_def mark_deleted_def)
qed

text \<open>
  The bulk operations of \<^verbatim>\<open>SingleMutableCsr\<close> and its edge counter: deletion of vertices,
  deletion by endpoints and the reset of timestamps keep it exact. Deletion by position keeps it exact if
  and only if the vertices within the array are distinct and all have an edge; bulk insertion, if and only
  if they are distinct and none has one.
\<close>

theorem single_batch_counted:
  assumes "s_counted c" and "ts \<noteq> INVALID_TIMESTAMP" and "length (entries c) \<le> 2 ^ 32"
    and "length srcs < 2 ^ 64" and "length edges < 2 ^ 64"
  shows "s_counted (s_batch_delete_vertices src_set dst_set c) \<and> s_counted (s_batch_delete_edges ends c) \<and>
    s_counted (s_reset_timestamp c) \<and>
    (s_counted (s_batch_delete_offsets srcs c) \<longleftrightarrow> distinct (inside (length (entries c)) srcs) \<and>
      (\<forall>v\<in>set (inside (length (entries c)) srcs). live (entries c ! v))) \<and>
    (s_counted (s_batch_put_edges edges ts c) \<longleftrightarrow> distinct (inside (length (entries c)) (map fst edges)) \<and>
      (\<forall>v\<in>set (inside (length (entries c)) (map fst edges)). \<not> live (entries c ! v)))"
proof -
  have z: "drift c = 0" using assms(1) by (simp add: s_counted_drift)
  obtain m where m: "m \<le> length srcs" "drift (s_batch_delete_offsets srcs c) = - of_nat m"
    "m = 0 \<longleftrightarrow> distinct (inside (length (entries c)) srcs) \<and>
      (\<forall>v\<in>set (inside (length (entries c)) srcs). live (entries c ! v))"
    using s_batch_delete_offsets_drift [of srcs c] z by auto
  obtain k where k: "k \<le> length edges" "drift (s_batch_put_edges edges ts c) = of_nat k"
    "k = 0 \<longleftrightarrow> distinct (inside (length (entries c)) (map fst edges)) \<and>
      (\<forall>v\<in>set (inside (length (entries c)) (map fst edges)). \<not> live (entries c ! v))"
    using s_batch_put_edges_drift [OF assms(2), of edges c] z by auto
  have "s_counted (s_batch_delete_offsets srcs c) \<longleftrightarrow> m = 0" "s_counted (s_batch_put_edges edges ts c) \<longleftrightarrow> k = 0"
    using m(1,2) k(1,2) assms(4,5) of_nat_zero_small [of m] of_nat_zero_small [of k]
    by (simp_all add: s_counted_drift)
  then show ?thesis using s_marking_counted [OF assms(1,3)] m(3) k(3) by blast
qed

theorem single_batch_counted_witness:
  "s_counted (s_batch_delete_offsets [0] \<lparr>entries = [\<lparr>neighbor = 1, nts = 0, ndata = (4 :: nat)\<rparr>], s_edge_num = 1\<rparr>) \<and>
   \<not> s_counted (s_batch_put_edges [(0, 1, 5)] 3 \<lparr>entries = [\<lparr>neighbor = 1, nts = 0, ndata = (4 :: nat)\<rparr>], s_edge_num = 1\<rparr>)"
proof -
  let ?c = "\<lparr>entries = [\<lparr>neighbor = 1, nts = 0, ndata = 4\<rparr>], s_edge_num = 1\<rparr> :: nat single_csr"
  have "s_counted ?c" by (simp add: s_counted_def live_count_def INVALID_TIMESTAMP_def)
  from single_batch_counted [OF this, of 3 "[0]" "[(0, 1, 5)]"] show ?thesis by (simp add: INVALID_TIMESTAMP_def)
qed

text \<open>
  C38. Undoing a deletion restores the adjacency lists, in both classes: after a visible edge is deleted,
  reverting the deletion succeeds and gives the state from before it, with every other entry, the
  capacities, the sort limit and the counter as they were; only the edge itself carries the timestamp
  passed to the revert. With the edge's own timestamp the state is exactly the old one.
\<close>

theorem csr_delete_revert:
  assumes "nts e \<le> ts"
  shows "(delete_edge src off ts c = Some c' \<and> csr_edge_at c (unat src) (nat off) = Some e \<longrightarrow>
      revert_delete_edge src (neighbor e) off ts' c' =
        Some (c\<lparr>rows := (rows c)[unat src := (rows c ! unat src)\<lparr>nbrs :=
          (nbrs (rows c ! unat src))[nat off := e\<lparr>nts := ts'\<rparr>]\<rparr>]\<rparr>) \<and>
      revert_delete_edge src (neighbor e) off (nts e) c' = Some c) \<and>
    (s_delete_edge src off ts sc = Some sc' \<and> s_edge_at sc (unat src) (nat off) = Some e \<longrightarrow>
      s_revert_delete_edge src (neighbor e) off ts' sc' =
        Some (sc\<lparr>entries := (entries sc)[unat src := e\<lparr>nts := ts'\<rparr>]\<rparr>) \<and>
      s_revert_delete_edge src (neighbor e) off (nts e) sc' = Some sc)"
  using delete_edge_revert [OF _ assms] s_delete_edge_revert [OF _ assms] by blast

definition one_edge :: "nat nbr" where
  "one_edge = \<lparr>neighbor = 1, nts = 2, ndata = 5\<rparr>"

definition one_edge_csr :: "nat csr" where
  "one_edge_csr = \<lparr>rows = [\<lparr>nbrs = [one_edge], cap = 8\<rparr>], edge_num = 1, unsorted_since = 0\<rparr>"

definition one_edge_single :: "nat single_csr" where
  "one_edge_single = \<lparr>entries = [one_edge], s_edge_num = 1\<rparr>"

lemma one_edge_deleted:
  "delete_edge 0 0 4 one_edge_csr = Some (one_edge_csr\<lparr>rows := [\<lparr>nbrs = [mark_deleted one_edge], cap = 8\<rparr>], edge_num := 0\<rparr>)"
  "s_delete_edge 0 0 4 one_edge_single = Some \<lparr>entries = [mark_deleted one_edge], s_edge_num = 0\<rparr>"
  "csr_edge_at one_edge_csr (unat (0 :: vid_t)) (nat 0) = Some one_edge"
  "s_edge_at one_edge_single (unat (0 :: vid_t)) (nat 0) = Some one_edge" "nts one_edge \<le> 4" "neighbor one_edge = 1"
  by (simp_all add: one_edge_csr_def one_edge_single_def one_edge_def delete_edge_def s_delete_edge_def
      vertex_capacity_def csr_edge_at_def s_edge_at_def INVALID_TIMESTAMP_def)

theorem csr_delete_revert_witness:
  "revert_delete_edge 0 1 0 (nts one_edge)
     (one_edge_csr\<lparr>rows := [\<lparr>nbrs = [mark_deleted one_edge], cap = 8\<rparr>], edge_num := 0\<rparr>) = Some one_edge_csr \<and>
   s_revert_delete_edge 0 1 0 (nts one_edge) \<lparr>entries = [mark_deleted one_edge], s_edge_num = 0\<rparr> = Some one_edge_single"
  using csr_delete_revert [OF one_edge_deleted(5)] one_edge_deleted by metis

text \<open>
  C19. A snapshot can be opened again exactly when it has no deleted edge: then opening gives back the
  rows with their capacities, the counter and the sort limit. With a deleted edge in some row the
  counter is less than the sum of the degrees, and opening throws.
\<close>

theorem csr_snapshot_roundtrip:
  assumes "csr_wf c" and "counted c"
  shows "csr_open (csr_dump c) =
    (if \<forall>r\<in>set (rows c). \<forall>e\<in>set (nbrs r). live e then Some c else None)"
proof -
  have le: "\<forall>r\<in>set (rows c). length (nbrs r) \<le> cap r" using assms(1) by (simp add: csr_wf_def)
  have caps: "(case cap_list (csr_dump c) of None \<Rightarrow> degree_list (csr_dump c) | Some l \<Rightarrow> l) = map cap (rows c)"
    by (auto simp: csr_dump_def intro: map_cong)
  have rows: "split_rows (degree_list (csr_dump c)) (map cap (rows c)) (nbr_file (csr_dump c)) = Some (rows c)"
    using split_rows_dump [OF le] by (simp add: csr_dump_def)
  have deg: "sum_list (degree_list (csr_dump c)) = total_size c"
    by (simp add: csr_dump_def total_size_def)
  have "total_size c < 2 ^ 64" using assms(1) by (simp add: csr_wf_def)
  then have "edge_num c = of_nat (total_size c) \<longleftrightarrow> live_num c = total_size c"
    using assms(2) live_num_total(1) [of c]
    by (auto simp: counted_live of_nat_inverse intro: of_nat_inverse dest: arg_cong [where f = unat])
  moreover have "\<lparr>rows = rows c, edge_num = edge_num c, unsorted_since = unsorted_since c\<rparr> = c" by simp
  ultimately show ?thesis
    using live_num_total(2) [of c] rows
    by (simp add: csr_open_def caps deg) (auto simp: csr_dump_def)
qed

theorem csr_snapshot_roundtrip_witness:
  "csr_open (csr_dump \<lparr>rows = [\<lparr>nbrs = [\<lparr>neighbor = 1, nts = INVALID_TIMESTAMP, ndata = (5 :: nat)\<rparr>],
      cap = 8\<rparr>], edge_num = 0, unsorted_since = 0\<rparr>) = None"
proof -
  let ?c = "\<lparr>rows = [\<lparr>nbrs = [\<lparr>neighbor = 1, nts = INVALID_TIMESTAMP, ndata = (5 :: nat)\<rparr>], cap = 8\<rparr>],
    edge_num = 0, unsorted_since = 0\<rparr>"
  have "csr_wf ?c" "counted ?c"
    by (simp_all add: csr_wf_def total_size_def counted_live live_num_def live_count_def)
  from csr_snapshot_roundtrip [OF this] show ?thesis by simp
qed

text \<open>
  C28. Readers see a snapshot: iterating over the edges of a vertex at a timestamp gives the entries
  inserted at or before it, in order and without the deleted ones; and on an ordered row the reader
  that uses the sort order gives, from the end, exactly those of them above the threshold.
\<close>

theorem csr_readers_agree:
  assumes "ordered_row ts (unsorted_since c) (nbrs (rows c ! unat v))"
  shows "get_edges ts v c = filter (\<lambda>e. nts e \<le> ts) (nbrs (rows c ! unat v)) \<and>
    foreach_nbr_gt ts v t c = filter (\<lambda>e. t < ndata e) (rev (get_edges ts v c))"
  using foreach_nbr_gt_ordered [OF assms, of t]
  by (simp add: get_edges_filter rev_filter conj_commute)

theorem csr_readers_agree_witness:
  "foreach_nbr_gt 9 0 3 \<lparr>rows = [\<lparr>nbrs = [\<lparr>neighbor = 1, nts = 0, ndata = 2\<rparr>,
      \<lparr>neighbor = 2, nts = 0, ndata = 5\<rparr>, \<lparr>neighbor = 3, nts = 7, ndata = (4 :: nat)\<rparr>], cap = 8\<rparr>],
      edge_num = 3, unsorted_since = 5\<rparr> =
    [\<lparr>neighbor = 3, nts = 7, ndata = 4\<rparr>, \<lparr>neighbor = 2, nts = 0, ndata = 5\<rparr>]"
proof -
  let ?c = "\<lparr>rows = [\<lparr>nbrs = [\<lparr>neighbor = 1, nts = 0, ndata = 2\<rparr>,
      \<lparr>neighbor = 2, nts = 0, ndata = 5\<rparr>, \<lparr>neighbor = 3, nts = 7, ndata = (4 :: nat)\<rparr>], cap = 8\<rparr>],
      edge_num = 3, unsorted_since = 5\<rparr>"
  have "ordered_row 9 (unsorted_since ?c) (nbrs (rows ?c ! unat (0 :: vid_t)))"
    by (simp add: ordered_row_def)
  from csr_readers_agree [OF this, of 3] show ?thesis by simp
qed

text \<open>
  The readers that use the sort order do not look at timestamps in the sorted part: a deleted edge
  there is reported, although iteration skips it, and the reader for values below a threshold also
  reports an edge whose value equals the threshold.
\<close>

theorem sorted_readers_wrong:
  assumes "rows c ! unat v = \<lparr>nbrs = [mark_deleted a, b], cap = n\<rparr>"
    and "nts b < unsorted_since c" and "nts b \<le> ts" and "ts \<noteq> INVALID_TIMESTAMP"
    and "t < ndata a" and "t < ndata b" and "ndata a \<le> ndata b"
  shows "get_edges ts v c = [b] \<and> foreach_nbr_gt ts v t c = [b, mark_deleted a] \<and>
    b \<in> set (foreach_nbr_lt ts v (ndata b) c)"
proof -
  have "\<not> nts (mark_deleted a) \<le> ts"
    using assms(4) timestamp_le_INVALID [of ts] by (auto simp: mark_deleted_def intro: order_antisym)
  then show ?thesis
    using assms by (simp add: get_edges_filter foreach_nbr_gt_def foreach_nbr_lt_def not_less [symmetric])
qed

theorem sorted_readers_wrong_witness:
  "\<exists>e. \<not> live e \<and> e \<in> set (foreach_nbr_gt 9 0 3 \<lparr>rows = [\<lparr>nbrs =
     [mark_deleted \<lparr>neighbor = 1, nts = 0, ndata = (4 :: nat)\<rparr>, \<lparr>neighbor = 2, nts = 0, ndata = 5\<rparr>],
      cap = 8\<rparr>], edge_num = 1, unsorted_since = 5\<rparr>)"
proof -
  let ?a = "\<lparr>neighbor = 1, nts = 0, ndata = (4 :: nat)\<rparr>"
    and ?b = "\<lparr>neighbor = 2, nts = 0, ndata = (5 :: nat)\<rparr>"
  have "(9 :: timestamp_t) \<noteq> INVALID_TIMESTAMP" by (simp add: INVALID_TIMESTAMP_def)
  then show ?thesis
    using sorted_readers_wrong [of "\<lparr>rows = [\<lparr>nbrs = [mark_deleted ?a, ?b], cap = 8\<rparr>], edge_num = 1,
        unsorted_since = 5\<rparr>" 0 ?a ?b 8 9 3]
    by (intro exI [of _ "mark_deleted ?a"]) simp
qed

text \<open>
  A checkpoint makes the sorted reader miss edges: compaction for a checkpoint sorts the rows with
  the largest timestamp as the sort limit, so an edge inserted afterwards counts as sorted; if its
  value is not above the threshold, the reader stops there and reports nothing, whatever the row holds.
\<close>

theorem sorted_reader_after_checkpoint:
  assumes "put_edge v dst d ts (batch_sort_by_edge_data MAX_TIMESTAMP c) = Some (k, c')"
    and "ts < MAX_TIMESTAMP" and "ts \<le> ts'" and "d \<le> t"
  shows "foreach_nbr_gt ts' v t c' = []"
proof -
  let ?s = "batch_sort_by_edge_data MAX_TIMESTAMP c"
  have s: "unat v < length (rows ?s)"
    using assms(1) by (auto simp: put_edge_def vertex_capacity_def split: if_splits)
  have "nbrs (rows c' ! unat v) = nbrs (rows ?s ! unat v) @ [\<lparr>neighbor = dst, nts = ts, ndata = d\<rparr>]"
    "unsorted_since c' = MAX_TIMESTAMP"
    using assms(1) s
    by (auto simp: put_edge_def vertex_capacity_def Let_def batch_sort_by_edge_data_def split: if_splits)
  then show ?thesis using assms(2-4) by (simp add: foreach_nbr_gt_def not_less [symmetric])
qed

theorem sorted_reader_after_checkpoint_witness:
  "\<exists>k c'. put_edge 0 3 (1 :: nat) 8 (batch_sort_by_edge_data MAX_TIMESTAMP
      \<lparr>rows = [\<lparr>nbrs = [\<lparr>neighbor = 2, nts = 0, ndata = 5\<rparr>], cap = 8\<rparr>], edge_num = 1, unsorted_since = 0\<rparr>)
      = Some (k, c') \<and> foreach_nbr_gt 9 0 4 c' = [] \<and> get_edges 9 0 c' \<noteq> []"
proof -
  let ?c = "\<lparr>rows = [\<lparr>nbrs = [\<lparr>neighbor = 2, nts = 0, ndata = 5\<rparr>], cap = 8\<rparr>], edge_num = 1,
    unsorted_since = 0\<rparr> :: nat csr"
  obtain c' where c': "put_edge 0 3 1 8 (batch_sort_by_edge_data MAX_TIMESTAMP ?c) = Some (1, c')"
    and row: "nbrs (rows c' ! 0) = [\<lparr>neighbor = 2, nts = 0, ndata = 5\<rparr>, \<lparr>neighbor = 3, nts = 8, ndata = 1\<rparr>]"
    by (simp add: put_edge_def batch_sort_by_edge_data_def vertex_capacity_def)
  then show ?thesis
    using sorted_reader_after_checkpoint [OF c', of 9 4]
    by (auto simp: MAX_TIMESTAMP_def get_edges_filter)
qed

text \<open>
  Deleting edges by their endpoints counts an edge that is already deleted once more: the counter
  then wraps below zero, and the next compaction throws.
\<close>

theorem batch_delete_edges_miscounts:
  assumes "c = \<lparr>rows = [\<lparr>nbrs = [mark_deleted e], cap = n\<rparr>], edge_num = 0, unsorted_since = u\<rparr>"
  shows "counted c \<and> edge_num (batch_delete_edges [(0, neighbor e)] c) = - 1 \<and>
    \<not> fst (compact (batch_delete_edges [(0, neighbor e)] c))"
  unfolding assms
  by (simp add: counted_live live_num_def live_count_def batch_delete_edges_def vertex_capacity_def
      Let_def compact_def total_size_def)

theorem batch_delete_edges_miscounts_witness:
  "edge_num (batch_delete_edges [(0, 1)] \<lparr>rows = [\<lparr>nbrs =
     [mark_deleted \<lparr>neighbor = 1, nts = 0, ndata = (4 :: nat)\<rparr>], cap = 8\<rparr>], edge_num = 0,
     unsorted_since = 0\<rparr>) = - 1"
  using batch_delete_edges_miscounts [OF refl, of "\<lparr>neighbor = 1, nts = 0, ndata = (4 :: nat)\<rparr>" 8 0]
  by simp

end
