(* ===== verification/Kcore.thy ===== *)
theory Kcore
  imports Prelude
begin

text \<open>
  Core decomposition, \<^verbatim>\<open>extension/kcore/include/kcore_functions.h\<close>: the class
  \<^verbatim>\<open>KcoreComputer\<close> with its three ways to build an undirected graph from the stored one and
  the peeling algorithm of Batagelj and Zaversnik on arrays. The arrays of the algorithm are lists
  indexed by vertex, degree or position, updated in place as in the code.

  The lemmas show that the array algorithm is right: the number it assigns to a vertex is the largest
  \<open>k\<close> such that the vertex belongs to a set of vertices in which every vertex has at least \<open>k\<close>
  neighbors. In particular it does not depend on the order of the adjacency lists, which the code
  leaves to the iteration order of hash maps.
\<close>

section \<open>Neighbors without duplicates and loops\<close>

type_synonym 'w adjacency = "(nat \<times> 'w) list list"

fun dedup_nbrs :: "nat \<Rightarrow> nat list \<Rightarrow> (nat \<times> 'w) list \<Rightarrow> nat list" where
  "dedup_nbrs u seen [] = []"
| "dedup_nbrs u seen ((v, w) # es) =
     (if v = u then dedup_nbrs u seen es
      else if v \<in> set seen then dedup_nbrs u seen es
      else v # dedup_nbrs u (v # seen) es)"

definition neighbor_lists :: "'w adjacency \<Rightarrow> nat list list" where
  "neighbor_lists adj = map (\<lambda>u. dedup_nbrs u [] (adj ! u)) [0..<length adj]"

section \<open>Peeling\<close>

record kstate =
  deg :: "nat list"
  bin :: "nat list"
  vert :: "nat list"
  pos :: "nat list"

definition degrees :: "nat list list \<Rightarrow> nat list" where
  "degrees nbr = map length nbr"

definition max_degree :: "nat list \<Rightarrow> nat" where
  "max_degree ds = fold (\<lambda>d md. if d > md then d else md) ds 0"

text \<open>The bucket sort: count the degrees, turn counts into first positions, place the vertices.\<close>

definition count_degrees :: "nat \<Rightarrow> nat list \<Rightarrow> nat list" where
  "count_degrees md ds = fold (\<lambda>d b. b[d := b ! d + 1]) ds (replicate (md + 2) 0)"

definition bin_starts :: "nat \<Rightarrow> nat list \<Rightarrow> nat list" where
  "bin_starts md b =
     fst (fold (\<lambda>d (b, start). (b[d := start], start + b ! d)) [0..<md + 1] (b, 0))"

definition place :: "nat \<Rightarrow> kstate \<Rightarrow> kstate" where
  "place v s =
     (let p = bin s ! (deg s ! v)
      in s\<lparr>pos := (pos s)[v := p], vert := (vert s)[p := v],
           bin := (bin s)[deg s ! v := bin s ! (deg s ! v) + 1]\<rparr>)"

definition restore_bin :: "nat \<Rightarrow> nat list \<Rightarrow> nat list" where
  "restore_bin md b = (fold (\<lambda>d b. b[d := b ! (d - 1)]) (rev [1..<md + 1]) b)[0 := 0]"

definition kcore_init :: "nat list list \<Rightarrow> kstate" where
  "kcore_init nbr =
     (let n = length nbr; ds = degrees nbr; md = max_degree ds;
          s = \<lparr>deg = ds, bin = bin_starts md (count_degrees md ds),
               vert = replicate n 0, pos = replicate n 0\<rparr>;
          s = fold place [0..<n] s
      in s\<lparr>bin := restore_bin md (bin s)\<rparr>)"

text \<open>One neighbor \<open>u\<close> of the vertex \<open>v\<close> that is peeled: move \<open>u\<close> to the front of its degree class.\<close>

definition relax :: "nat \<Rightarrow> nat \<Rightarrow> kstate \<Rightarrow> kstate" where
  "relax v u s =
     (if deg s ! u > deg s ! v
      then let du = deg s ! u; pu = pos s ! u; pw = bin s ! du; w = vert s ! pw;
               s = (if u \<noteq> w
                    then s\<lparr>pos := (pos s)[u := pw, w := pu], vert := (vert s)[pw := u, pu := w]\<rparr>
                    else s)
           in s\<lparr>bin := (bin s)[du := bin s ! du + 1], deg := (deg s)[u := deg s ! u - 1]\<rparr>
      else s)"

definition peel :: "nat list list \<Rightarrow> nat \<Rightarrow> kstate \<times> nat list \<Rightarrow> kstate \<times> nat list" where
  "peel nbr i sc =
     (case sc of (s, coreness) \<Rightarrow>
        let v = vert s ! i in (fold (relax v) (nbr ! v) s, coreness[v := deg s ! v]))"

definition RunKCore :: "'w adjacency \<Rightarrow> nat list" where
  "RunKCore adj =
     (let n = length adj; nbr = neighbor_lists adj
      in snd (fold (peel nbr) [0..<n] (kcore_init nbr, replicate n 0)))"

section \<open>Deduplication\<close>

lemma dedup_nbrs_set: "set (dedup_nbrs u seen es) = fst ` set es - insert u (set seen)"
  by (induction u seen es rule: dedup_nbrs.induct) auto

lemma dedup_nbrs_distinct: "distinct (dedup_nbrs u seen es)"
  by (induction u seen es rule: dedup_nbrs.induct) (auto simp: dedup_nbrs_set)

section \<open>The order of the array\<close>

definition inverse_lists :: "nat \<Rightarrow> nat list \<Rightarrow> nat list \<Rightarrow> bool" where
  "inverse_lists n xs ys \<longleftrightarrow> length xs = n \<and> length ys = n \<and>
     (\<forall>j<n. xs ! j < n \<and> ys ! (xs ! j) = j) \<and> (\<forall>j<n. ys ! j < n \<and> xs ! (ys ! j) = j)"

lemma inverse_lists_swap:
  assumes inv: "inverse_lists n xs ys" and p: "p < n" and q: "q < n"
  shows "inverse_lists n (xs[p := xs ! q, q := xs ! p]) (ys[xs ! q := p, xs ! p := q])"
proof -
  have l: "length xs = n" "length ys = n" using inv by (simp_all add: inverse_lists_def)
  have x: "xs ! j < n" "ys ! (xs ! j) = j" if "j < n" for j
    using inv that by (simp_all add: inverse_lists_def)
  have y: "ys ! j < n" "xs ! (ys ! j) = j" if "j < n" for j
    using inv that by (simp_all add: inverse_lists_def)
  have inj: "xs ! j = xs ! k \<longleftrightarrow> j = k" if "j < n" "k < n" for j k using x that by metis
  show ?thesis
    unfolding inverse_lists_def
  proof (intro conjI allI impI)
    fix j assume j: "j < n"
    show "xs[p := xs ! q, q := xs ! p] ! j < n" using j l x p q by (simp add: nth_list_update)
    show "ys[xs ! q := p, xs ! p := q] ! (xs[p := xs ! q, q := xs ! p] ! j) = j"
      using j l x p q inj by (simp add: nth_list_update)
    show "ys[xs ! q := p, xs ! p := q] ! j < n" using j l y p q x by (simp add: nth_list_update)
    show "xs[p := xs ! q, q := xs ! p] ! (ys[xs ! q := p, xs ! p := q] ! j) = j"
      using j l x y p q by (auto simp: nth_list_update)
  qed (use l in simp_all)
qed

text \<open>The array part of the invariant.\<close>

definition arrays_ok :: "nat \<Rightarrow> nat \<Rightarrow> kstate \<Rightarrow> bool" where
  "arrays_ok n md s \<longleftrightarrow>
     length (deg s) = n \<and> md < length (bin s) \<and> inverse_lists n (vert s) (pos s) \<and>
     (\<forall>j k. j \<le> k \<longrightarrow> k < n \<longrightarrow> deg s ! (vert s ! j) \<le> deg s ! (vert s ! k)) \<and>
     (\<forall>u<n. deg s ! u \<le> md) \<and>
     (\<forall>d\<le>md. bin s ! d = card {u. u < n \<and> deg s ! u < d})"

lemma arrays_okD:
  assumes "arrays_ok n md s"
  shows "length (deg s) = n" "length (vert s) = n" "length (pos s) = n" "md < length (bin s)"
    and "u < n \<Longrightarrow> pos s ! u < n" "u < n \<Longrightarrow> vert s ! (pos s ! u) = u"
    and "j < n \<Longrightarrow> vert s ! j < n" "j < n \<Longrightarrow> pos s ! (vert s ! j) = j"
    and "j \<le> k \<Longrightarrow> k < n \<Longrightarrow> deg s ! (vert s ! j) \<le> deg s ! (vert s ! k)"
    and "u < n \<Longrightarrow> deg s ! u \<le> md"
    and "d \<le> md \<Longrightarrow> bin s ! d = card {u. u < n \<and> deg s ! u < d}"
  using assms unfolding arrays_ok_def inverse_lists_def by blast+

text \<open>The first position of a degree class: everything before it is smaller, nothing from it on.\<close>

lemma bin_position:
  assumes ok: "arrays_ok n md s" and d: "d \<le> md" and j: "j < n"
  shows "j < bin s ! d \<longleftrightarrow> deg s ! (vert s ! j) < d"
proof -
  let ?A = "{u. u < n \<and> deg s ! u < d}" and ?J = "{j. j < n \<and> deg s ! (vert s ! j) < d}"
  have "bij_betw (\<lambda>j. vert s ! j) ?J ?A"
    by (rule bij_betw_byWitness [where f' = "\<lambda>u. pos s ! u"]) (use arrays_okD(5-8) [OF ok] in auto)
  then have card: "card ?J = bin s ! d"
    using arrays_okD(11) [OF ok d] by (simp add: bij_betw_same_card)
  have down: "k \<in> ?J" if "j \<in> ?J" "k \<le> j" for j k
    using that arrays_okD(9) [OF ok, of k j] by auto
  have "?J = {..<card ?J}"
  proof -
    have fin: "finite ?J" by simp
    have "?J \<subseteq> {..<card ?J}"
    proof
      fix j assume j: "j \<in> ?J"
      then have "{..j} \<subseteq> ?J" using down by auto
      from card_mono [OF fin this] show "j \<in> {..<card ?J}" by simp
    qed
    then show ?thesis by (intro card_subset_eq) simp_all
  qed
  then show ?thesis using card j by auto
qed

section \<open>Moving one neighbor\<close>

lemma relax_small: "\<not> deg s ! u > deg s ! v \<Longrightarrow> relax v u s = s"
  by (simp add: relax_def)

lemma relax_positions:
  assumes ok: "arrays_ok n md s" and u: "u < n" and i: "i < n" and gt: "deg s ! (vert s ! i) < deg s ! u"
  defines "du \<equiv> deg s ! u"
  defines "pw \<equiv> bin s ! du"
  defines "w \<equiv> vert s ! pw"
  shows "du \<le> md" and "i < pw" and "pw \<le> pos s ! u" and "pw < n" and "w < n" and "pos s ! w = pw"
    and "deg s ! w = du"
    and "j < pw \<Longrightarrow> deg s ! (vert s ! j) < du" and "pw \<le> j \<Longrightarrow> j < n \<Longrightarrow> du \<le> deg s ! (vert s ! j)"
proof -
  note f = arrays_okD [OF ok]
  show d: "du \<le> md" using f(10) [OF u] by (simp add: du_def)
  note b = bin_position [OF ok d]
  have "\<not> pos s ! u < pw" using b [of "pos s ! u"] f(5,6) [OF u] by (simp add: pw_def du_def)
  then show le: "pw \<le> pos s ! u" by simp
  then show n: "pw < n" using f(5) [OF u] by simp
  show "i < pw" using b [OF i] gt by (simp add: pw_def du_def)
  show "w < n" "pos s ! w = pw" using f(7,8) [OF n] by (simp_all add: w_def)
  have "deg s ! w \<le> du" using f(9) [OF le f(5) [OF u]] f(6) [OF u] by (simp add: w_def du_def)
  moreover have "\<not> deg s ! w < du" using b [OF n] by (simp add: w_def pw_def)
  ultimately show "deg s ! w = du" by simp
  show "j < pw \<Longrightarrow> deg s ! (vert s ! j) < du" using b [of j] n by (simp add: pw_def)
  show "pw \<le> j \<Longrightarrow> j < n \<Longrightarrow> du \<le> deg s ! (vert s ! j)" using b [of j] by (simp add: pw_def not_less)
qed

lemma relax_fields:
  assumes ok: "arrays_ok n md s" and u: "u < n" and i: "i < n" and v: "v = vert s ! i"
    and gt: "deg s ! v < deg s ! u"
  defines "pw \<equiv> bin s ! (deg s ! u)"
  shows "deg (relax v u s) = (deg s)[u := deg s ! u - 1]"
    and "bin (relax v u s) = (bin s)[deg s ! u := pw + 1]"
    and "vert (relax v u s) = (vert s)[pw := u, pos s ! u := vert s ! pw]"
    and "pos (relax v u s) = (pos s)[u := pw, vert s ! pw := pos s ! u]"
proof -
  note r = relax_positions [OF ok u i gt [unfolded v]]
  show "deg (relax v u s) = (deg s)[u := deg s ! u - 1]"
    "bin (relax v u s) = (bin s)[deg s ! u := pw + 1]"
    using gt by (simp_all add: relax_def Let_def pw_def)
  show "vert (relax v u s) = (vert s)[pw := u, pos s ! u := vert s ! pw]"
    "pos (relax v u s) = (pos s)[u := pw, vert s ! pw := pos s ! u]"
  proof (atomize (full), cases "vert s ! pw = u")
    case True
    then have p: "pos s ! u = pw" using r(6) by (simp add: pw_def)
    have "vert (relax v u s) = vert s" "pos (relax v u s) = pos s"
      using gt True by (simp_all add: relax_def Let_def pw_def)
    moreover have "(vert s)[pw := u, pw := u] = vert s" "(pos s)[u := pw, u := pw] = pos s"
      using True p list_update_id [of "vert s" pw] list_update_id [of "pos s" u] by simp_all
    ultimately show "vert (relax v u s) = (vert s)[pw := u, pos s ! u := vert s ! pw] \<and>
        pos (relax v u s) = (pos s)[u := pw, vert s ! pw := pos s ! u]"
      unfolding True p by simp
  next
    case False
    then have "(u = vert s ! (bin s ! (deg s ! u))) = False" by (auto simp: pw_def)
    then show "vert (relax v u s) = (vert s)[pw := u, pos s ! u := vert s ! pw] \<and>
        pos (relax v u s) = (pos s)[u := pw, vert s ! pw := pos s ! u]"
      using gt by (simp add: relax_def Let_def pw_def)
  qed
qed


lemma relax_arrays:
  assumes ok: "arrays_ok n md s" and u: "u < n" and i: "i < n" and v: "v = vert s ! i"
    and gt: "deg s ! v < deg s ! u"
  shows "arrays_ok n md (relax v u s)" and "j \<le> i \<Longrightarrow> vert (relax v u s) ! j = vert s ! j"
proof -
  note f = arrays_okD [OF ok]
  define du where "du = deg s ! u"
  define pw where "pw = bin s ! du"
  define pu where "pu = pos s ! u"
  define w where "w = vert s ! pw"
  note r = relax_positions [OF ok u i gt [unfolded v], folded du_def, folded pw_def pu_def, folded w_def]
  note e = relax_fields [OF ok u i v gt, folded du_def, folded pw_def pu_def, folded w_def]
  have pu: "pu < n" "vert s ! pu = u" using f(5,6) [OF u] by (simp_all add: pu_def)
  have vert_u: "vert s ! j = u \<longleftrightarrow> j = pu" if "j < n" for j
    using f(8) [OF that] pu(2) by (auto simp: pu_def)
  show "vert (relax v u s) ! j = vert s ! j" if "j \<le> i" using that r(2,3) by (simp add: e)
  have du: "0 < du" using gt by (simp add: du_def)
  have deg_vert: "deg (relax v u s) ! (vert (relax v u s) ! j) =
      (if j = pw then du - 1 else deg s ! (vert s ! j))" if "j < n" for j
  proof -
    consider "j = pw" | "j \<noteq> pw" "j = pu" | "j \<noteq> pw" "j \<noteq> pu" by blast
    then show ?thesis
    proof cases
      case 1
      then have "(vert s)[pw := u, pu := w] ! j = u"
        using r(4) pu f(2) by (cases "pu = pw") (simp_all add: w_def)
      then show ?thesis using 1 u f(1) by (simp add: e)
    next
      case 2
      then have "w \<noteq> u" using vert_u [OF r(4)] by (auto simp: w_def)
      then show ?thesis using 2 pu f(1,2) r(7) by (simp add: e du_def)
    next
      case 3
      then show ?thesis using vert_u [OF that] by (simp add: e)
    qed
  qed
  show "arrays_ok n md (relax v u s)"
    unfolding arrays_ok_def
  proof (intro conjI allI impI)
    have "inverse_lists n (vert s) (pos s)" using ok by (simp add: arrays_ok_def)
    from inverse_lists_swap [OF this r(4) pu(1)] show "inverse_lists n (vert (relax v u s)) (pos (relax v u s))"
      by (simp add: e w_def [symmetric] pu(2))
  next
    fix j k assume jk: "j \<le> k" "k < n"
    have "deg s ! (vert s ! j) \<le> deg s ! (vert s ! k)" using f(9) [OF jk] .
    then show "deg (relax v u s) ! (vert (relax v u s) ! j) \<le> deg (relax v u s) ! (vert (relax v u s) ! k)"
      unfolding deg_vert [OF jk(2)] deg_vert [OF le_less_trans [OF jk]]
      using r(8) [of j] r(9) [of k] jk by auto
  next
    fix d assume d: "d \<le> md"
    have eq: "{x. x < n \<and> (deg s)[u := du - 1] ! x < d} =
        (if d = du then insert u {x. x < n \<and> deg s ! x < d} else {x. x < n \<and> deg s ! x < d})"
      using u f(1) du by (auto simp: nth_list_update du_def)
    have "card (insert u {x. x < n \<and> deg s ! x < du}) = Suc pw"
      using f(11) [OF r(1)] by (simp add: du_def pw_def)
    moreover have "bin (relax v u s) ! d = (if d = du then Suc pw else card {x. x < n \<and> deg s ! x < d})"
      using f(4) f(11) [OF d] d unfolding e by (cases "d = du") (simp_all add: nth_list_update)
    ultimately show "bin (relax v u s) ! d = card {x. x < n \<and> deg (relax v u s) ! x < d}"
      unfolding e(1) eq by (cases "d = du") simp_all
  next
    fix x assume x: "x < n"
    show "deg (relax v u s) ! x \<le> md"
      using f(1) f(10) [OF x] r(1) u x by (cases "x = u") (simp_all add: e)
  qed (use f(1,4) in \<open>simp_all add: e\<close>)
qed

text \<open>Peeling a vertex lowers the degree of exactly its neighbors of larger degree, by one.\<close>

lemma relax_fold:
  assumes "arrays_ok n md s" "i < n" "v = vert s ! i" "distinct us" "set us \<subseteq> {..<n}"
  shows "arrays_ok n md (fold (relax v) us s) \<and>
      (\<forall>j\<le>i. vert (fold (relax v) us s) ! j = vert s ! j) \<and>
      (\<forall>x<n. deg (fold (relax v) us s) ! x =
         (if x \<in> set us \<and> deg s ! v < deg s ! x then deg s ! x - 1 else deg s ! x))"
  using assms
proof (induction us arbitrary: s)
  case Nil
  then show ?case by simp
next
  case (Cons u us)
  note ok = Cons.prems(1) and i = Cons.prems(2) and v = Cons.prems(3)
  have u: "u < n" and us: "distinct us" "set us \<subseteq> {..<n}" "u \<notin> set us" using Cons.prems(4,5) by simp_all
  show ?case
  proof (cases "deg s ! v < deg s ! u")
    case False
    have "\<forall>x<n. (x \<in> set us \<and> deg s ! v < deg s ! x) = (x \<in> set (u # us) \<and> deg s ! v < deg s ! x)"
      using False by auto
    then show ?thesis using Cons.IH [OF ok i v us(1,2)] False by (simp add: relax_small)
  next
    case True
    define s' where "s' = relax v u s"
    have keep: "vert s' ! j = vert s ! j" if "j \<le> i" for j
      using relax_arrays(2) [OF ok u i v True that] by (simp add: s'_def)
    have v': "v = vert s' ! i" using v keep [of i] by simp
    have deg': "deg s' ! x = (if x = u then deg s ! u - 1 else deg s ! x)" if "x < n" for x
      using relax_fields(1) [OF ok u i v True] arrays_okD(1) [OF ok] u that
      by (auto simp: s'_def nth_list_update)
    have vn: "v < n" using arrays_okD(7) [OF ok i] v by simp
    have dv: "deg s' ! v = deg s ! v" using deg' [OF vn] True by auto
    note IH = Cons.IH [OF relax_arrays(1) [OF ok u i v True, folded s'_def] i v' us(1,2)]
    have "fold (relax v) (u # us) s = fold (relax v) us s'" by (simp add: s'_def)
    moreover have "(if x \<in> set us \<and> deg s' ! v < deg s' ! x then deg s' ! x - 1 else deg s' ! x) =
        (if x \<in> set (u # us) \<and> deg s ! v < deg s ! x then deg s ! x - 1 else deg s ! x)" if "x < n" for x
      using True us(3) deg' [OF that] by (cases "x = u") (simp_all add: dv)
    ultimately show ?thesis using IH keep by simp
  qed
qed

section \<open>Core numbers\<close>

text \<open>
  The specification. A vertex is in a \<open>k\<close>-core of the graph with neighborhoods \<open>N\<close> on the vertices
  \<open>{..<n}\<close> if it lies in a set of vertices each of which has at least \<open>k\<close> neighbors in the set.
\<close>

definition dense :: "(nat \<Rightarrow> nat set) \<Rightarrow> nat \<Rightarrow> nat set \<Rightarrow> nat \<Rightarrow> bool" where
  "dense N n H k \<longleftrightarrow> H \<subseteq> {..<n} \<and> (\<forall>w\<in>H. k \<le> card (N w \<inter> H))"

definition in_core :: "(nat \<Rightarrow> nat set) \<Rightarrow> nat \<Rightarrow> nat \<Rightarrow> nat \<Rightarrow> bool" where
  "in_core N n k v \<longleftrightarrow> (\<exists>H. dense N n H k \<and> v \<in> H)"

text \<open>The graphs that peeling works on.\<close>

definition simple_graph :: "(nat \<Rightarrow> nat set) \<Rightarrow> nat \<Rightarrow> bool" where
  "simple_graph N n \<longleftrightarrow> (\<forall>u<n. N u \<subseteq> {..<n} \<and> u \<notin> N u \<and> (\<forall>v\<in>N u. u \<in> N v))"

text \<open>The vertices not peeled yet.\<close>

definition alive :: "nat \<Rightarrow> nat \<Rightarrow> kstate \<Rightarrow> nat set" where
  "alive n i s = {u. u < n \<and> (\<forall>j<i. vert s ! j \<noteq> u)}"

definition peel_inv :: "(nat \<Rightarrow> nat set) \<Rightarrow> nat \<Rightarrow> nat \<Rightarrow> nat \<Rightarrow> nat \<Rightarrow> kstate \<times> nat list \<Rightarrow> bool" where
  "peel_inv N n md c i sc \<longleftrightarrow>
     (case sc of (s, core) \<Rightarrow>
        arrays_ok n md s \<and> length core = n \<and>
        (\<forall>u\<in>alive n i s. c \<le> deg s ! u \<and> card (N u \<inter> alive n i s) \<le> deg s ! u \<and>
           (c < deg s ! u \<longrightarrow> deg s ! u = card (N u \<inter> alive n i s))) \<and>
        (\<forall>u<n. u \<notin> alive n i s \<longrightarrow> core ! u \<le> c \<and> (\<forall>k. in_core N n k u \<longleftrightarrow> k \<le> core ! u)) \<and>
        (\<exists>H. dense N n H c \<and> alive n i s \<subseteq> H))"

lemma dense_mono: "dense N n H k \<Longrightarrow> m \<le> k \<Longrightarrow> dense N n H m"
  by (auto simp: dense_def)

lemma alive_subset: "alive n i s \<subseteq> {..<n}" "finite (alive n i s)"
  by (auto simp: alive_def)

text \<open>Peeling decides the vertex with the smallest remaining degree.\<close>

lemma peel_decides:
  assumes inv: "peel_inv N n md c i (s, core)" and i: "i < n" and v: "v = vert s ! i"
  shows "v \<in> alive n i s" and "\<forall>u\<in>alive n i s. deg s ! v \<le> deg s ! u"
    and "\<exists>H. dense N n H (deg s ! v) \<and> alive n i s \<subseteq> H"
    and "in_core N n k v \<longleftrightarrow> k \<le> deg s ! v"
proof -
  let ?U = "alive n i s"
  have ok: "arrays_ok n md s"
    and deg: "\<And>u. u \<in> ?U \<Longrightarrow> c \<le> deg s ! u \<and> card (N u \<inter> ?U) \<le> deg s ! u \<and>
      (c < deg s ! u \<longrightarrow> deg s ! u = card (N u \<inter> ?U))"
    and peeled: "\<And>u k. u < n \<Longrightarrow> u \<notin> ?U \<Longrightarrow> core ! u \<le> c \<and> (in_core N n k u \<longleftrightarrow> k \<le> core ! u)"
    using inv by (simp_all add: peel_inv_def)
  obtain H where H: "dense N n H c" "?U \<subseteq> H" using inv by (auto simp: peel_inv_def)
  have "vert s ! j \<noteq> vert s ! i" if "j < i" for j
    using arrays_okD(8) [OF ok i] arrays_okD(8) [OF ok, of j] that i by auto
  then show vU: "v \<in> ?U" using arrays_okD(7) [OF ok i] by (simp add: alive_def v)
  show min: "\<forall>u\<in>?U. deg s ! v \<le> deg s ! u"
  proof
    fix u assume "u \<in> ?U"
    then have u: "u < n" "\<not> pos s ! u < i" using arrays_okD(6) [OF ok, of u] by (auto simp: alive_def)
    then show "deg s ! v \<le> deg s ! u"
      using arrays_okD(9) [OF ok, of i "pos s ! u"] arrays_okD(5,6) [OF ok u(1)] by (simp add: v)
  qed
  show ex: "\<exists>H. dense N n H (deg s ! v) \<and> ?U \<subseteq> H"
  proof (cases "deg s ! v = c")
    case True
    then show ?thesis using H by auto
  next
    case False
    then have "c < deg s ! v" using deg [OF vU] by simp
    then have "deg s ! v \<le> card (N u \<inter> ?U)" if "u \<in> ?U" for u using min deg [OF that] that by fastforce
    then have "dense N n ?U (deg s ! v)" using alive_subset by (simp add: dense_def)
    then show ?thesis by blast
  qed
  show "in_core N n k v \<longleftrightarrow> k \<le> deg s ! v"
  proof
    assume "in_core N n k v"
    then obtain H where H: "dense N n H k" "v \<in> H" by (auto simp: in_core_def)
    show "k \<le> deg s ! v"
    proof (cases "H \<subseteq> ?U")
      case True
      have "k \<le> card (N v \<inter> H)" using H by (simp add: dense_def)
      also have "\<dots> \<le> card (N v \<inter> ?U)" using True by (intro card_mono) (auto simp: alive_def)
      finally show ?thesis using deg [OF vU] by simp
    next
      case False
      then obtain x where x: "x \<in> H" "x \<notin> ?U" by auto
      then have "in_core N n k x" "x < n" using H(1) by (auto simp: in_core_def dense_def)
      then show ?thesis using peeled [OF _ x(2)] deg [OF vU] by fastforce
    qed
  next
    assume "k \<le> deg s ! v"
    then show "in_core N n k v" using ex vU dense_mono unfolding in_core_def by blast
  qed
qed

lemma card_remove_nbr:
  assumes g: "simple_graph N n" and v: "v \<in> U" "v < n" and u: "u \<in> N v" and fin: "finite U"
  shows "card (N u \<inter> (U - {v})) = card (N u \<inter> U) - 1"
proof -
  have "u < n" "v \<in> N u" using g v u by (auto simp: simple_graph_def)
  then have "v \<in> N u \<inter> U" "N u \<inter> (U - {v}) = (N u \<inter> U) - {v}" using v by auto
  then show ?thesis using fin by simp
qed

lemma peel_step:
  assumes g: "simple_graph N n" and nbr: "\<And>u. u < n \<Longrightarrow> set (nbr ! u) = N u \<and> distinct (nbr ! u)"
    and inv: "peel_inv N n md c i (s, core)" and i: "i < n"
  shows "peel_inv N n md (deg s ! (vert s ! i)) (Suc i) (peel nbr i (s, core))"
proof -
  define v where "v = vert s ! i"
  define s' where "s' = fold (relax v) (nbr ! v) s"
  let ?U = "alive n i s" and ?U' = "alive n (Suc i) s'"
  note d = peel_decides [OF inv i v_def]
  have ok: "arrays_ok n md s" and len: "length core = n"
    and deg: "\<And>u. u \<in> ?U \<Longrightarrow> c \<le> deg s ! u \<and> card (N u \<inter> ?U) \<le> deg s ! u \<and>
      (c < deg s ! u \<longrightarrow> deg s ! u = card (N u \<inter> ?U))"
    and peeled: "\<And>u k. u < n \<Longrightarrow> u \<notin> ?U \<Longrightarrow> core ! u \<le> c \<and> (in_core N n k u \<longleftrightarrow> k \<le> core ! u)"
    using inv by (simp_all add: peel_inv_def)
  have vn: "v < n" using d(1) by (simp add: alive_def)
  then have "set (nbr ! v) \<subseteq> {..<n}" using nbr g by (simp add: simple_graph_def)
  from relax_fold [OF ok i v_def _ this] nbr [OF vn]
  have ok': "arrays_ok n md s'" and keep: "\<And>j. j \<le> i \<Longrightarrow> vert s' ! j = vert s ! j"
    and deg': "\<And>x. x < n \<Longrightarrow> deg s' ! x =
      (if x \<in> N v \<and> deg s ! v < deg s ! x then deg s ! x - 1 else deg s ! x)"
    by (simp_all add: s'_def)
  have U': "?U' = ?U - {v}" using keep by (auto simp: alive_def v_def less_Suc_eq)
  have vv: "v \<notin> N v" using g vn by (simp add: simple_graph_def)
  have "deg s ! v \<le> deg s' ! u \<and> card (N u \<inter> ?U') \<le> deg s' ! u \<and>
      (deg s ! v < deg s' ! u \<longrightarrow> deg s' ! u = card (N u \<inter> ?U'))" if "u \<in> ?U'" for u
  proof -
    have u: "u \<in> ?U" "u \<noteq> v" using that unfolding U' by simp_all
    then have un: "u < n" by (simp add: alive_def)
    have le: "deg s ! v \<le> deg s ! u" "c \<le> deg s ! v" using d(1,2) u deg by auto
    show ?thesis
    proof (cases "u \<in> N v")
      case True
      then have "card (N u \<inter> ?U') = card (N u \<inter> ?U) - 1"
        unfolding U' using card_remove_nbr [OF g d(1) vn _ alive_subset(2)] by simp
      then show ?thesis using deg [OF u(1)] le True deg' [OF un] by auto
    next
      case False
      then have "v \<notin> N u" using g un vn by (auto simp: simple_graph_def)
      then have "N u \<inter> ?U' = N u \<inter> ?U" using U' by auto
      then show ?thesis using deg [OF u(1)] le False deg' [OF un] by auto
    qed
  qed
  moreover have "core[v := deg s ! v] ! u \<le> deg s ! v \<and>
      (\<forall>k. in_core N n k u \<longleftrightarrow> k \<le> core[v := deg s ! v] ! u)" if "u < n" "u \<notin> ?U'" for u
  proof (cases "u = v")
    case True
    then show ?thesis using d(4) len vn by simp
  next
    case False
    then have "u \<notin> ?U" using that U' by simp
    note peeled [OF that(1) this]
    then have "core ! u \<le> c" "\<And>k. in_core N n k u \<longleftrightarrow> k \<le> core ! u" by simp_all
    then show ?thesis using deg [OF d(1)] False by simp
  qed
  moreover have "\<exists>H. dense N n H (deg s ! v) \<and> ?U' \<subseteq> H" using d(3) U' by auto
  ultimately have "peel_inv N n md (deg s ! v) (Suc i) (s', core[v := deg s ! v])"
    using ok' len by (simp add: peel_inv_def)
  then show ?thesis by (simp add: peel_def v_def [symmetric] s'_def Let_def)
qed

lemma peel_all:
  assumes g: "simple_graph N n" and nbr: "\<And>u. u < n \<Longrightarrow> set (nbr ! u) = N u \<and> distinct (nbr ! u)"
    and inv: "peel_inv N n md c 0 sc"
  shows "i \<le> n \<Longrightarrow> \<exists>c. peel_inv N n md c i (fold (peel nbr) [0..<i] sc)"
proof (induction i)
  case 0
  then show ?case using inv by auto
next
  case (Suc i)
  then obtain c where "peel_inv N n md c i (fold (peel nbr) [0..<i] sc)" by auto
  then show ?case using peel_step [OF g nbr, of md c i] Suc.prems
    by (cases "fold (peel nbr) [0..<i] sc") fastforce
qed

section \<open>The bucket sort\<close>

definition below :: "nat list \<Rightarrow> nat \<Rightarrow> nat" where
  "below ds d = card {u. u < length ds \<and> ds ! u < d}"

definition before :: "nat list \<Rightarrow> nat \<Rightarrow> nat \<Rightarrow> bool" where
  "before ds u v \<longleftrightarrow> ds ! u < ds ! v \<or> ds ! u = ds ! v \<and> u < v"

definition rank :: "nat list \<Rightarrow> nat \<Rightarrow> nat" where
  "rank ds v = card {u. u < length ds \<and> before ds u v}"

lemma max_degree_fold: "(m :: nat) \<le> fold (\<lambda>d md. if d > md then d else md) ds m"
proof (induction ds arbitrary: m)
  case (Cons d ds)
  show ?case using Cons.IH [of d] Cons.IH [of m] by auto
qed simp

lemma max_degree_ge: "d \<in> set ds \<Longrightarrow> d \<le> max_degree ds"
proof -
  have "d \<in> set ds \<Longrightarrow> d \<le> fold (\<lambda>d md. if d > md then d else md) ds m" for m
    by (induction ds arbitrary: m) (auto intro: order_trans [OF _ max_degree_fold])
  then show "d \<in> set ds \<Longrightarrow> d \<le> max_degree ds" by (simp add: max_degree_def)
qed

lemma count_degrees_nth:
  assumes "\<forall>d\<in>set ds. d \<le> md"
  shows "length (count_degrees md ds) = md + 2"
    and "d \<le> md \<Longrightarrow> count_degrees md ds ! d = count_list ds d"
proof -
  have *: "length (fold (\<lambda>d b. b[d := b ! d + 1]) ds b) = length b \<and>
      ((\<forall>d\<in>set ds. d < length b) \<longrightarrow>
        (\<forall>d<length b. fold (\<lambda>d b. b[d := b ! d + 1]) ds b ! d = b ! d + count_list ds d))" for b :: "nat list"
    by (induction ds arbitrary: b) (auto simp: nth_list_update)
  show "length (count_degrees md ds) = md + 2"
    using * [of "replicate (md + 2) 0"] by (simp add: count_degrees_def)
  show "count_degrees md ds ! d = count_list ds d" if "d \<le> md"
  proof -
    have "\<forall>d\<in>set ds. d < length (replicate (md + 2) (0 :: nat))" using assms by auto
    then have "fold (\<lambda>d b. b[d := b ! d + 1]) ds (replicate (md + 2) 0) ! d =
        replicate (md + 2) 0 ! d + count_list ds d"
      using * [of "replicate (md + 2) 0"] that by fastforce
    then show ?thesis using that by (simp add: count_degrees_def nth_replicate del: replicate.simps replicate_Suc)
  qed
qed

lemma count_list_card: "count_list ds d = card {u. u < length ds \<and> ds ! u = d}"
  by (simp add: count_list_eq_length_filter length_filter_conv_card eq_commute)

lemma below_0 [simp]: "below ds 0 = 0"
  by (simp add: below_def)

lemma below_Suc: "below ds (Suc d) = below ds d + count_list ds d"
proof -
  have "{u. u < length ds \<and> ds ! u < Suc d} =
      {u. u < length ds \<and> ds ! u < d} \<union> {u. u < length ds \<and> ds ! u = d}" by auto
  then show ?thesis by (simp add: below_def count_list_card card_Un_disjoint disjoint_iff)
qed

lemma bin_starts_nth:
  assumes len: "length b = md + 2" and b: "\<And>d. d \<le> md \<Longrightarrow> b ! d = count_list ds d"
  shows "length (bin_starts md b) = md + 2" and "d \<le> md \<Longrightarrow> bin_starts md b ! d = below ds d"
proof -
  let ?f = "\<lambda>d (b, start). (b[d := start], start + b ! d)"
  have "\<exists>b'. fold ?f [0..<m] (b, 0) = (b', below ds m) \<and> length b' = md + 2 \<and>
      (\<forall>d<m. b' ! d = below ds d) \<and> (\<forall>d. m \<le> d \<longrightarrow> b' ! d = b ! d)" if "m \<le> md + 1" for m
    using that
  proof (induction m)
    case 0
    then show ?case using len by simp
  next
    case (Suc m)
    then obtain b' where b': "fold ?f [0..<m] (b, 0) = (b', below ds m)" "length b' = md + 2"
      "\<forall>d<m. b' ! d = below ds d" "\<forall>d. m \<le> d \<longrightarrow> b' ! d = b ! d" by auto
    moreover have "m < length b'" using b'(2) Suc.prems by simp
    ultimately show ?case using b [of m] Suc.prems by (auto simp: below_Suc less_Suc_eq)
  qed
  from this [of "md + 1"] show "length (bin_starts md b) = md + 2"
    "d \<le> md \<Longrightarrow> bin_starts md b ! d = below ds d"
    by (auto simp: bin_starts_def simp del: upt_Suc)
qed

lemma restore_bin_nth:
  assumes len: "length b = md + 2" and b: "\<And>d. d \<le> md \<Longrightarrow> b ! d = below ds (Suc d)"
  shows "length (restore_bin md b) = md + 2" and "d \<le> md \<Longrightarrow> restore_bin md b ! d = below ds d"
proof -
  let ?f = "\<lambda>d b. b[d := b ! (d - 1)]"
  have "length (fold ?f (rev [1..<m + 1]) b) = length b \<and>
      (\<forall>d<length b. fold ?f (rev [1..<m + 1]) b ! d = (if 1 \<le> d \<and> d \<le> m then b ! (d - 1) else b ! d))"
    if "m < length b" for m and b :: "nat list"
    using that
  proof (induction m arbitrary: b)
    case 0
    then show ?case by simp
  next
    case (Suc m)
    then show ?case using Suc.IH [of "b[Suc m := b ! m]"] by (auto simp: nth_list_update le_Suc_eq)
  qed
  from this [of md b] show "length (restore_bin md b) = md + 2"
    "d \<le> md \<Longrightarrow> restore_bin md b ! d = below ds d"
    using len b [of "d - 1"] by (auto simp: restore_bin_def nth_list_update simp del: upt_Suc)
qed

lemma before_rank:
  assumes "before ds u v" "u < length ds"
  shows "rank ds u < rank ds v"
  unfolding rank_def
proof (rule psubset_card_mono)
  show "{x. x < length ds \<and> before ds x u} \<subset> {x. x < length ds \<and> before ds x v}"
    using assms by (auto simp: before_def)
qed simp

lemma rank_inj: "rank ds u = rank ds v \<longleftrightarrow> u = v" if "u < length ds" "v < length ds"
  using that before_rank [of ds u v] before_rank [of ds v u]
  by (cases u v rule: linorder_cases; cases "ds ! u" "ds ! v" rule: linorder_cases) (auto simp: before_def)

lemma rank_less: "v < length ds \<Longrightarrow> rank ds v < length ds"
proof -
  assume "v < length ds"
  then have "{x. x < length ds \<and> before ds x v} \<subset> {..<length ds}" by (auto simp: before_def)
  from psubset_card_mono [OF _ this] show ?thesis by (simp add: rank_def)
qed

lemma rank_onto: "j < length ds \<Longrightarrow> \<exists>v<length ds. rank ds v = j"
proof -
  have "inj_on (rank ds) {..<length ds}" using rank_inj by (auto simp: inj_on_def)
  moreover have "rank ds ` {..<length ds} \<subseteq> {..<length ds}" using rank_less by auto
  ultimately have "rank ds ` {..<length ds} = {..<length ds}" by (intro endo_inj_surj) simp_all
  then show "j < length ds \<Longrightarrow> \<exists>v<length ds. rank ds v = j" by (metis imageE lessThan_iff)
qed

lemma rank_split:
  assumes "v < length ds"
  shows "rank ds v = below ds (ds ! v) + count_list (take v ds) (ds ! v)"
proof -
  have "{u. u < length ds \<and> before ds u v} =
      {u. u < length ds \<and> ds ! u < ds ! v} \<union> {u. u < length (take v ds) \<and> take v ds ! u = ds ! v}"
    using assms by (auto simp: before_def)
  then show ?thesis
    by (simp add: rank_def below_def count_list_card card_Un_disjoint disjoint_iff)
qed

lemma place_all:
  assumes "deg s = ds" "length (vert s) = length ds" "length (pos s) = length ds" "length (bin s) = md + 2"
    and md: "\<forall>d\<in>set ds. d \<le> md" and bin: "\<And>d. d \<le> md \<Longrightarrow> bin s ! d = below ds d"
    and m: "m \<le> length ds"
  defines "t \<equiv> fold place [0..<m] s"
  shows "deg t = ds \<and> length (vert t) = length ds \<and> length (pos t) = length ds \<and>
      length (bin t) = md + 2 \<and> (\<forall>d\<le>md. bin t ! d = below ds d + count_list (take m ds) d) \<and>
      (\<forall>v<m. pos t ! v = rank ds v \<and> vert t ! rank ds v = v)"
  using m unfolding t_def
proof (induction m)
  case 0
  then show ?case using assms(1-4) bin by simp
next
  case (Suc m)
  define t where "t = fold place [0..<m] s"
  have IH: "deg t = ds" "length (vert t) = length ds" "length (pos t) = length ds" "length (bin t) = md + 2"
    "\<And>d. d \<le> md \<Longrightarrow> bin t ! d = below ds d + count_list (take m ds) d"
    "\<And>v. v < m \<Longrightarrow> pos t ! v = rank ds v \<and> vert t ! rank ds v = v"
    using Suc by (simp_all add: t_def)
  have m: "m < length ds" "ds ! m \<le> md" using Suc.prems md by simp_all
  then have r: "bin t ! (ds ! m) = rank ds m" using IH(5) [OF m(2)] rank_split [OF m(1)] by simp
  have "place m t = t\<lparr>pos := (pos t)[m := rank ds m], vert := (vert t)[rank ds m := m],
      bin := (bin t)[ds ! m := rank ds m + 1]\<rparr>"
    by (simp add: place_def Let_def IH(1) r)
  moreover have "(bin t)[ds ! m := rank ds m + 1] ! d = below ds d + count_list (take (Suc m) ds) d"
    if "d \<le> md" for d
    using that m IH(4) IH(5) [OF that] rank_split [OF m(1)] by (auto simp: nth_list_update take_Suc_conv_app_nth)
  moreover have "(pos t)[m := rank ds m] ! v = rank ds v \<and> (vert t)[rank ds m := m] ! rank ds v = v"
    if "v < Suc m" for v
  proof (cases "v = m")
    case True
    then show ?thesis using m IH(2,3) rank_less by simp
  next
    case False
    then have "rank ds m \<noteq> rank ds v" using that m rank_inj [of m ds v] by simp
    then show ?thesis using False that IH(6) [of v] by simp
  qed
  moreover have "fold place [0..<Suc m] s = place m t" by (simp add: t_def)
  ultimately show ?case using IH(1-4) by simp
qed

lemma kcore_init_deg: "deg (kcore_init nbr) = degrees nbr"
proof -
  have "deg (fold place xs s) = deg s" for xs s
    by (induction xs arbitrary: s) (simp_all add: place_def Let_def)
  then show ?thesis by (simp add: kcore_init_def Let_def)
qed

lemma kcore_init_ok: "arrays_ok (length nbr) (max_degree (degrees nbr)) (kcore_init nbr)"
proof -
  define ds where "ds = degrees nbr"
  define md where "md = max_degree ds"
  define n where "n = length nbr"
  define s where "s = \<lparr>deg = ds, bin = bin_starts md (count_degrees md ds),
      vert = replicate n 0, pos = replicate n 0\<rparr>"
  define t where "t = fold place [0..<n] s"
  have n: "length ds = n" by (simp add: ds_def degrees_def n_def)
  have md: "\<forall>d\<in>set ds. d \<le> md" using max_degree_ge by (auto simp: md_def)
  note c = count_degrees_nth [OF md]
  note b = bin_starts_nth [OF c]
  have t: "deg t = ds" "length (vert t) = n" "length (pos t) = n" "length (bin t) = md + 2"
    "\<And>d. d \<le> md \<Longrightarrow> bin t ! d = below ds d + count_list ds d"
    "\<And>v. v < n \<Longrightarrow> pos t ! v = rank ds v \<and> vert t ! rank ds v = v"
    using place_all [of s ds md n] b md n by (simp_all add: s_def t_def)
  note rb = restore_bin_nth [OF t(4), of ds, unfolded below_Suc, OF t(5)]
  have vert: "\<exists>v<n. j = rank ds v \<and> vert t ! j = v" if "j < n" for j
    using rank_onto [of j ds] that n t(6) by fastforce
  have "inverse_lists n (vert t) (pos t)"
    unfolding inverse_lists_def using t(2,3,6) vert rank_less [of _ ds] n by fastforce
  moreover have "ds ! (vert t ! j) \<le> ds ! (vert t ! k)" if jk: "j \<le> k" "k < n" for j k
  proof -
    obtain v where v: "v < n" "j = rank ds v" "vert t ! j = v" using vert [of j] jk by auto
    obtain w where w: "w < n" "k = rank ds w" "vert t ! k = w" using vert [of k] jk by auto
    have "\<not> before ds w v" using before_rank [of ds w v] w n v jk by auto
    then show ?thesis using v w by (simp add: before_def)
  qed
  moreover have "ds ! u \<le> md" if "u < n" for u using md that n by simp
  ultimately have "arrays_ok n md (t\<lparr>bin := restore_bin md (bin t)\<rparr>)"
    using t(1) rb n unfolding arrays_ok_def by (simp add: below_def)
  then show ?thesis by (simp add: kcore_init_def Let_def t_def s_def ds_def md_def n_def)
qed

section \<open>The core numbers of an undirected graph\<close>

text \<open>What \<^verbatim>\<open>BuildGraph\<close> and the projections construct: every edge is in both adjacency lists.\<close>

definition symmetric_adj :: "'w adjacency \<Rightarrow> bool" where
  "symmetric_adj adj \<longleftrightarrow>
     (\<forall>u<length adj. \<forall>v\<in>fst ` set (adj ! u). v < length adj \<and> u \<in> fst ` set (adj ! v))"

definition nbrs_of :: "'w adjacency \<Rightarrow> nat \<Rightarrow> nat set" where
  "nbrs_of adj u = fst ` set (adj ! u) - {u}"

lemma neighbor_lists_nth:
  "u < length adj \<Longrightarrow> set (neighbor_lists adj ! u) = nbrs_of adj u \<and> distinct (neighbor_lists adj ! u)"
  by (simp add: neighbor_lists_def nbrs_of_def dedup_nbrs_set dedup_nbrs_distinct)

lemma simple_graph_nbrs: "symmetric_adj adj \<Longrightarrow> simple_graph (nbrs_of adj) (length adj)"
  by (fastforce simp: simple_graph_def nbrs_of_def symmetric_adj_def)

lemma core_number:
  assumes sym: "symmetric_adj adj" and v: "v < length adj"
  shows "k \<le> RunKCore adj ! v \<longleftrightarrow> in_core (nbrs_of adj) (length adj) k v"
proof -
  let ?N = "nbrs_of adj" and ?n = "length adj" and ?nbr = "neighbor_lists adj"
  let ?md = "max_degree (degrees ?nbr)"
  have n: "length ?nbr = ?n" by (simp add: neighbor_lists_def)
  note g = simple_graph_nbrs [OF sym]
  have "alive ?n 0 (kcore_init ?nbr) = {..<?n}" by (auto simp: alive_def)
  moreover have "degrees ?nbr ! u = card (?N u \<inter> {..<?n})" if "u < ?n" for u
  proof -
    have "?N u \<subseteq> {..<?n}" using g that by (simp add: simple_graph_def)
    then have "?N u \<inter> {..<?n} = ?N u" by auto
    then show ?thesis using neighbor_lists_nth [OF that] that n
      by (simp add: degrees_def) (metis distinct_card)
  qed
  ultimately have "peel_inv ?N ?n ?md 0 0 (kcore_init ?nbr, replicate ?n 0)"
    using kcore_init_ok [of ?nbr] unfolding peel_inv_def
    by (auto simp: kcore_init_deg n dense_def intro!: exI [of _ "{..<?n}"])
  from peel_all [OF g neighbor_lists_nth this, of ?n]
  obtain c s core where f: "fold (peel ?nbr) [0..<?n] (kcore_init ?nbr, replicate ?n 0) = (s, core)"
    "peel_inv ?N ?n ?md c ?n (s, core)" by (metis order_refl surj_pair)
  have ok: "arrays_ok ?n ?md s" using f(2) by (simp add: peel_inv_def)
  have "v \<notin> alive ?n ?n s" using arrays_okD(5,6) [OF ok v] by (auto simp: alive_def)
  then show ?thesis using f v by (simp add: peel_inv_def RunKCore_def)
qed

text \<open>
  C6. The array algorithm computes core numbers: in a graph whose adjacency lists are symmetric, the
  number assigned to a vertex is the largest \<open>k\<close> for which the vertex lies in a set of vertices that
  each have at least \<open>k\<close> neighbors in that set. Parallel edges and self loops do not count.
\<close>

theorem kcore_correct:
  assumes "symmetric_adj adj" and "v < length adj"
  shows "k \<le> RunKCore adj ! v \<longleftrightarrow>
    (\<exists>H \<subseteq> {..<length adj}. v \<in> H \<and> (\<forall>w\<in>H. k \<le> card ((fst ` set (adj ! w) - {w}) \<inter> H)))"
  unfolding core_number [OF assms] in_core_def dense_def nbrs_of_def by blast

text \<open>A triangle with a pendant vertex, a self loop and a parallel edge.\<close>

definition kcore_example :: "unit adjacency" where
  "kcore_example =
     [[(1, ()), (2, ()), (1, ())], [(0, ()), (2, ()), (0, ()), (1, ())], [(0, ()), (1, ()), (3, ())], [(2, ())]]"

lemma kcore_example_symmetric: "symmetric_adj kcore_example"
  by (simp add: symmetric_adj_def kcore_example_def All_less_Suc numeral_2_eq_2 numeral_3_eq_3)

lemma kcore_example_run: "RunKCore kcore_example = [2, 2, 2, 1]"
  by code_simp

theorem kcore_correct_witness:
  "symmetric_adj kcore_example \<and> RunKCore kcore_example ! 3 = 1 \<and>
   \<not> (\<exists>H \<subseteq> {..<length kcore_example}. 3 \<in> H \<and>
        (\<forall>w\<in>H. 2 \<le> card ((fst ` set (kcore_example ! w) - {w}) \<inter> H)))"
proof -
  have r: "RunKCore kcore_example ! 3 = 1" by (simp add: kcore_example_run)
  have "3 < length kcore_example" by (simp add: kcore_example_def)
  from kcore_correct [OF kcore_example_symmetric this, of 2] r show ?thesis
    using kcore_example_symmetric by simp
qed

text \<open>
  The core numbers depend only on which vertices are adjacent: reordering the adjacency lists,
  repeating an edge or adding a self loop changes nothing. The code takes the order from the
  iteration order of hash maps.
\<close>

theorem kcore_order_independent:
  assumes "symmetric_adj adj" and "length adj' = length adj"
    and "\<forall>u<length adj. fst ` set (adj' ! u) - {u} = fst ` set (adj ! u) - {u}"
    and "symmetric_adj adj'"
  shows "\<forall>v<length adj. RunKCore adj' ! v = RunKCore adj ! v"
proof (intro allI impI)
  fix v assume v: "v < length adj"
  have "dense (nbrs_of adj') (length adj) H k \<longleftrightarrow> dense (nbrs_of adj) (length adj) H k" for H k
    using assms(3) by (auto simp: dense_def nbrs_of_def subset_iff)
  then have "in_core (nbrs_of adj') (length adj) k v \<longleftrightarrow> in_core (nbrs_of adj) (length adj) k v" for k
    by (simp add: in_core_def)
  then have "k \<le> RunKCore adj' ! v \<longleftrightarrow> k \<le> RunKCore adj ! v" for k
    using core_number [OF assms(1) v] core_number [OF assms(4), of v] assms(2) v by simp
  then show "RunKCore adj' ! v = RunKCore adj ! v" by (meson order_antisym order_refl)
qed

theorem kcore_order_independent_witness:
  "RunKCore (map rev kcore_example) ! 3 = RunKCore kcore_example ! 3"
proof -
  have "\<forall>v<length kcore_example. RunKCore (map rev kcore_example) ! v = RunKCore kcore_example ! v"
  proof (rule kcore_order_independent [OF kcore_example_symmetric])
    show "length (map rev kcore_example) = length kcore_example" by simp
    show "\<forall>u<length kcore_example. fst ` set (map rev kcore_example ! u) - {u} =
        fst ` set (kcore_example ! u) - {u}" by simp
    show "symmetric_adj (map rev kcore_example)"
      using kcore_example_symmetric by (simp add: symmetric_adj_def)
  qed
  then show ?thesis by (simp add: kcore_example_def)
qed

end
