(* ===== verification/Louvain.thy ===== *)
theory Louvain
  imports Prelude Complex_Main "HOL-Library.Multiset"
begin

text \<open>
  Community detection, \<^verbatim>\<open>LouvainComputer\<close> of
  \<^verbatim>\<open>extension/louvain/include/louvain_functions.h\<close>: the local moves, the coarsening of the
  graph, the loop over the levels and the modularity of the result. Weights are rational numbers, so
  rounding is not modelled, nor are the NaN values of a graph without weight, where the code divides by
  zero (the lemmas assume a positive total weight); the loops are those of the build without OpenMP, which compute the same sums
  in one order. Iterating over a \<^verbatim>\<open>std::unordered_map\<close> is an argument \<open>ord\<close> that may return
  its entries in any order.

  The lemmas show that the reported modularity is the modularity of the reported communities, that the
  communities cover every vertex and are numbered without gaps, that coarsening preserves modularity,
  by how much the gain the code computes for a move differs from the true one, and that on a single
  edge the synchronous moves swap the two vertices instead of joining them.
\<close>

section \<open>The algorithm\<close>

type_synonym weight = rat

type_synonym weighted_adj = "(nat \<times> weight) list list"

type_synonym map_order = "(nat \<times> weight) list \<Rightarrow> (nat \<times> weight) list"

text \<open>\<^verbatim>\<open>out[i] += w\<close> on a vector and \<^verbatim>\<open>m[c] += w\<close> on a hash map.\<close>

definition add_at :: "nat \<Rightarrow> weight \<Rightarrow> weight list \<Rightarrow> weight list" where
  "add_at i w xs = xs[i := xs ! i + w]"

fun map_add_to :: "nat \<Rightarrow> weight \<Rightarrow> (nat \<times> weight) list \<Rightarrow> (nat \<times> weight) list" where
  "map_add_to c w [] = [(c, w)]"
| "map_add_to c w ((d, x) # m) = (if c = d then (d, x + w) # m else (d, x) # map_add_to c w m)"

definition map_read :: "nat \<Rightarrow> (nat \<times> weight) list \<Rightarrow> weight" where
  "map_read c m = (case map_of m c of Some w \<Rightarrow> w | None \<Rightarrow> 0)"

definition AccumulateByComm :: "nat list \<Rightarrow> weight list \<Rightarrow> nat \<Rightarrow> weight list" where
  "AccumulateByComm comm node_weight n =
     fold (\<lambda>u. add_at (comm ! u) (node_weight ! u)) [0..<n] (replicate n 0)"

definition comm_edge_weight :: "nat list \<Rightarrow> (nat \<times> weight) list \<Rightarrow> (nat \<times> weight) list" where
  "comm_edge_weight comm row = fold (\<lambda>(v, w). map_add_to (comm ! v) w) row []"

text \<open>The value of staying and of moving to another community.\<close>

definition stay_delta :: "weight \<Rightarrow> weight \<Rightarrow> weight \<Rightarrow> weight list \<Rightarrow> nat \<Rightarrow> weight \<Rightarrow> weight" where
  "stay_delta resolution total_weight ki comm_total old_comm old_w =
     old_w - resolution * (ki / (2 * total_weight)) * (comm_total ! old_comm - ki)"

definition move_delta :: "weight \<Rightarrow> weight \<Rightarrow> weight \<Rightarrow> weight list \<Rightarrow> nat \<Rightarrow> weight \<Rightarrow> weight" where
  "move_delta resolution total_weight ki comm_total c w_ic =
     w_ic - resolution * (ki / (2 * total_weight)) * comm_total ! c"

definition best_comm ::
  "map_order \<Rightarrow> weight \<Rightarrow> weight \<Rightarrow> weighted_adj \<Rightarrow> weight list \<Rightarrow> nat list \<Rightarrow> weight list \<Rightarrow> nat \<Rightarrow> nat" where
  "best_comm ord resolution total_weight adj node_weight comm comm_total u =
     (let old_comm = comm ! u;
          ki = node_weight ! u;
          edge_weight = comm_edge_weight comm (adj ! u);
          best_delta = stay_delta resolution total_weight ki comm_total old_comm (map_read old_comm edge_weight)
      in snd (fold (\<lambda>(c, w_ic) (best_delta, best_comm).
                if c = old_comm then (best_delta, best_comm)
                else let delta = move_delta resolution total_weight ki comm_total c w_ic
                     in if delta > best_delta then (delta, c) else (best_delta, best_comm))
              (ord edge_weight) (best_delta, old_comm)))"

fun LocalMove ::
  "map_order \<Rightarrow> weight \<Rightarrow> nat \<Rightarrow> weighted_adj \<Rightarrow> weight list \<Rightarrow> nat \<Rightarrow> weight \<Rightarrow> bool \<Rightarrow> nat list \<Rightarrow> bool \<times> nat list"
  where
  "LocalMove ord resolution 0 adj node_weight n total_weight any_moved comm = (any_moved, comm)"
| "LocalMove ord resolution (Suc max_iterations) adj node_weight n total_weight any_moved comm =
     (let comm_total = AccumulateByComm comm node_weight n;
          new_comm = map (best_comm ord resolution total_weight adj node_weight comm comm_total) [0..<n];
          moved_count = length (filter (\<lambda>u. new_comm ! u \<noteq> comm ! u) [0..<n])
      in if moved_count = 0 then (any_moved, new_comm)
         else LocalMove ord resolution max_iterations adj node_weight n total_weight True new_comm)"

text \<open>Renumbering the communities in the order of their first vertices; the number of communities.\<close>

definition renumber :: "nat list \<Rightarrow> nat list \<times> nat" where
  "renumber comm =
     (case fold (\<lambda>c (remap, next_id, out).
               case remap c of
                 Some d \<Rightarrow> (remap, next_id, out @ [d])
               | None \<Rightarrow> (remap(c \<mapsto> next_id), next_id + 1, out @ [next_id]))
             comm (Map.empty, 0, []) of
        (remap, next_id, out) \<Rightarrow> (out, next_id))"

record level =
  lv_n :: nat
  lv_adj :: weighted_adj
  lv_weight :: "weight list"
  lv_orig :: "nat list list"
  lv_comm :: "nat list"

definition merge_orig :: "nat list \<Rightarrow> nat list list \<Rightarrow> nat \<Rightarrow> nat \<Rightarrow> nat list list" where
  "merge_orig comm node_to_orig n num_comms =
     fold (\<lambda>u new. new[comm ! u := new ! (comm ! u) @ node_to_orig ! u]) [0..<n] (replicate num_comms [])"

definition coarse_edge ::
  "nat \<Rightarrow> nat \<Rightarrow> weight \<Rightarrow> (nat \<times> weight) list list \<Rightarrow> (nat \<times> weight) list list" where
  "coarse_edge cu cv w ms =
     (if cu \<le> cv
      then let ms = ms[cu := map_add_to cv w (ms ! cu)]
           in if cu \<noteq> cv then ms[cv := map_add_to cu w (ms ! cv)] else ms
      else ms)"

definition coarse_adj_map :: "nat list \<Rightarrow> weighted_adj \<Rightarrow> nat \<Rightarrow> nat \<Rightarrow> (nat \<times> weight) list list" where
  "coarse_adj_map comm adj n num_comms =
     fold (\<lambda>u ms. fold (\<lambda>(v, w). coarse_edge (comm ! u) (comm ! v) w) (adj ! u) ms) [0..<n]
       (replicate num_comms [])"

definition coarsen :: "map_order \<Rightarrow> nat \<Rightarrow> level \<Rightarrow> level" where
  "coarsen ord num_comms s =
     \<lparr>lv_n = num_comms,
      lv_adj = map ord (coarse_adj_map (lv_comm s) (lv_adj s) (lv_n s) num_comms),
      lv_weight = fold (\<lambda>u. add_at (lv_comm s ! u) (lv_weight s ! u)) [0..<lv_n s] (replicate num_comms 0),
      lv_orig = merge_orig (lv_comm s) (lv_orig s) (lv_n s) num_comms,
      lv_comm = [0..<num_comms]\<rparr>"

text \<open>The loop over the levels, with the number of levels that remain; the level it stops at.\<close>

fun louvain_levels :: "map_order \<Rightarrow> weight \<Rightarrow> nat \<Rightarrow> weight \<Rightarrow> nat \<Rightarrow> nat \<Rightarrow> level \<Rightarrow> nat \<times> level" where
  "louvain_levels ord resolution max_iterations total_weight 0 level s = (level, s)"
| "louvain_levels ord resolution max_iterations total_weight (Suc remaining) level s =
     (case LocalMove ord resolution max_iterations (lv_adj s) (lv_weight s) (lv_n s) total_weight False (lv_comm s) of
        (improved, comm) \<Rightarrow>
          if \<not> improved \<and> level > 0 then (level, s\<lparr>lv_comm := comm\<rparr>)
          else case renumber comm of
                 (comm, num_comms) \<Rightarrow>
                   if num_comms = lv_n s then (level, s\<lparr>lv_comm := comm\<rparr>)
                   else louvain_levels ord resolution max_iterations total_weight remaining (level + 1)
                          (coarsen ord num_comms (s\<lparr>lv_comm := comm\<rparr>)))"

definition row_weight :: "(nat \<times> weight) list \<Rightarrow> weight" where
  "row_weight row = sum_list (map snd row)"

definition ComputeModularity :: "weight \<Rightarrow> weighted_adj \<Rightarrow> nat \<Rightarrow> nat list \<Rightarrow> weight \<Rightarrow> weight" where
  "ComputeModularity resolution adj num_vertex comm total_weight =
     (if total_weight \<le> 0 then 0
      else
        let ku_arr = map (\<lambda>u. row_weight (adj ! u)) [0..<num_vertex];
            nc = fold max (take num_vertex comm) 0 + 1;
            comm_total = fold (\<lambda>u. add_at (comm ! u) (ku_arr ! u)) [0..<num_vertex] (replicate nc 0);
            q = sum_list (map (\<lambda>u. sum_list (map (\<lambda>(v, w). if comm ! u = comm ! v then w else 0) (adj ! u)))
                  [0..<num_vertex]);
            penalty = sum_list (map (\<lambda>c. (comm_total ! c / (2 * total_weight)) * (comm_total ! c / (2 * total_weight)))
                        [0..<nc])
        in q / (2 * total_weight) - resolution * penalty)"

record louvain_result =
  lr_num_communities :: nat
  lr_levels :: nat
  lr_modularity :: weight
  lr_community :: "nat list"

definition final_community :: "nat \<Rightarrow> level \<Rightarrow> nat list" where
  "final_community num_vertex s =
     fold (\<lambda>c. fold (\<lambda>v com. com[v := lv_comm s ! c]) (lv_orig s ! c)) [0..<lv_n s] (replicate num_vertex 0)"

definition first_level :: "weighted_adj \<Rightarrow> nat \<Rightarrow> level" where
  "first_level adj num_vertex =
     \<lparr>lv_n = num_vertex, lv_adj = adj, lv_weight = map (\<lambda>u. row_weight (adj ! u)) [0..<num_vertex],
      lv_orig = map (\<lambda>i. [i]) [0..<num_vertex], lv_comm = [0..<num_vertex]\<rparr>"

definition Louvain_Compute ::
  "map_order \<Rightarrow> weight \<Rightarrow> nat \<Rightarrow> nat \<Rightarrow> weighted_adj \<Rightarrow> nat \<Rightarrow> louvain_result" where
  "Louvain_Compute ord resolution max_iterations max_levels adj num_vertex =
     (if num_vertex = 0 then \<lparr>lr_num_communities = 0, lr_levels = 0, lr_modularity = 0, lr_community = []\<rparr>
      else
        let total_weight = sum_list (map (\<lambda>u. row_weight (adj ! u)) [0..<num_vertex]) / 2;
            (level, s) = louvain_levels ord resolution max_iterations total_weight max_levels 0
                           (first_level adj num_vertex);
            community = final_community num_vertex s
        in \<lparr>lr_num_communities = card (set community), lr_levels = level,
            lr_modularity = ComputeModularity resolution adj num_vertex community total_weight,
            lr_community = community\<rparr>)"

section \<open>Sums\<close>

text \<open>The weight of a row to one neighbour; sums over a row are sums over the neighbours.\<close>

definition wt :: "(nat \<times> weight) list \<Rightarrow> nat \<Rightarrow> weight" where
  "wt row v = sum_list (map (\<lambda>(x, w). if x = v then w else 0) row)"

lemma wt_simps [simp]: "wt [] v = 0" "wt ((x, w) # row) v = (if x = v then w else 0) + wt row v"
  by (simp_all add: wt_def)

lemma row_sum:
  assumes "\<forall>(v, w)\<in>set row. v < n"
  shows "sum_list (map (\<lambda>(v, w). w * f v) row) = (\<Sum>v<n. wt row v * f v)"
  using assms
proof (induction row)
  case (Cons e row)
  obtain x w where e: "e = (x, w)" by (cases e)
  have x: "x < n" using Cons.prems by (simp add: e)
  have "(\<Sum>v<n. wt (e # row) v * f v) = (\<Sum>v<n. (if v = x then w * f v else 0) + wt row v * f v)"
    by (rule sum.cong) (auto simp: e algebra_simps)
  also have "\<dots> = w * f x + (\<Sum>v<n. wt row v * f v)" using x by (simp add: sum.distrib)
  finally show ?case using Cons by (simp add: e)
qed simp

lemma row_weight_sum: "\<forall>(v, w)\<in>set row. v < n \<Longrightarrow> row_weight row = (\<Sum>v<n. wt row v)"
  using row_sum [of row n "\<lambda>_. 1"] by (simp add: row_weight_def case_prod_unfold)

lemma row_sum_if:
  assumes "\<forall>(v, w)\<in>set row. v < n"
  shows "sum_list (map (\<lambda>(v, w). if P v then w else 0) row) = (\<Sum>v<n. if P v then wt row v else 0)"
proof -
  have "sum_list (map (\<lambda>(v, w). if P v then w else 0) row) = sum_list (map (\<lambda>(v, w). w * (if P v then 1 else 0)) row)"
    by (rule arg_cong [where f = sum_list], rule map_cong) auto
  also have "\<dots> = (\<Sum>v<n. wt row v * (if P v then 1 else 0))" by (rule row_sum [OF assms])
  also have "\<dots> = (\<Sum>v<n. if P v then wt row v else 0)" by (rule sum.cong) auto
  finally show ?thesis .
qed

lemma wt_mset: "mset xs = mset ys \<Longrightarrow> wt xs v = wt ys v"
proof -
  assume "mset xs = mset ys"
  then have "image_mset (\<lambda>(x, w). if x = v then w else 0) (mset xs) = image_mset (\<lambda>(x, w). if x = v then w else 0) (mset ys)"
    by simp
  then have "sum_mset (mset (map (\<lambda>(x, w). if x = v then w else 0) xs)) = sum_mset (mset (map (\<lambda>(x, w). if x = v then w else 0) ys))"
    by (simp only: mset_map)
  then show ?thesis by (simp only: sum_mset_sum_list wt_def)
qed

lemma length_fold_add_at [simp]: "length (fold (\<lambda>u. add_at (g u) (h u)) us xs) = length xs"
  by (induction us arbitrary: xs) (simp_all add: add_at_def)

lemma nth_fold_add_at:
  assumes "c < length xs"
  shows "fold (\<lambda>u. add_at (g u) (h u)) us xs ! c = xs ! c + sum_list (map (\<lambda>u. if g u = c then h u else 0) us)"
  using assms by (induction us arbitrary: xs) (auto simp: add_at_def nth_list_update)

lemma sum_list_upt: "sum_list (map f [0..<n]) = (\<Sum>i<n. (f i :: weight))"
  by (simp add: interv_sum_list_conv_sum_set_nat atLeast0LessThan)

lemma nth_accumulate:
  assumes "c < m"
  shows "fold (\<lambda>u. add_at (g u) (h u)) [0..<n] (replicate m 0) ! c = (\<Sum>u<n. if g u = c then h u else 0)"
  using nth_fold_add_at [of c "replicate m 0" g h "[0..<n]"] assms by (simp add: sum_list_upt)

lemma wt_map_add [simp]: "wt (map_add_to d w m) c = wt m c + (if c = d then w else 0)"
proof (induction m)
  case (Cons e m)
  then show ?case by (cases e) auto
qed simp

lemma keys_map_add [simp]: "set (map fst (map_add_to d w m)) = insert d (set (map fst m))"
proof (induction m)
  case (Cons e m)
  then show ?case by (cases e) auto
qed simp

lemma distinct_map_add: "distinct (map fst m) \<Longrightarrow> distinct (map fst (map_add_to d w m))"
proof (induction m)
  case (Cons e m)
  then show ?case using keys_map_add [of d w m] by (cases e) (auto simp del: keys_map_add)
qed simp

lemma wt_absent: "v \<notin> set (map fst m) \<Longrightarrow> wt m v = 0"
  by (induction m) auto

lemma wt_entry: "distinct (map fst m) \<Longrightarrow> (v, w) \<in> set m \<Longrightarrow> wt m v = w"
  by (induction m) (force simp: wt_absent)+

lemma map_read_wt: "distinct (map fst m) \<Longrightarrow> map_read c m = wt m c"
  using wt_absent [of c m] wt_entry [of m c] map_of_SomeD [of m c]
  by (cases "map_of m c") (auto simp: map_read_def map_of_eq_None_iff [symmetric])

lemma comm_edge_weight_spec:
  shows "distinct (map fst (comm_edge_weight comm row))"
    and "wt (comm_edge_weight comm row) c = sum_list (map (\<lambda>(v, w). if comm ! v = c then w else 0) row)"
    and "set (map fst (comm_edge_weight comm row)) = (\<lambda>(v, w). comm ! v) ` set row"
proof -
  let ?f = "\<lambda>row m. fold (\<lambda>(v, w). map_add_to (comm ! v) w) row m"
  have "distinct (map fst m) \<Longrightarrow> distinct (map fst (?f row m))" for m
    by (induction row arbitrary: m) (auto simp: distinct_map_add)
  then show "distinct (map fst (comm_edge_weight comm row))" by (simp add: comm_edge_weight_def)
  have "wt (?f row m) c = wt m c + sum_list (map (\<lambda>(v, w). if comm ! v = c then w else 0) row)" for m
    by (induction row arbitrary: m) auto
  then show "wt (comm_edge_weight comm row) c = sum_list (map (\<lambda>(v, w). if comm ! v = c then w else 0) row)"
    by (simp add: comm_edge_weight_def)
  have "set (map fst (?f row m)) = set (map fst m) \<union> (\<lambda>(v, w). comm ! v) ` set row" for m
    by (induction row arbitrary: m) (auto simp del: set_map)
  then show "set (map fst (comm_edge_weight comm row)) = (\<lambda>(v, w). comm ! v) ` set row"
    by (simp add: comm_edge_weight_def del: set_map)
qed

section \<open>Modularity\<close>

text \<open>The definition, for a weight function on the vertices below \<open>n\<close>.\<close>

definition degree :: "(nat \<Rightarrow> nat \<Rightarrow> weight) \<Rightarrow> nat \<Rightarrow> nat \<Rightarrow> weight" where
  "degree A n u = (\<Sum>v<n. A u v)"

definition volume :: "(nat \<Rightarrow> nat \<Rightarrow> weight) \<Rightarrow> nat \<Rightarrow> weight" where
  "volume A n = (\<Sum>u<n. degree A n u)"

definition modularity :: "weight \<Rightarrow> (nat \<Rightarrow> nat \<Rightarrow> weight) \<Rightarrow> nat \<Rightarrow> (nat \<Rightarrow> nat) \<Rightarrow> weight" where
  "modularity \<gamma> A n comm =
     (\<Sum>u<n. \<Sum>v<n. if comm u = comm v then A u v - \<gamma> * (degree A n u * degree A n v) / volume A n else 0) / volume A n"

definition edge_wt :: "weighted_adj \<Rightarrow> nat \<Rightarrow> nat \<Rightarrow> weight" where
  "edge_wt adj u v = wt (adj ! u) v"

definition adj_ok :: "weighted_adj \<Rightarrow> nat \<Rightarrow> bool" where
  "adj_ok adj n \<longleftrightarrow> length adj = n \<and> (\<forall>u<n. \<forall>(v, w)\<in>set (adj ! u). v < n)"

lemma row_weight_degree: "adj_ok adj n \<Longrightarrow> u < n \<Longrightarrow> row_weight (adj ! u) = degree (edge_wt adj) n u"
  using row_weight_sum [of "adj ! u" n] by (simp add: adj_ok_def degree_def edge_wt_def)

lemma fold_max_ge: "x \<in> set xs \<Longrightarrow> x \<le> fold max xs (m :: nat)" "m \<le> fold max xs (m :: nat)"
proof (induction xs arbitrary: m)
  case (Cons y ys)
  { case 1 then show ?case using Cons.IH [of "max y m"] by auto }
  { case 2 then show ?case using Cons.IH(2) [of "max y m"] by simp }
qed auto

lemma square_by_class:
  fixes k :: "nat \<Rightarrow> weight" and comm :: "nat \<Rightarrow> nat"
  assumes "\<And>u. u < n \<Longrightarrow> comm u < nc"
  shows "(\<Sum>c<nc. (\<Sum>u<n. if comm u = c then k u else 0) * (\<Sum>u<n. if comm u = c then k u else 0)) =
    (\<Sum>u<n. \<Sum>v<n. if comm u = comm v then k u * k v else 0)"
proof -
  have "(\<Sum>c<nc. (\<Sum>u<n. if comm u = c then k u else 0) * (\<Sum>u<n. if comm u = c then k u else 0)) =
      (\<Sum>c<nc. \<Sum>u<n. \<Sum>v<n. (if comm u = c then k u else 0) * (if comm v = c then k v else 0))"
    by (simp only: sum_product)
  also have "\<dots> = (\<Sum>u<n. \<Sum>v<n. \<Sum>c<nc. (if comm u = c then k u else 0) * (if comm v = c then k v else 0))"
    by (subst sum.swap, rule sum.cong [OF refl], rule sum.swap)
  also have "\<dots> = (\<Sum>u<n. \<Sum>v<n. if comm u = comm v then k u * k v else 0)"
  proof (intro sum.cong refl)
    fix u v assume "u \<in> {..<n}" "v \<in> {..<n}"
    define x where "x = (if comm u = comm v then k u * k v else 0)"
    have "(\<Sum>c<nc. (if comm u = c then k u else 0) * (if comm v = c then k v else 0)) = (\<Sum>c<nc. if c = comm u then x else 0)"
      by (rule sum.cong) (auto simp: x_def)
    also have "\<dots> = x" using assms [of u] \<open>u \<in> {..<n}\<close> by simp
    finally show "(\<Sum>c<nc. (if comm u = c then k u else 0) * (if comm v = c then k v else 0)) =
        (if comm u = comm v then k u * k v else 0)" unfolding x_def .
  qed
  finally show ?thesis .
qed

lemma modularity_split:
  "modularity \<gamma> A n comm =
     (\<Sum>u<n. \<Sum>v<n. if comm u = comm v then A u v else 0) / volume A n -
     \<gamma> * ((\<Sum>u<n. \<Sum>v<n. if comm u = comm v then degree A n u * degree A n v else 0) / (volume A n * volume A n))"
proof -
  let ?M = "volume A n"
  have "(\<Sum>u<n. \<Sum>v<n. if comm u = comm v then A u v - \<gamma> * (degree A n u * degree A n v) / ?M else 0) =
      (\<Sum>u<n. \<Sum>v<n. (if comm u = comm v then A u v else 0) -
        \<gamma> / ?M * (if comm u = comm v then degree A n u * degree A n v else 0))"
    by (intro sum.cong refl) auto
  also have "\<dots> = (\<Sum>u<n. \<Sum>v<n. if comm u = comm v then A u v else 0) -
      \<gamma> / ?M * (\<Sum>u<n. \<Sum>v<n. if comm u = comm v then degree A n u * degree A n v else 0)"
    by (simp add: sum_subtractf sum_distrib_left)
  finally show ?thesis by (simp add: modularity_def diff_divide_distrib)
qed

lemma ComputeModularity_eq:
  assumes adj: "adj_ok adj n" and l: "length comm = n" and tw: "2 * tw = volume (edge_wt adj) n" "0 < tw"
  shows "ComputeModularity \<gamma> adj n comm tw = modularity \<gamma> (edge_wt adj) n (\<lambda>u. comm ! u)"
proof -
  let ?k = "degree (edge_wt adj) n"
  define nc where "nc = fold max (take n comm) 0 + 1"
  define T where "T = fold (\<lambda>u. add_at (comm ! u) (map (\<lambda>u. row_weight (adj ! u)) [0..<n] ! u)) [0..<n] (replicate nc 0)"
  have c: "comm ! u < nc" if "u < n" for u
    using fold_max_ge(1) [of "comm ! u" "take n comm" 0] that l by (simp add: nc_def less_Suc_eq_le)
  have T: "T ! c = (\<Sum>u<n. if comm ! u = c then ?k u else 0)" if "c < nc" for c
  proof -
    have "T ! c = (\<Sum>u<n. if comm ! u = c then map (\<lambda>u. row_weight (adj ! u)) [0..<n] ! u else 0)"
      unfolding T_def by (rule nth_accumulate [OF that])
    also have "\<dots> = (\<Sum>u<n. if comm ! u = c then ?k u else 0)"
      by (rule sum.cong) (auto simp: row_weight_degree [OF adj])
    finally show ?thesis .
  qed
  have q: "sum_list (map (\<lambda>u. sum_list (map (\<lambda>(v, w). if comm ! u = comm ! v then w else 0) (adj ! u))) [0..<n]) =
      (\<Sum>u<n. \<Sum>v<n. if comm ! u = comm ! v then edge_wt adj u v else 0)"
    unfolding sum_list_upt
  proof (rule sum.cong [OF refl])
    fix u assume "u \<in> {..<n}"
    then have "\<forall>(v, w)\<in>set (adj ! u). v < n" using adj by (simp add: adj_ok_def)
    from row_sum_if [OF this, of "\<lambda>v. comm ! u = comm ! v"]
    show "sum_list (map (\<lambda>(v, w). if comm ! u = comm ! v then w else 0) (adj ! u)) =
        (\<Sum>v<n. if comm ! u = comm ! v then edge_wt adj u v else 0)" unfolding edge_wt_def .
  qed
  have "sum_list (map (\<lambda>c. (T ! c / (2 * tw)) * (T ! c / (2 * tw))) [0..<nc]) =
      (\<Sum>c<nc. (\<Sum>u<n. if comm ! u = c then ?k u else 0) * (\<Sum>u<n. if comm ! u = c then ?k u else 0)) / ((2 * tw) * (2 * tw))"
    unfolding sum_list_upt sum_divide_distrib by (rule sum.cong) (simp_all add: T)
  also have "\<dots> = (\<Sum>u<n. \<Sum>v<n. if comm ! u = comm ! v then ?k u * ?k v else 0) / ((2 * tw) * (2 * tw))"
    using square_by_class [of n "\<lambda>u. comm ! u" nc ?k] c by simp
  finally have pen: "sum_list (map (\<lambda>c. (T ! c / (2 * tw)) * (T ! c / (2 * tw))) [0..<nc]) = \<dots>" .
  have "ComputeModularity \<gamma> adj n comm tw =
      sum_list (map (\<lambda>u. sum_list (map (\<lambda>(v, w). if comm ! u = comm ! v then w else 0) (adj ! u))) [0..<n]) / (2 * tw) -
      \<gamma> * sum_list (map (\<lambda>c. (T ! c / (2 * tw)) * (T ! c / (2 * tw))) [0..<nc])"
    unfolding ComputeModularity_def Let_def nc_def [symmetric] T_def [symmetric] using tw(2) by simp
  then show ?thesis unfolding q pen unfolding modularity_split tw(1) .
qed

section \<open>The gain of a move\<close>

text \<open>The summand of the modularity, and the change of the sum when one vertex moves.\<close>

definition excess :: "weight \<Rightarrow> (nat \<Rightarrow> nat \<Rightarrow> weight) \<Rightarrow> nat \<Rightarrow> nat \<Rightarrow> nat \<Rightarrow> weight" where
  "excess \<gamma> A n u v = A u v - \<gamma> * (degree A n u * degree A n v) / volume A n"

lemma modularity_excess:
  "modularity \<gamma> A n comm = (\<Sum>u<n. \<Sum>v<n. if comm u = comm v then excess \<gamma> A n u v else 0) / volume A n"
  unfolding modularity_def excess_def by (rule refl)

lemma sum_row_and_column:
  fixes D :: "nat \<Rightarrow> nat \<Rightarrow> weight"
  assumes u: "u < n" and zero: "\<And>x y. x \<noteq> u \<Longrightarrow> y \<noteq> u \<Longrightarrow> D x y = 0" and diag: "D u u = 0"
    and sym: "\<And>x. x < n \<Longrightarrow> D x u = D u x"
  shows "(\<Sum>x<n. \<Sum>y<n. D x y) = 2 * (\<Sum>y<n. D u y)"
proof -
  have row: "(\<Sum>y<n. D x y) = D x u" if "x \<noteq> u" for x
  proof -
    have "(\<Sum>y<n. D x y) = D x u + (\<Sum>y\<in>{..<n} - {u}. D x y)" using u by (intro sum.remove) simp_all
    also have "(\<Sum>y\<in>{..<n} - {u}. D x y) = 0" using zero [OF that] by (intro sum.neutral) auto
    finally show ?thesis by simp
  qed
  have "(\<Sum>x<n. \<Sum>y<n. D x y) = (\<Sum>y<n. D u y) + (\<Sum>x\<in>{..<n} - {u}. \<Sum>y<n. D x y)"
    using u by (intro sum.remove) simp_all
  also have "(\<Sum>x\<in>{..<n} - {u}. \<Sum>y<n. D x y) = (\<Sum>x\<in>{..<n} - {u}. D u x)"
    by (rule sum.cong) (use row sym in auto)
  also have "\<dots> = (\<Sum>x<n. D u x)" using u diag sum.remove [of "{..<n}" u "D u"] by simp
  finally show ?thesis by simp
qed

lemma modularity_move:
  fixes comm :: "nat \<Rightarrow> nat"
  assumes u: "u < n" and c: "c \<noteq> comm u" and sym: "\<And>x y. x < n \<Longrightarrow> y < n \<Longrightarrow> A x y = A y x" and M: "volume A n \<noteq> 0"
  shows "(modularity \<gamma> A n (comm(u := c)) - modularity \<gamma> A n comm) * volume A n =
    2 * ((\<Sum>v<n. if comm v = c then excess \<gamma> A n u v else 0) -
         ((\<Sum>v<n. if comm v = comm u then excess \<gamma> A n u v else 0) - excess \<gamma> A n u u))"
proof -
  let ?B = "excess \<gamma> A n" and ?f = "comm(u := c)"
  define D where "D x y = (if ?f x = ?f y then ?B x y else 0) - (if comm x = comm y then ?B x y else 0)" for x y
  have B: "?B x u = ?B u x" if "x < n" for x using sym [OF that u] by (simp add: excess_def mult.commute)
  have "(modularity \<gamma> A n ?f - modularity \<gamma> A n comm) * volume A n = (\<Sum>x<n. \<Sum>y<n. D x y)"
    unfolding modularity_excess D_def sum_subtractf using M by (simp add: left_diff_distrib)
  also have "\<dots> = 2 * (\<Sum>y<n. D u y)"
  proof (rule sum_row_and_column [OF u])
    show "D x y = 0" if "x \<noteq> u" "y \<noteq> u" for x y using that by (simp add: D_def)
    show "D u u = 0" by (simp add: D_def)
    show "D x u = D u x" if "x < n" for x using B [OF that] by (auto simp: D_def)
  qed
  also have "(\<Sum>y<n. D u y) = (\<Sum>y<n. (if comm y = c then ?B u y else 0) -
      ((if comm y = comm u then ?B u y else 0) - (if y = u then ?B u u else 0)))"
    by (rule sum.cong) (use c in \<open>auto simp: D_def\<close>)
  also have "\<dots> = (\<Sum>v<n. if comm v = c then ?B u v else 0) - ((\<Sum>v<n. if comm v = comm u then ?B u v else 0) - ?B u u)"
    using u by (simp add: sum_subtractf)
  finally show ?thesis .
qed

text \<open>The best community that the code chooses, for any order of the entries of the map.\<close>

lemma best_fold:
  fixes d :: "nat \<Rightarrow> weight \<Rightarrow> weight" and old :: nat
  defines "step \<equiv> \<lambda>(c, w) (bd, bc). if c = old then (bd, bc) else if d c w > bd then (d c w, c) else (bd, bc)"
  shows "case fold step xs (bd0, bc0) of (bd, bc) \<Rightarrow> bd0 \<le> bd \<and> (\<forall>(c, w)\<in>set xs. c \<noteq> old \<longrightarrow> d c w \<le> bd) \<and>
    (bd = bd0 \<and> bc = bc0 \<or> bd0 < bd \<and> (\<exists>w. (bc, w) \<in> set xs \<and> bc \<noteq> old \<and> bd = d bc w))"
proof (induction xs arbitrary: bd0 bc0)
  case (Cons e xs)
  obtain c w where e: "e = (c, w)" by (cases e)
  obtain bd1 bc1 where s: "step e (bd0, bc0) = (bd1, bc1)" by (cases "step e (bd0, bc0)")
  obtain bd bc where r: "fold step xs (bd1, bc1) = (bd, bc)" by (cases "fold step xs (bd1, bc1)")
  have IH: "bd1 \<le> bd" "\<forall>(c, w)\<in>set xs. c \<noteq> old \<longrightarrow> d c w \<le> bd"
    "bd = bd1 \<and> bc = bc1 \<or> bd1 < bd \<and> (\<exists>w. (bc, w) \<in> set xs \<and> bc \<noteq> old \<and> bd = d bc w)"
    using Cons.IH [of bd1 bc1] by (simp_all add: r)
  have f: "fold step (e # xs) (bd0, bc0) = (bd, bc)" using s r by simp
  have s1: "bd0 \<le> bd1" "c \<noteq> old \<longrightarrow> d c w \<le> bd1" "bd1 = bd0 \<and> bc1 = bc0 \<or> bd0 < bd1 \<and> bc1 = c \<and> c \<noteq> old \<and> bd1 = d c w"
    using s by (auto simp: step_def e split: if_splits)
  have "bd0 \<le> bd" using s1(1) IH(1) by simp
  moreover have "\<forall>(c, w)\<in>set (e # xs). c \<noteq> old \<longrightarrow> d c w \<le> bd" using s1(2) IH(1,2) by (auto simp: e)
  moreover have "bd = bd0 \<and> bc = bc0 \<or> bd0 < bd \<and> (\<exists>w. (bc, w) \<in> set (e # xs) \<and> bc \<noteq> old \<and> bd = d bc w)"
    using s1(1,3) IH(3) by (auto simp: e)
  ultimately show ?case unfolding f prod.case by blast
qed simp

definition any_order :: "map_order \<Rightarrow> bool" where
  "any_order ord \<longleftrightarrow> (\<forall>m. mset (ord m) = mset m)"

lemma any_order_set: "any_order ord \<Longrightarrow> set (ord m) = set m"
  by (metis any_order_def set_mset_mset)

definition graph_ok :: "weighted_adj \<Rightarrow> weight list \<Rightarrow> nat \<Rightarrow> bool" where
  "graph_ok adj node_weight n \<longleftrightarrow>
     adj_ok adj n \<and> (\<forall>u<n. \<forall>v<n. edge_wt adj u v = edge_wt adj v u) \<and>
     length node_weight = n \<and> (\<forall>u<n. node_weight ! u = degree (edge_wt adj) n u)"

lemma graph_okD:
  assumes "graph_ok adj nw n"
  shows "adj_ok adj n" "u < n \<Longrightarrow> v < n \<Longrightarrow> edge_wt adj u v = edge_wt adj v u" "length nw = n"
    "u < n \<Longrightarrow> nw ! u = degree (edge_wt adj) n u" "u < n \<Longrightarrow> \<forall>(v, w)\<in>set (adj ! u). v < n"
  using assms by (simp_all add: graph_ok_def adj_ok_def)

lemma comm_total_eq:
  assumes "graph_ok adj nw n" "c < n"
  shows "AccumulateByComm comm nw n ! c = (\<Sum>v<n. if comm ! v = c then degree (edge_wt adj) n v else 0)"
  unfolding AccumulateByComm_def nth_accumulate [OF assms(2)]
  by (rule sum.cong) (auto simp: graph_okD(4) [OF assms(1)])

lemma edge_weight_eq:
  assumes "graph_ok adj nw n" "u < n"
  shows "wt (comm_edge_weight comm (adj ! u)) c = (\<Sum>v<n. if comm ! v = c then edge_wt adj u v else 0)"
  unfolding comm_edge_weight_spec(2) edge_wt_def by (rule row_sum_if [OF graph_okD(5) [OF assms]])

lemma sum_excess:
  "(\<Sum>v<n. if P v then excess \<gamma> A n u v else 0) =
     (\<Sum>v<n. if P v then A u v else 0) - \<gamma> * (degree A n u / volume A n) * (\<Sum>v<n. if P v then degree A n v else 0)"
proof -
  have "(\<Sum>v<n. if P v then excess \<gamma> A n u v else 0) =
      (\<Sum>v<n. (if P v then A u v else 0) - \<gamma> * (degree A n u / volume A n) * (if P v then degree A n v else 0))"
    by (rule sum.cong) (auto simp: excess_def)
  then show ?thesis by (simp add: sum_subtractf sum_distrib_left)
qed

text \<open>
  The values the code compares. The value of staying contains the weight of the loops at \<open>u\<close>, which
  moving would keep as well.
\<close>

lemma code_move_delta:
  assumes g: "graph_ok adj nw n" and u: "u < n" and c: "c < n" and tw: "2 * tw = volume (edge_wt adj) n"
  shows "move_delta \<gamma> tw (nw ! u) (AccumulateByComm comm nw n) c (wt (comm_edge_weight comm (adj ! u)) c) =
    (\<Sum>v<n. if comm ! v = c then excess \<gamma> (edge_wt adj) n u v else 0)"
  unfolding move_delta_def sum_excess comm_total_eq [OF g c] edge_weight_eq [OF g u] graph_okD(4) [OF g u] tw by (rule refl)

lemma code_stay_delta:
  assumes g: "graph_ok adj nw n" and u: "u < n" and c: "comm ! u < n" and tw: "2 * tw = volume (edge_wt adj) n"
  shows "stay_delta \<gamma> tw (nw ! u) (AccumulateByComm comm nw n) (comm ! u) (wt (comm_edge_weight comm (adj ! u)) (comm ! u)) =
    (\<Sum>v<n. if comm ! v = comm ! u then excess \<gamma> (edge_wt adj) n u v else 0) - excess \<gamma> (edge_wt adj) n u u + edge_wt adj u u"
proof -
  have "\<gamma> * (degree (edge_wt adj) n u / volume (edge_wt adj) n) * degree (edge_wt adj) n u =
      edge_wt adj u u - excess \<gamma> (edge_wt adj) n u u" by (simp add: excess_def)
  then show ?thesis
    unfolding stay_delta_def sum_excess comm_total_eq [OF g c] edge_weight_eq [OF g u] graph_okD(4) [OF g u] tw
    by (simp add: right_diff_distrib)
qed

lemma modularity_gain:
  assumes g: "graph_ok adj nw n" and u: "u < n" and c: "c < n" "comm ! u < n" "c \<noteq> comm ! u" and l: "length comm = n"
    and tw: "2 * tw = volume (edge_wt adj) n" "0 < tw"
  shows "modularity \<gamma> (edge_wt adj) n (\<lambda>v. comm[u := c] ! v) - modularity \<gamma> (edge_wt adj) n (\<lambda>v. comm ! v) =
    (move_delta \<gamma> tw (nw ! u) (AccumulateByComm comm nw n) c (wt (comm_edge_weight comm (adj ! u)) c) -
     stay_delta \<gamma> tw (nw ! u) (AccumulateByComm comm nw n) (comm ! u) (wt (comm_edge_weight comm (adj ! u)) (comm ! u)) +
     edge_wt adj u u) / tw"
proof -
  let ?Q = "modularity \<gamma> (edge_wt adj) n"
  have f: "(\<lambda>v. comm[u := c] ! v) = (\<lambda>v. comm ! v)(u := c)" using u l by (auto simp: fun_eq_iff nth_list_update)
  have M: "volume (edge_wt adj) n \<noteq> 0" using tw by simp
  have "(?Q (\<lambda>v. comm[u := c] ! v) - ?Q (\<lambda>v. comm ! v)) * (2 * tw) =
      2 * ((\<Sum>v<n. if comm ! v = c then excess \<gamma> (edge_wt adj) n u v else 0) -
        ((\<Sum>v<n. if comm ! v = comm ! u then excess \<gamma> (edge_wt adj) n u v else 0) - excess \<gamma> (edge_wt adj) n u u))"
    unfolding f tw(1) by (rule modularity_move [where comm = "\<lambda>v. comm ! v" and A = "edge_wt adj", OF u c(3) _ M])
      (rule graph_okD(2) [OF g])
  then have "(?Q (\<lambda>v. comm[u := c] ! v) - ?Q (\<lambda>v. comm ! v)) * tw =
      (\<Sum>v<n. if comm ! v = c then excess \<gamma> (edge_wt adj) n u v else 0) -
        ((\<Sum>v<n. if comm ! v = comm ! u then excess \<gamma> (edge_wt adj) n u v else 0) - excess \<gamma> (edge_wt adj) n u u)" by simp
  then show ?thesis unfolding code_move_delta [OF g u c(1) tw(1)] code_stay_delta [OF g u c(2) tw(1)]
    using tw(2) by (simp add: field_simps)
qed

lemma best_comm_cases:
  fixes \<gamma> tw :: weight and nw T :: "weight list"
  assumes rng: "\<forall>(v, w)\<in>set (adj ! u). v < n" and comm: "\<forall>v<n. comm ! v < n" and ord: "any_order ord"
  defines "m \<equiv> comm_edge_weight comm (adj ! u)"
  defines "stay \<equiv> stay_delta \<gamma> tw (nw ! u) T (comm ! u) (wt m (comm ! u))" and "move \<equiv> \<lambda>c. move_delta \<gamma> tw (nw ! u) T c (wt m c)"
    and "b \<equiv> best_comm ord \<gamma> tw adj nw comm T u"
  shows "b = comm ! u \<and> (\<forall>(v, w)\<in>set (adj ! u). comm ! v \<noteq> comm ! u \<longrightarrow> move (comm ! v) \<le> stay) \<or>
    b < n \<and> b \<noteq> comm ! u \<and> stay < move b"
proof -
  let ?old = "comm ! u"
  let ?r = "fold (\<lambda>(c, w) (bd, bc). if c = ?old then (bd, bc)
      else if move_delta \<gamma> tw (nw ! u) T c w > bd then (move_delta \<gamma> tw (nw ! u) T c w, c) else (bd, bc))
    (ord m) (stay, ?old)"
  note d = comm_edge_weight_spec(1) [of comm "adj ! u", folded m_def]
    and keys = comm_edge_weight_spec(3) [of comm "adj ! u", folded m_def]
  obtain bd bc where r: "?r = (bd, bc)" by (cases ?r)
  have b: "b = bc"
    unfolding b_def best_comm_def Let_def m_def [symmetric] map_read_wt [OF d] stay_def [symmetric] r by simp
  have f: "\<forall>(c, w)\<in>set (ord m). c \<noteq> ?old \<longrightarrow> move_delta \<gamma> tw (nw ! u) T c w \<le> bd"
    "bd = stay \<and> bc = ?old \<or> stay < bd \<and> (\<exists>w. (bc, w) \<in> set (ord m) \<and> bc \<noteq> ?old \<and> bd = move_delta \<gamma> tw (nw ! u) T bc w)"
    using best_fold [where xs = "ord m" and old = ?old and d = "\<lambda>c w. move_delta \<gamma> tw (nw ! u) T c w" and ?bd0.0 = stay and ?bc0.0 = ?old]
    unfolding r prod.case by blast+
  have entry: "move_delta \<gamma> tw (nw ! u) T c w = move c" "c < n" if "(c, w) \<in> set (ord m)" for c w
  proof -
    have e: "(c, w) \<in> set m" using that any_order_set [OF ord] by simp
    show "move_delta \<gamma> tw (nw ! u) T c w = move c" by (simp add: move_def wt_entry [OF d e])
    have "c \<in> set (map fst m)" using e by force
    then obtain x y where "(x, y) \<in> set (adj ! u)" "c = comm ! x" unfolding keys by force
    then show "c < n" using rng comm by auto
  qed
  have le: "move (comm ! v) \<le> bd" if v: "(v, w) \<in> set (adj ! u)" "comm ! v \<noteq> ?old" for v w
  proof -
    have "comm ! v \<in> set (map fst m)" unfolding keys using v(1) by force
    then obtain y where y: "(comm ! v, y) \<in> set (ord m)" using any_order_set [OF ord] by auto
    then show ?thesis using f(1) entry(1) [OF y] v(2) by auto
  qed
  show ?thesis using f(2)
  proof
    assume "bd = stay \<and> bc = ?old"
    then show ?thesis using le unfolding b by blast
  next
    assume "stay < bd \<and> (\<exists>w. (bc, w) \<in> set (ord m) \<and> bc \<noteq> ?old \<and> bd = move_delta \<gamma> tw (nw ! u) T bc w)"
    then obtain w where w: "stay < bd" "(bc, w) \<in> set (ord m)" "bc \<noteq> ?old" "bd = move_delta \<gamma> tw (nw ! u) T bc w" by blast
    then show ?thesis using entry [OF w(2)] unfolding b by simp
  qed
qed

lemma best_comm_spec:
  fixes \<gamma> :: weight
  assumes g: "graph_ok adj nw n" and u: "u < n" and comm: "length comm = n" "\<forall>v<n. comm ! v < n"
    and tw: "2 * tw = volume (edge_wt adj) n" "0 < tw" and ord: "any_order ord"
  defines "Q \<equiv> \<lambda>comm. modularity \<gamma> (edge_wt adj) n (\<lambda>v. comm ! v)"
    and "b \<equiv> best_comm ord \<gamma> tw adj nw comm (AccumulateByComm comm nw n) u"
  shows "b \<noteq> comm ! u \<Longrightarrow> edge_wt adj u u / tw < Q (comm[u := b]) - Q comm"
    "\<lbrakk>b = comm ! u; (v, w) \<in> set (adj ! u)\<rbrakk> \<Longrightarrow> Q (comm[u := comm ! v]) - Q comm \<le> max 0 (edge_wt adj u u / tw)"
proof -
  let ?T = "AccumulateByComm comm nw n" and ?m = "comm_edge_weight comm (adj ! u)" and ?old = "comm ! u"
  let ?stay = "stay_delta \<gamma> tw (nw ! u) ?T ?old (wt ?m ?old)" and ?move = "\<lambda>c. move_delta \<gamma> tw (nw ! u) ?T c (wt ?m c)"
  have cs: "b = ?old \<and> (\<forall>(v, w)\<in>set (adj ! u). comm ! v \<noteq> ?old \<longrightarrow> ?move (comm ! v) \<le> ?stay) \<or>
      b < n \<and> b \<noteq> ?old \<and> ?stay < ?move b"
    unfolding b_def by (rule best_comm_cases [OF graph_okD(5) [OF g u] comm(2) ord])
  have gain: "Q (comm[u := c]) - Q comm = (?move c - ?stay + edge_wt adj u u) / tw" if "c < n" "c \<noteq> ?old" for c
    unfolding Q_def by (rule modularity_gain [OF g u that(1) _ that(2) comm(1) tw]) (use comm(2) u in blast)
  show "edge_wt adj u u / tw < Q (comm[u := b]) - Q comm" if "b \<noteq> ?old"
    using cs gain [of b] that tw(2) by (auto simp: divide_strict_right_mono)
  show "Q (comm[u := comm ! v]) - Q comm \<le> max 0 (edge_wt adj u u / tw)" if "b = ?old" "(v, w) \<in> set (adj ! u)"
  proof (cases "comm ! v = ?old")
    case True
    then show ?thesis by (simp add: Q_def)
  next
    case False
    have v: "comm ! v < n" using graph_okD(5) [OF g u] that(2) comm(2) by auto
    have "?move (comm ! v) \<le> ?stay" using cs that False by auto
    then have "Q (comm[u := comm ! v]) - Q comm \<le> edge_wt adj u u / tw"
      using gain [OF v False] tw(2) by (simp add: divide_right_mono)
    then show ?thesis by simp
  qed
qed

lemma LocalMove_range:
  assumes "adj_ok adj n" "any_order ord" "length comm = n" "\<forall>v<n. comm ! v < n"
    "LocalMove ord \<gamma> k adj nw n tw any comm = (any', comm')"
  shows "length comm' = n" "\<forall>v<n. comm' ! v < n" "any \<Longrightarrow> any'" "\<not> any' \<Longrightarrow> comm' = comm"
proof -
  have "length comm' = n \<and> (\<forall>v<n. comm' ! v < n) \<and> (any \<longrightarrow> any') \<and> (\<not> any' \<longrightarrow> comm' = comm)"
    using assms(3-5)
  proof (induction k arbitrary: any comm)
    case (Suc k)
    define new where "new = map (best_comm ord \<gamma> tw adj nw comm (AccumulateByComm comm nw n)) [0..<n]"
    have rng: "\<forall>v<n. new ! v < n"
    proof (intro allI impI)
      fix v assume v: "v < n"
      have r: "\<forall>(x, w)\<in>set (adj ! v). x < n" using assms(1) v by (simp add: adj_ok_def)
      show "new ! v < n"
        using best_comm_cases [OF r Suc.prems(2) assms(2), of \<gamma> tw nw "AccumulateByComm comm nw n"] v Suc.prems(2)
        by (auto simp: new_def)
    qed
    have len: "length new = n" by (simp add: new_def)
    show ?case
    proof (cases "length (filter (\<lambda>u. new ! u \<noteq> comm ! u) [0..<n]) = 0")
      case True
      then have "\<forall>u<n. new ! u = comm ! u" by (simp add: filter_empty_conv)
      then have "new = comm" using len Suc.prems(1) by (simp add: nth_equalityI)
      moreover have "any' = any" "comm' = new" using Suc.prems(3) True by (simp_all add: Let_def new_def [symmetric])
      ultimately show ?thesis using Suc.prems(1,2) by simp
    next
      case False
      then have "LocalMove ord \<gamma> k adj nw n tw True new = (any', comm')"
        using Suc.prems(3) unfolding LocalMove.simps Let_def new_def [symmetric] by (simp only: if_False)
      from Suc.IH [OF len rng this] show ?thesis by simp
    qed
  qed simp
  then show "length comm' = n" "\<forall>v<n. comm' ! v < n" "any \<Longrightarrow> any'" "\<not> any' \<Longrightarrow> comm' = comm" by blast+
qed

section \<open>Renumbering\<close>

lemma renumber_spec:
  assumes "renumber comm = (out, k)"
  shows "length out = length comm" "set out = {..<k}"
    "i < length comm \<Longrightarrow> j < length comm \<Longrightarrow> out ! i = out ! j \<longleftrightarrow> comm ! i = comm ! j"
proof -
  define step :: "nat \<Rightarrow> (nat \<Rightarrow> nat option) \<times> nat \<times> nat list \<Rightarrow> (nat \<Rightarrow> nat option) \<times> nat \<times> nat list" where
    "step = (\<lambda>c (remap, next_id, out). case remap c of Some d \<Rightarrow> (remap, next_id, out @ [d])
      | None \<Rightarrow> (remap(c \<mapsto> next_id), next_id + 1, out @ [next_id]))"
  define inv where "inv xs m nid out \<longleftrightarrow> dom m = set xs \<and> inj_on m (dom m) \<and> ran m = {..<nid} \<and> map Some out = map m xs"
    for xs and m :: "nat \<Rightarrow> nat option" and nid :: nat and out
  have "\<exists>m nid out. fold step xs (Map.empty, 0, []) = (m, nid, out) \<and> inv xs m nid out" for xs
  proof (induction xs rule: rev_induct)
    case Nil
    then show ?case by (simp add: inv_def)
  next
    case (snoc x xs)
    then obtain m nx ou where *: "fold step xs (Map.empty, 0, []) = (m, nx, ou)" "inv xs m nx ou" by blast
    note i = *(2) [unfolded inv_def]
    show ?case
    proof (cases "m x")
      case (Some d)
      then have "x \<in> set xs" using i by blast
      then have "inv (xs @ [x]) m nx (ou @ [d])" using i Some by (auto simp: inv_def)
      then show ?thesis using * Some by (simp add: step_def)
    next
      case None
      then have x: "x \<notin> set xs" using i by blast
      have "nx \<notin> ran m" using i by simp
      then have inj: "inj_on (m(x \<mapsto> nx)) (dom (m(x \<mapsto> nx)))"
        using i by (auto simp: inj_on_def ran_def split: if_splits)
      have "map (m(x \<mapsto> nx)) xs = map m xs" using x by simp
      moreover have "ran (m(x \<mapsto> nx)) = {..<nx + 1}" using i None by (auto simp: lessThan_Suc)
      ultimately have "inv (xs @ [x]) (m(x \<mapsto> nx)) (nx + 1) (ou @ [nx])"
        using i inj unfolding inv_def by auto
      then show ?thesis using * None by (simp add: step_def)
    qed
  qed
  from this [of comm] obtain m nid out' where r: "fold step comm (Map.empty, 0, []) = (m, nid, out')" "inv comm m nid out'" by blast
  have "renumber comm = (out', nid)" unfolding renumber_def step_def [symmetric] r by simp
  then have "out' = out" "nid = k" using assms by simp_all
  note i = r(2) [unfolded inv_def this]
  have nth: "m (comm ! i) = Some (out ! i)" if "i < length comm" for i
    using i that by (metis length_map nth_map)
  show len: "length out = length comm" using i by (metis length_map)
  show "set out = {..<k}"
  proof -
    have "Some ` set out = m ` set comm" using i by (metis list.set_map)
    also have "\<dots> = Some ` ran m"
    proof -
      have "m ` dom m = Some ` ran m" by (force simp: ran_def dom_def)
      then show ?thesis using i by simp
    qed
    finally show ?thesis using i by (simp add: inj_image_eq_iff)
  qed
  show "out ! i = out ! j \<longleftrightarrow> comm ! i = comm ! j" if "i < length comm" "j < length comm"
  proof -
    have "comm ! i \<in> dom m" "comm ! j \<in> dom m" using i that by simp_all
    then show ?thesis using nth [OF that(1)] nth [OF that(2)] i by (metis inj_on_eq_iff option.inject)
  qed
qed

section \<open>Coarsening\<close>

text \<open>The sum of a function of two vertices over the pairs from two communities.\<close>

definition block :: "(nat \<Rightarrow> nat \<Rightarrow> weight) \<Rightarrow> nat \<Rightarrow> (nat \<Rightarrow> nat) \<Rightarrow> nat \<Rightarrow> nat \<Rightarrow> weight" where
  "block F n comm a b = (\<Sum>u<n. \<Sum>v<n. if comm u = a \<and> comm v = b then F u v else 0)"

lemma block_sum:
  assumes "\<And>u. u < n \<Longrightarrow> comm u < k"
  shows "(\<Sum>a<k. \<Sum>b<k. if P a b then block F n comm a b else 0) = (\<Sum>u<n. \<Sum>v<n. if P (comm u) (comm v) then F u v else 0)"
proof -
  have "(\<Sum>a<k. \<Sum>b<k. if P a b then block F n comm a b else 0) =
      (\<Sum>a<k. \<Sum>b<k. \<Sum>u<n. \<Sum>v<n. if comm u = a \<and> comm v = b \<and> P a b then F u v else 0)"
    unfolding block_def by (intro sum.cong refl) auto
  also have "\<dots> = (\<Sum>u<n. \<Sum>v<n. \<Sum>a<k. \<Sum>b<k. if comm u = a \<and> comm v = b \<and> P a b then F u v else 0)"
  proof -
    have "(\<Sum>a<k. \<Sum>b<k. \<Sum>u<n. \<Sum>v<n. G a b u v) = (\<Sum>u<n. \<Sum>v<n. \<Sum>a<k. \<Sum>b<k. (G a b u v :: weight))" for G
    proof -
      have "(\<Sum>a<k. \<Sum>b<k. \<Sum>u<n. \<Sum>v<n. G a b u v) = (\<Sum>a<k. \<Sum>u<n. \<Sum>v<n. \<Sum>b<k. G a b u v)"
        by (rule sum.cong [OF refl], subst sum.swap, rule sum.cong [OF refl], rule sum.swap)
      also have "\<dots> = (\<Sum>u<n. \<Sum>v<n. \<Sum>a<k. \<Sum>b<k. G a b u v)"
        by (subst sum.swap, rule sum.cong [OF refl], rule sum.swap)
      finally show ?thesis .
    qed
    then show ?thesis .
  qed
  also have "\<dots> = (\<Sum>u<n. \<Sum>v<n. if P (comm u) (comm v) then F u v else 0)"
  proof (intro sum.cong refl)
    fix u v assume uv: "u \<in> {..<n}" "v \<in> {..<n}"
    define x where "x = (if P (comm u) (comm v) then F u v else 0)"
    have "(\<Sum>b<k. if comm u = a \<and> comm v = b \<and> P a b then F u v else 0) =
        (if a = comm u then (\<Sum>b<k. if b = comm v then x else 0) else 0)" for a
    proof (cases "a = comm u")
      case True
      have "(\<Sum>b<k. if comm u = a \<and> comm v = b \<and> P a b then F u v else 0) = (\<Sum>b<k. if b = comm v then x else 0)"
        by (rule sum.cong) (auto simp: x_def True)
      then show ?thesis using True by simp
    qed auto
    then have "(\<Sum>a<k. \<Sum>b<k. if comm u = a \<and> comm v = b \<and> P a b then F u v else 0) =
        (\<Sum>a<k. if a = comm u then (\<Sum>b<k. if b = comm v then x else 0) else 0)" by (simp only:)
    also have "\<dots> = x" using assms [of u] assms [of v] uv by simp
    finally show "(\<Sum>a<k. \<Sum>b<k. if comm u = a \<and> comm v = b \<and> P a b then F u v else 0) =
        (if P (comm u) (comm v) then F u v else 0)" unfolding x_def .
  qed
  finally show ?thesis .
qed

text \<open>The code adds an edge from the smaller community only, and to both rows.\<close>

definition counted :: "nat \<Rightarrow> nat \<Rightarrow> nat \<Rightarrow> nat \<Rightarrow> bool" where
  "counted a b x y \<longleftrightarrow> x \<le> y \<and> (x = a \<and> y = b \<or> x = b \<and> y = a)"

lemma length_coarse_edge [simp]: "length (coarse_edge cu cv w ms) = length ms"
  by (simp add: coarse_edge_def Let_def)

lemma wt_coarse_edge:
  assumes "cu < length ms" "cv < length ms"
  shows "wt (coarse_edge cu cv w ms ! a) b = wt (ms ! a) b + (if counted a b cu cv then w else 0)"
  using assms by (auto simp: coarse_edge_def counted_def Let_def nth_list_update)

definition keys_below :: "nat \<Rightarrow> (nat \<times> weight) list list \<Rightarrow> bool" where
  "keys_below k ms \<longleftrightarrow> length ms = k \<and> (\<forall>m\<in>set ms. \<forall>x\<in>set (map fst m). x < k)"

lemma keys_below_edge:
  assumes "keys_below k ms" "cu < k" "cv < k"
  shows "keys_below k (coarse_edge cu cv w ms)"
proof -
  have upd: "keys_below k (xs[i := map_add_to d w (xs ! i)])" if "keys_below k xs" "i < k" "d < k" for xs i d
  proof -
    have "\<forall>x\<in>set (map fst (xs ! i)). x < k" using that(1,2) by (auto simp: keys_below_def)
    then have "\<forall>x\<in>set (map fst (map_add_to d w (xs ! i))). x < k" using that(3) by (simp del: set_map)
    then show ?thesis using that(1)
      by (auto simp: keys_below_def simp del: set_map dest!: subsetD [OF set_update_subset_insert])
  qed
  note u1 = upd [OF assms(1,2,3)]
  show ?thesis using assms(1) u1 upd [OF u1 assms(3,2)] unfolding coarse_edge_def Let_def by presburger
qed

lemma coarse_row:
  assumes "keys_below k ms" "\<forall>v<n. comm ! v < k" "u < n" "\<forall>(v, w)\<in>set row. v < n"
  defines "ms' \<equiv> fold (\<lambda>(v, w). coarse_edge (comm ! u) (comm ! v) w) row ms"
  shows "keys_below k ms'"
    "wt (ms' ! a) b = wt (ms ! a) b + sum_list (map (\<lambda>(v, w). if counted a b (comm ! u) (comm ! v) then w else 0) row)"
proof -
  have "keys_below k (fold (\<lambda>(v, w). coarse_edge (comm ! u) (comm ! v) w) row ms) \<and>
      wt (fold (\<lambda>(v, w). coarse_edge (comm ! u) (comm ! v) w) row ms ! a) b =
        wt (ms ! a) b + sum_list (map (\<lambda>(v, w). if counted a b (comm ! u) (comm ! v) then w else 0) row)"
    using assms(1,4)
  proof (induction row arbitrary: ms)
    case (Cons e row)
    obtain v w where e: "e = (v, w)" by (cases e)
    have c: "comm ! u < k" "comm ! v < k" using Cons.prems(2) assms(2,3) by (simp_all add: e)
    have kb: "keys_below k (coarse_edge (comm ! u) (comm ! v) w ms)" by (rule keys_below_edge [OF Cons.prems(1) c])
    have "length ms = k" using Cons.prems(1) by (simp add: keys_below_def)
    then have "wt (coarse_edge (comm ! u) (comm ! v) w ms ! a) b =
        wt (ms ! a) b + (if counted a b (comm ! u) (comm ! v) then w else 0)" using c by (simp add: wt_coarse_edge)
    then show ?case using Cons.IH [OF kb] Cons.prems(2) by (simp add: e)
  qed simp
  then show "keys_below k ms'" "wt (ms' ! a) b = wt (ms ! a) b +
      sum_list (map (\<lambda>(v, w). if counted a b (comm ! u) (comm ! v) then w else 0) row)"
    unfolding ms'_def by blast+
qed

lemma coarse_adj_map_spec:
  assumes adj: "adj_ok adj n" and comm: "\<forall>v<n. comm ! v < k"
  shows "keys_below k (coarse_adj_map comm adj n k)"
    "a < k \<Longrightarrow> wt (coarse_adj_map comm adj n k ! a) b =
      (\<Sum>u<n. \<Sum>v<n. if counted a b (comm ! u) (comm ! v) then edge_wt adj u v else 0)"
proof -
  let ?f = "\<lambda>us ms. fold (\<lambda>u ms. fold (\<lambda>(v, w). coarse_edge (comm ! u) (comm ! v) w) (adj ! u) ms) us ms"
  have *: "keys_below k (?f us ms) \<and> wt (?f us ms ! a) b = wt (ms ! a) b +
      sum_list (map (\<lambda>u. \<Sum>v<n. if counted a b (comm ! u) (comm ! v) then edge_wt adj u v else 0) us)"
    if "keys_below k ms" "\<forall>u\<in>set us. u < n" for us ms a
    using that
  proof (induction us arbitrary: ms)
    case (Cons u us)
    have u: "u < n" using Cons.prems(2) by simp
    have rng: "\<forall>(v, w)\<in>set (adj ! u). v < n" using u adj by (simp add: adj_ok_def)
    note r = coarse_row [OF Cons.prems(1) comm u rng]
    have "sum_list (map (\<lambda>(v, w). if counted a b (comm ! u) (comm ! v) then w else 0) (adj ! u)) =
        (\<Sum>v<n. if counted a b (comm ! u) (comm ! v) then edge_wt adj u v else 0)"
      unfolding edge_wt_def by (rule row_sum_if [OF rng])
    then show ?case using Cons.IH [OF r(1)] Cons.prems(2) r(2) [of a b] by simp
  qed simp
  have init: "keys_below k (replicate k [])" by (simp add: keys_below_def)
  show "keys_below k (coarse_adj_map comm adj n k)" using * [OF init, of "[0..<n]"] by (simp add: coarse_adj_map_def)
  show "wt (coarse_adj_map comm adj n k ! a) b =
      (\<Sum>u<n. \<Sum>v<n. if counted a b (comm ! u) (comm ! v) then edge_wt adj u v else 0)" if "a < k"
    using * [OF init, of "[0..<n]" a] that by (simp add: coarse_adj_map_def sum_list_upt)
qed

lemma counted_block:
  assumes sym: "\<And>u v. u < n \<Longrightarrow> v < n \<Longrightarrow> A u v = A v u"
  shows "(\<Sum>u<n. \<Sum>v<n. if counted a b (comm u) (comm v) then A u v else 0) = block A n comm a b"
proof (cases "a \<le> b")
  case True
  then have "counted a b x y \<longleftrightarrow> x = a \<and> y = b" for x y by (auto simp: counted_def)
  then show ?thesis by (simp add: block_def)
next
  case False
  then have "counted a b x y \<longleftrightarrow> x = b \<and> y = a" for x y by (auto simp: counted_def)
  then have "(\<Sum>u<n. \<Sum>v<n. if counted a b (comm u) (comm v) then A u v else 0) =
      (\<Sum>u<n. \<Sum>v<n. if comm u = b \<and> comm v = a then A u v else 0)" by simp
  also have "\<dots> = (\<Sum>v<n. \<Sum>u<n. if comm u = b \<and> comm v = a then A u v else 0)" by (rule sum.swap)
  also have "\<dots> = block A n comm a b" unfolding block_def by (intro sum.cong refl) (auto simp: sym)
  finally show ?thesis .
qed

lemma block_degree:
  assumes "\<And>u. u < n \<Longrightarrow> comm u < k"
  shows "degree (block A n comm) k a = (\<Sum>u<n. if comm u = a then degree A n u else 0)"
proof -
  have "degree (block A n comm) k a = (\<Sum>u<n. \<Sum>v<n. \<Sum>b<k. if comm u = a \<and> comm v = b then A u v else 0)"
    unfolding degree_def block_def by (subst sum.swap, rule sum.cong [OF refl], rule sum.swap)
  also have "\<dots> = (\<Sum>u<n. \<Sum>v<n. if comm u = a then A u v else 0)"
  proof (intro sum.cong refl)
    fix u v assume "u \<in> {..<n}" "v \<in> {..<n}"
    define x where "x = (if comm u = a then A u v else 0)"
    have "(\<Sum>b<k. if comm u = a \<and> comm v = b then A u v else 0) = (\<Sum>b<k. if b = comm v then x else 0)"
      by (rule sum.cong) (auto simp: x_def)
    also have "\<dots> = x" using assms [of v] \<open>v \<in> {..<n}\<close> by simp
    finally show "(\<Sum>b<k. if comm u = a \<and> comm v = b then A u v else 0) = (if comm u = a then A u v else 0)" unfolding x_def .
  qed
  also have "\<dots> = (\<Sum>u<n. if comm u = a then degree A n u else 0)"
    unfolding degree_def by (intro sum.cong refl) auto
  finally show ?thesis .
qed

lemma block_volume:
  fixes comm :: "nat \<Rightarrow> nat"
  assumes "\<And>u. u < n \<Longrightarrow> comm u < k"
  shows "volume (block A n comm) k = volume A n"
proof -
  have "volume (block A n comm) k = (\<Sum>a<k. \<Sum>u<n. if comm u = a then degree A n u else 0)"
    unfolding volume_def by (intro sum.cong refl block_degree assms)
  also have "\<dots> = (\<Sum>u<n. \<Sum>a<k. if comm u = a then degree A n u else 0)" by (rule sum.swap)
  also have "\<dots> = volume A n"
    unfolding volume_def by (rule sum.cong) (use assms in \<open>auto simp: sum.delta'\<close>)
  finally show ?thesis .
qed

lemma block_modularity:
  assumes "\<And>u. u < n \<Longrightarrow> comm u < k"
  shows "modularity \<gamma> (block A n comm) k f = modularity \<gamma> A n (\<lambda>u. f (comm u))"
proof -
  have "degree (block A n comm) k a * degree (block A n comm) k b = block (\<lambda>u v. degree A n u * degree A n v) n comm a b" for a b
  proof -
    have d: "degree (block A n comm) k c = (\<Sum>u<n. if comm u = c then degree A n u else 0)" for c
      by (intro block_degree assms)
    show ?thesis unfolding d sum_product block_def [of "\<lambda>u v. degree A n u * degree A n v"] by (intro sum.cong refl) auto
  qed
  moreover have "volume (block A n comm) k = volume A n" by (intro block_volume assms)
  moreover have "(\<Sum>a<k. \<Sum>b<k. if f a = f b then block F n comm a b else 0) = (\<Sum>u<n. \<Sum>v<n. if f (comm u) = f (comm v) then F u v else 0)" for F
    by (rule block_sum) (use assms in blast)
  ultimately show ?thesis unfolding modularity_split by (simp only:)
qed

lemma degree_cong: "(\<And>v. v < n \<Longrightarrow> A u v = B u v) \<Longrightarrow> degree A n u = degree B n u"
  by (simp add: degree_def)

lemma volume_cong: "(\<And>u v. u < n \<Longrightarrow> v < n \<Longrightarrow> A u v = B u v) \<Longrightarrow> volume A n = volume B n"
  by (simp add: volume_def degree_def)

lemma modularity_cong:
  assumes "\<And>u v. u < n \<Longrightarrow> v < n \<Longrightarrow> A u v = B u v" "\<And>u. u < n \<Longrightarrow> f u = g u"
  shows "modularity \<gamma> A n f = modularity \<gamma> B n g"
proof -
  have d: "degree A n u = degree B n u" if "u < n" for u using assms(1) that by (intro degree_cong) blast
  have v: "volume A n = volume B n" using assms(1) by (rule volume_cong)
  show ?thesis unfolding modularity_def v
    by (intro arg_cong [where f = "\<lambda>x. x / volume B n"] sum.cong refl) (simp add: assms d)
qed

lemma coarsen_graph:
  assumes g: "graph_ok (lv_adj s) (lv_weight s) (lv_n s)" and comm: "\<forall>v<lv_n s. lv_comm s ! v < k" and ord: "any_order ord"
  defines "s' \<equiv> coarsen ord k s"
  shows "graph_ok (lv_adj s') (lv_weight s') k"
    "a < k \<Longrightarrow> b < k \<Longrightarrow> edge_wt (lv_adj s') a b = block (edge_wt (lv_adj s)) (lv_n s) (\<lambda>v. lv_comm s ! v) a b"
proof -
  let ?A = "edge_wt (lv_adj s)" and ?n = "lv_n s" and ?c = "\<lambda>v. lv_comm s ! v"
  let ?ms = "coarse_adj_map (lv_comm s) (lv_adj s) ?n k"
  note m = coarse_adj_map_spec [OF graph_okD(1) [OF g] comm]
  have len: "length ?ms = k" using m(1) by (simp add: keys_below_def)
  have cw: "\<And>u. u < ?n \<Longrightarrow> ?c u < k" using comm by blast
  have e: "edge_wt (lv_adj s') a b = block ?A ?n ?c a b" if "a < k" for a b
  proof -
    have "edge_wt (lv_adj s') a b = wt (?ms ! a) b"
      using that len wt_mset [of "ord (?ms ! a)" "?ms ! a" b] ord by (simp add: edge_wt_def s'_def coarsen_def any_order_def)
    also have "\<dots> = block ?A ?n ?c a b"
      unfolding m(2) [OF that] by (rule counted_block) (rule graph_okD(2) [OF g])
    finally show ?thesis .
  qed
  show "a < k \<Longrightarrow> b < k \<Longrightarrow> edge_wt (lv_adj s') a b = block ?A ?n ?c a b" using e by blast
  have "adj_ok (lv_adj s') k"
  proof -
    have "v < k" if "u < k" "(v, w) \<in> set (ord (?ms ! u))" for u v w
    proof -
      have "(v, w) \<in> set (?ms ! u)" using that(2) any_order_set [OF ord] by simp
      then have "v \<in> set (map fst (?ms ! u))" by force
      moreover have "?ms ! u \<in> set ?ms" using that(1) len by simp
      ultimately show "v < k" using m(1) unfolding keys_below_def by blast
    qed
    then show ?thesis using len by (auto simp: adj_ok_def s'_def coarsen_def)
  qed
  moreover have "edge_wt (lv_adj s') a b = edge_wt (lv_adj s') b a" if "a < k" "b < k" for a b
  proof -
    have "block ?A ?n ?c a b = (\<Sum>v<?n. \<Sum>u<?n. if ?c u = a \<and> ?c v = b then ?A u v else 0)"
      unfolding block_def by (rule sum.swap)
    also have "\<dots> = block ?A ?n ?c b a"
      unfolding block_def by (intro sum.cong refl) (auto simp: graph_okD(2) [OF g])
    finally show ?thesis using e that by simp
  qed
  moreover have "lv_weight s' ! a = degree (edge_wt (lv_adj s')) k a" if "a < k" for a
  proof -
    have "lv_weight s' ! a = (\<Sum>u<?n. if ?c u = a then lv_weight s ! u else 0)"
      unfolding s'_def coarsen_def level.simps by (rule nth_accumulate [OF that])
    also have "\<dots> = (\<Sum>u<?n. if ?c u = a then degree ?A ?n u else 0)"
      by (rule sum.cong) (auto simp: graph_okD(4) [OF g])
    also have "\<dots> = degree (block ?A ?n ?c) k a" by (rule block_degree [symmetric]) (rule cw)
    also have "\<dots> = degree (edge_wt (lv_adj s')) k a" using e [OF that] by (intro degree_cong) simp
    finally show ?thesis .
  qed
  moreover have "length (lv_weight s') = k" by (simp add: s'_def coarsen_def)
  ultimately show "graph_ok (lv_adj s') (lv_weight s') k" unfolding graph_ok_def by blast
qed

section \<open>The levels\<close>

text \<open>
  What every level keeps of the original graph: \<open>cls\<close> gives the super-node of each original vertex,
  and the weights between super-nodes are the summed weights between their vertices.
\<close>

definition level_ok :: "(nat \<Rightarrow> nat \<Rightarrow> weight) \<Rightarrow> nat \<Rightarrow> (nat \<Rightarrow> nat) \<Rightarrow> level \<Rightarrow> bool" where
  "level_ok A N cls s \<longleftrightarrow>
     graph_ok (lv_adj s) (lv_weight s) (lv_n s) \<and>
     length (lv_comm s) = lv_n s \<and> set (lv_comm s) = {..<lv_n s} \<and>
     cls ` {..<N} = {..<lv_n s} \<and>
     (\<forall>c<lv_n s. set (lv_orig s ! c) = {v. v < N \<and> cls v = c}) \<and>
     (\<forall>a<lv_n s. \<forall>b<lv_n s. edge_wt (lv_adj s) a b = block A N cls a b)"

lemma level_okD:
  assumes "level_ok A N cls s"
  shows "graph_ok (lv_adj s) (lv_weight s) (lv_n s)" "length (lv_comm s) = lv_n s" "set (lv_comm s) = {..<lv_n s}"
    "cls ` {..<N} = {..<lv_n s}" "v < N \<Longrightarrow> cls v < lv_n s"
    "c < lv_n s \<Longrightarrow> set (lv_orig s ! c) = {v. v < N \<and> cls v = c}"
    "a < lv_n s \<Longrightarrow> b < lv_n s \<Longrightarrow> edge_wt (lv_adj s) a b = block A N cls a b"
  using assms by (auto simp: level_ok_def)

lemma level_okI:
  assumes "graph_ok (lv_adj s) (lv_weight s) (lv_n s)" "length (lv_comm s) = lv_n s" "set (lv_comm s) = {..<lv_n s}"
    "cls ` {..<N} = {..<lv_n s}" "\<And>c. c < lv_n s \<Longrightarrow> set (lv_orig s ! c) = {v. v < N \<and> cls v = c}"
    "\<And>a b. a < lv_n s \<Longrightarrow> b < lv_n s \<Longrightarrow> edge_wt (lv_adj s) a b = block A N cls a b"
  shows "level_ok A N cls s"
  using assms by (simp add: level_ok_def)

lemma set_nth_merge:
  assumes "c < length new" "\<And>u. u \<in> set us \<Longrightarrow> comm ! u < length new"
  shows "set (fold (\<lambda>u new. new[comm ! u := new ! (comm ! u) @ orig ! u]) us new ! c) =
    set (new ! c) \<union> (\<Union>u\<in>{u \<in> set us. comm ! u = c}. set (orig ! u))"
  using assms
proof (induction us arbitrary: new)
  case (Cons u us)
  have "set (new[comm ! u := new ! (comm ! u) @ orig ! u] ! c) = set (new ! c) \<union> (if comm ! u = c then set (orig ! u) else {})"
    using Cons.prems by (auto simp: nth_list_update)
  then show ?case using Cons.prems by (subst fold_simps) (auto simp: Cons.IH split: if_splits)
qed simp

lemma merge_orig_spec:
  assumes "c < k" "\<And>u. u < n \<Longrightarrow> comm ! u < k"
  shows "set (merge_orig comm orig n k ! c) = (\<Union>u\<in>{u. u < n \<and> comm ! u = c}. set (orig ! u))"
  using set_nth_merge [of c "replicate k []" "[0..<n]" comm orig] assms by (simp add: merge_orig_def)

lemma block_block:
  assumes "\<And>v. v < N \<Longrightarrow> cls v < n"
  shows "block (block A N cls) n f a b = block A N (\<lambda>v. f (cls v)) a b"
  unfolding block_def [of "block A N cls"] block_def [of A N "\<lambda>v. f (cls v)"]
  by (rule block_sum) (use assms in blast)

lemma block_cong:
  "(\<And>u v. u < n \<Longrightarrow> v < n \<Longrightarrow> A u v = B u v) \<Longrightarrow> block A n f a b = block B n f a b"
  unfolding block_def by (intro sum.cong refl) simp

lemma coarsen_level_ok:
  assumes s: "level_ok A N cls s" and l: "length out = lv_n s" and out: "set out = {..<k}" and ord: "any_order ord"
  shows "level_ok A N (\<lambda>v. out ! cls v) (coarsen ord k (s\<lparr>lv_comm := out\<rparr>))"
proof (rule level_okI)
  let ?s = "s\<lparr>lv_comm := out\<rparr>" let ?s' = "coarsen ord k ?s"
  have n [simp]: "lv_n ?s' = k" by (simp add: coarsen_def)
  have lt: "out ! v < k" if "v < lv_n s" for v using out nth_mem [of v out] l that by auto
  have g: "graph_ok (lv_adj ?s) (lv_weight ?s) (lv_n ?s)" using level_okD(1) [OF s] by simp
  have c: "\<forall>v<lv_n ?s. lv_comm ?s ! v < k" using lt by simp
  show "graph_ok (lv_adj ?s') (lv_weight ?s') (lv_n ?s')" using coarsen_graph(1) [OF g c ord] by simp
  show "length (lv_comm ?s') = lv_n ?s'" "set (lv_comm ?s') = {..<lv_n ?s'}"
    by (simp_all add: coarsen_def atLeast0LessThan)
  have "(\<lambda>v. out ! cls v) ` {..<N} = (\<lambda>i. out ! i) ` (cls ` {..<N})" by (simp only: image_image)
  also have "\<dots> = set out" unfolding level_okD(4) [OF s] l [symmetric] by (auto simp: set_conv_nth)
  finally show "(\<lambda>v. out ! cls v) ` {..<N} = {..<lv_n ?s'}" by (simp add: out)
  fix a assume a: "a < lv_n ?s'"
  have "set (lv_orig ?s' ! a) = (\<Union>u\<in>{u. u < lv_n s \<and> out ! u = a}. set (lv_orig s ! u))"
    using merge_orig_spec [of a k "lv_n s" out] a lt by (simp add: coarsen_def)
  also have "\<dots> = (\<Union>u\<in>{u. u < lv_n s \<and> out ! u = a}. {v. v < N \<and> cls v = u})"
    by (rule SUP_cong) (simp_all add: level_okD(6) [OF s])
  also have "\<dots> = {v. v < N \<and> out ! cls v = a}" using level_okD(5) [OF s] by auto
  finally show "set (lv_orig ?s' ! a) = {v. v < N \<and> out ! cls v = a}" .
  fix b assume b: "b < lv_n ?s'"
  have "edge_wt (lv_adj ?s') a b = block (edge_wt (lv_adj s)) (lv_n s) (\<lambda>v. out ! v) a b"
    using coarsen_graph(2) [OF g c ord, of a b] a b by simp
  also have "\<dots> = block (block A N cls) (lv_n s) (\<lambda>v. out ! v) a b"
    by (rule block_cong) (rule level_okD(7) [OF s])
  also have "\<dots> = block A N (\<lambda>v. out ! cls v) a b" by (rule block_block) (rule level_okD(5) [OF s])
  finally show "edge_wt (lv_adj ?s') a b = block A N (\<lambda>v. out ! cls v) a b" .
qed

lemma level_ok_comm:
  "level_ok A N cls s \<Longrightarrow> length out = lv_n s \<Longrightarrow> set out = {..<lv_n s} \<Longrightarrow> level_ok A N cls (s\<lparr>lv_comm := out\<rparr>)"
  by (simp add: level_ok_def)

lemma louvain_levels_ok:
  assumes "level_ok A N cls s" "any_order ord" "louvain_levels ord \<gamma> it tw remaining l s = (l', s')"
  shows "\<exists>cls'. level_ok A N cls' s' \<and> l' \<le> l + remaining"
  using assms(1,3)
proof (induction remaining arbitrary: l s cls)
  case (Suc remaining)
  obtain improved comm where lm: "LocalMove ord \<gamma> it (lv_adj s) (lv_weight s) (lv_n s) tw False (lv_comm s) = (improved, comm)"
    by fastforce
  obtain out k where rn: "renumber comm = (out, k)" by fastforce
  note ok = level_okD [OF Suc.prems(1)]
  have lt: "\<forall>v<lv_n s. lv_comm s ! v < lv_n s" using ok(2,3) nth_mem [of _ "lv_comm s"] by auto
  note r = LocalMove_range [OF graph_okD(1) [OF ok(1)] assms(2) ok(2) lt lm]
  note out = renumber_spec [OF rn]
  consider "\<not> improved" "0 < l" | "improved \<or> l = 0" "k = lv_n s" | "improved \<or> l = 0" "k \<noteq> lv_n s" by blast
  then show ?case
  proof cases
    case 1
    then have "s' = s" "l' = l" using Suc.prems(2) r(4) by (simp_all add: lm)
    then show ?thesis using Suc.prems(1) by auto
  next
    case 2
    then have "s' = s\<lparr>lv_comm := out\<rparr>" "l' = l" using Suc.prems(2) by (auto simp: lm rn split: if_splits)
    then show ?thesis using level_ok_comm [OF Suc.prems(1), of out] out(1,2) r(1) 2 by auto
  next
    case 3
    then have "louvain_levels ord \<gamma> it tw remaining (l + 1) (coarsen ord k (s\<lparr>lv_comm := out\<rparr>)) = (l', s')"
      using Suc.prems(2) by (auto simp: lm rn split: if_splits)
    from Suc.IH [OF coarsen_level_ok [OF Suc.prems(1) _ out(2) assms(2)] this] out(1) r(1)
    show ?thesis by auto
  qed
qed auto

lemma nth_fold_assign:
  "i < length com \<Longrightarrow> fold (\<lambda>v com. com[v := x]) vs com ! i = (if i \<in> set vs then x else com ! i)"
  by (induction vs arbitrary: com) (auto simp: nth_list_update)

lemma length_fold_assign [simp]: "length (fold (\<lambda>v com. com[v := x]) vs com) = length com"
  by (induction vs arbitrary: com) auto

lemma length_fold_fold_assign [simp]:
  "length (fold (\<lambda>c. fold (\<lambda>v com. com[v := f c]) (orig c)) cs com) = length com"
  by (induction cs arbitrary: com) auto

lemma nth_fold_fold_assign:
  assumes "i < length com" "\<And>c. c \<in> set cs \<Longrightarrow> i \<in> set (orig c) \<longleftrightarrow> c = d"
  shows "fold (\<lambda>c. fold (\<lambda>v com. com[v := f c]) (orig c)) cs com ! i = (if d \<in> set cs then f d else com ! i)"
  using assms
proof (induction cs arbitrary: com)
  case (Cons c cs)
  have "i \<in> set (orig c) \<longleftrightarrow> c = d" using Cons.prems(2) [of c] by simp
  then show ?case using Cons.prems(1) Cons.IH [OF _ Cons.prems(2), of "fold (\<lambda>v com. com[v := f c]) (orig c) com"]
    by (auto simp: nth_fold_assign)
qed simp

lemma final_community_spec:
  assumes "level_ok A N cls s"
  shows "length (final_community N s) = N" "v < N \<Longrightarrow> final_community N s ! v = lv_comm s ! cls v"
    "set (final_community N s) = {..<lv_n s}"
proof -
  show l: "length (final_community N s) = N" by (simp add: final_community_def)
  have nth: "final_community N s ! v = lv_comm s ! cls v" if "v < N" for v
  proof -
    have "v \<in> set (lv_orig s ! c) \<longleftrightarrow> c = cls v" if "c \<in> set [0..<lv_n s]" for c
      using level_okD(6) [OF assms, of c] that \<open>v < N\<close> by auto
    then show ?thesis
      using nth_fold_fold_assign [of v "replicate N 0" "[0..<lv_n s]" "\<lambda>c. lv_orig s ! c" "cls v" "\<lambda>c. lv_comm s ! c"]
        level_okD(5) [OF assms that] that by (simp add: final_community_def)
  qed
  then show "v < N \<Longrightarrow> final_community N s ! v = lv_comm s ! cls v" .
  have "set (final_community N s) = (\<lambda>v. final_community N s ! v) ` {..<N}"
    using l by (force simp: set_conv_nth)
  also have "\<dots> = (\<lambda>v. lv_comm s ! cls v) ` {..<N}" using nth by (intro image_cong refl) simp
  also have "\<dots> = (\<lambda>i. lv_comm s ! i) ` (cls ` {..<N})" by (simp only: image_image)
  also have "\<dots> = {..<lv_n s}"
    unfolding level_okD(4) [OF assms] using level_okD(2,3) [OF assms] by (auto simp: set_conv_nth)
  finally show "set (final_community N s) = {..<lv_n s}" .
qed

definition symmetric_weights :: "weighted_adj \<Rightarrow> nat \<Rightarrow> bool" where
  "symmetric_weights adj n \<longleftrightarrow> adj_ok adj n \<and> (\<forall>u<n. \<forall>v<n. edge_wt adj u v = edge_wt adj v u)"

lemma block_singletons: "a < n \<Longrightarrow> b < n \<Longrightarrow> block A n (\<lambda>v. v) a b = A a b"
proof -
  assume a: "a < n" and b: "b < n"
  have "block A n (\<lambda>v. v) a b = (\<Sum>u<n. if u = a then \<Sum>v<n. if v = b then A u v else 0 else 0)"
    unfolding block_def by (intro sum.cong refl) auto
  then show ?thesis using a b by simp
qed

lemma first_level_ok:
  assumes "symmetric_weights adj n"
  shows "level_ok (edge_wt adj) n (\<lambda>v. v) (first_level adj n)"
proof (rule level_okI)
  have "adj_ok adj n" using assms by (simp add: symmetric_weights_def)
  then show "graph_ok (lv_adj (first_level adj n)) (lv_weight (first_level adj n)) (lv_n (first_level adj n))"
    using assms by (simp add: graph_ok_def symmetric_weights_def first_level_def row_weight_degree)
qed (auto simp: first_level_def block_singletons)

lemma total_weight_volume: "adj_ok adj n \<Longrightarrow> sum_list (map (\<lambda>u. row_weight (adj ! u)) [0..<n]) = volume (edge_wt adj) n"
  unfolding sum_list_upt volume_def by (rule sum.cong) (simp_all add: row_weight_degree)

text \<open>
  C8. On a symmetric weighted graph with at least one vertex and positive total weight, whatever order the
  hash maps are iterated in, every vertex gets a community, the communities are numbered from zero
  without gaps up to the reported number, the reported modularity is the modularity (with the given
  resolution) of the reported communities in the original graph, and no more levels are completed than
  allowed.
\<close>

theorem Louvain_Compute_correct:
  fixes \<gamma> :: weight
  assumes "symmetric_weights adj n" "0 < n" "0 < volume (edge_wt adj) n" "any_order ord"
    and "r = Louvain_Compute ord \<gamma> max_iterations max_levels adj n"
  shows "length (lr_community r) = n \<and> set (lr_community r) = {..<lr_num_communities r} \<and>
    lr_modularity r = modularity \<gamma> (edge_wt adj) n (\<lambda>v. lr_community r ! v) \<and> lr_levels r \<le> max_levels"
proof -
  have adj: "adj_ok adj n" using assms(1) by (simp add: symmetric_weights_def)
  define tw where "tw = sum_list (map (\<lambda>u. row_weight (adj ! u)) [0..<n]) / 2"
  obtain l s where ls: "louvain_levels ord \<gamma> max_iterations tw max_levels 0 (first_level adj n) = (l, s)" by fastforce
  obtain cls where ok: "level_ok (edge_wt adj) n cls s" and l: "l \<le> max_levels"
    using louvain_levels_ok [OF first_level_ok [OF assms(1)] assms(4) ls] by auto
  note fc = final_community_spec [OF ok]
  have "ComputeModularity \<gamma> adj n (final_community n s) tw = modularity \<gamma> (edge_wt adj) n (\<lambda>v. final_community n s ! v)"
    using adj fc(1) by (rule ComputeModularity_eq) (use assms(3) total_weight_volume [OF adj] in \<open>simp_all add: tw_def\<close>)
  moreover have "r = \<lparr>lr_num_communities = card (set (final_community n s)), lr_levels = l,
      lr_modularity = ComputeModularity \<gamma> adj n (final_community n s) tw, lr_community = final_community n s\<rparr>"
    using assms(2,5) ls by (simp add: Louvain_Compute_def tw_def Let_def)
  ultimately show ?thesis using fc(1,3) l by simp
qed

text \<open>Two triangles joined by one edge.\<close>

definition two_triangles :: weighted_adj where
  "two_triangles = [[(1, 1), (2, 1)], [(0, 1), (2, 1)], [(0, 1), (1, 1), (3, 1)], [(2, 1), (4, 1), (5, 1)],
     [(3, 1), (5, 1)], [(3, 1), (4, 1)]]"

lemma all_less_6: "(\<forall>v<6. P v) \<longleftrightarrow> P 0 \<and> P 1 \<and> P 2 \<and> P 3 \<and> P 4 \<and> P (5 :: nat)"
  by (simp add: numeral_eq_Suc All_less_Suc2)

lemma two_triangles_symmetric: "symmetric_weights two_triangles 6"
  by code_simp

lemma two_triangles_volume: "volume (edge_wt two_triangles) 6 = 14"
  by code_simp

lemma any_order_id: "any_order (\<lambda>m. m)"
  by (simp add: any_order_def)

lemma two_triangles_result:
  "Louvain_Compute (\<lambda>m. m) 1 10 10 two_triangles 6 =
     \<lparr>lr_num_communities = 2, lr_levels = 2, lr_modularity = 5 / 14, lr_community = [0, 0, 0, 1, 1, 1]\<rparr>"
  by code_simp

theorem Louvain_Compute_correct_witness:
  "length (lr_community (Louvain_Compute (\<lambda>m. m) 1 10 10 two_triangles 6)) = 6 \<and>
   5 / 14 = modularity 1 (edge_wt two_triangles) 6 (\<lambda>v. [0, 0, 0, 1, 1, 1] ! v)"
proof -
  have "0 < volume (edge_wt two_triangles) 6" by (simp add: two_triangles_volume)
  from Louvain_Compute_correct [OF two_triangles_symmetric _ this any_order_id refl, of 1 10 10]
  show ?thesis unfolding two_triangles_result louvain_result.simps by simp
qed

text \<open>
  C15. Coarsening keeps modularity: for every assignment of communities to the super-nodes, the modularity
  in the coarsened graph is that of the induced assignment in the graph before coarsening; the
  coarsened graph is again symmetric and its node weights are again the degrees.
\<close>

theorem coarsen_modularity:
  fixes \<gamma> :: weight
  assumes "graph_ok (lv_adj s) (lv_weight s) (lv_n s)" "\<forall>v<lv_n s. lv_comm s ! v < k" "any_order ord"
  shows "graph_ok (lv_adj (coarsen ord k s)) (lv_weight (coarsen ord k s)) k \<and>
    modularity \<gamma> (edge_wt (lv_adj (coarsen ord k s))) k f =
      modularity \<gamma> (edge_wt (lv_adj s)) (lv_n s) (\<lambda>v. f (lv_comm s ! v))"
proof
  show "graph_ok (lv_adj (coarsen ord k s)) (lv_weight (coarsen ord k s)) k" by (rule coarsen_graph [OF assms])
  have "modularity \<gamma> (edge_wt (lv_adj (coarsen ord k s))) k f =
      modularity \<gamma> (block (edge_wt (lv_adj s)) (lv_n s) (\<lambda>v. lv_comm s ! v)) k f"
    by (rule modularity_cong) (simp_all only: coarsen_graph(2) [OF assms])
  also have "\<dots> = modularity \<gamma> (edge_wt (lv_adj s)) (lv_n s) (\<lambda>v. f (lv_comm s ! v))"
    by (rule block_modularity) (use assms(2) in blast)
  finally show "modularity \<gamma> (edge_wt (lv_adj (coarsen ord k s))) k f =
      modularity \<gamma> (edge_wt (lv_adj s)) (lv_n s) (\<lambda>v. f (lv_comm s ! v))" .
qed

definition triangles_level :: level where
  "triangles_level = (first_level two_triangles 6)\<lparr>lv_comm := [0, 0, 0, 1, 1, 1]\<rparr>"

lemma triangles_level_ok: "graph_ok (lv_adj triangles_level) (lv_weight triangles_level) (lv_n triangles_level)"
  using level_okD(1) [OF first_level_ok [OF two_triangles_symmetric]] by (simp add: triangles_level_def)

lemma triangles_level_coarse:
  "lv_adj (coarsen (\<lambda>m. m) 2 triangles_level) = [[(0, 6), (1, 1)], [(0, 1), (1, 6)]]" "lv_n triangles_level = 6"
  "lv_comm triangles_level = [0, 0, 0, 1, 1, 1]" "lv_adj triangles_level = two_triangles"
  by code_simp+

theorem coarsen_modularity_witness:
  "modularity 1 (edge_wt [[(0, 6), (1, 1)], [(0, 1), (1, 6)]]) 2 (\<lambda>c. c) =
     modularity 1 (edge_wt two_triangles) 6 (\<lambda>v. [0, 0, 0, 1, 1, 1] ! v)"
  using coarsen_modularity [OF triangles_level_ok _ any_order_id, of 2 1 "\<lambda>c. c"]
  by (simp add: triangles_level_coarse all_less_6)

text \<open>
  A vertex that leaves its community for the one the local move chooses, while every other vertex stays,
  raises the modularity; by more than its self-loop weight over the total edge weight, so that moves
  are never taken without a gain when self-loops are not negative.
\<close>

theorem best_comm_gain:
  fixes \<gamma> :: weight
  assumes "graph_ok adj node_weight n" "u < n" "length comm = n" "\<forall>v<n. comm ! v < n"
    and "2 * total_weight = volume (edge_wt adj) n" "0 < total_weight" "any_order ord"
    and "c = best_comm ord \<gamma> total_weight adj node_weight comm (AccumulateByComm comm node_weight n) u"
    and "c \<noteq> comm ! u"
  shows "modularity \<gamma> (edge_wt adj) n (\<lambda>v. comm ! v) + edge_wt adj u u / total_weight <
    modularity \<gamma> (edge_wt adj) n (\<lambda>v. comm[u := c] ! v)"
  using best_comm_spec(1) [OF assms(1-7), of \<gamma>] assms(8,9) by simp

lemma first_level_graph_ok:
  "symmetric_weights adj n \<Longrightarrow> graph_ok adj (map (\<lambda>u. row_weight (adj ! u)) [0..<n]) n"
  using level_okD(1) [OF first_level_ok] by (simp add: first_level_def)

theorem best_comm_gain_witness:
  "modularity 1 (edge_wt two_triangles) 6 (\<lambda>v. [0, 0, 2, 3, 4, 5] ! v) <
     modularity 1 (edge_wt two_triangles) 6 (\<lambda>v. [0, 0, 0, 3, 4, 5] ! v)"
proof -
  have "0 = best_comm (\<lambda>m. m) 1 7 two_triangles (map (\<lambda>u. row_weight (two_triangles ! u)) [0..<6]) [0, 0, 2, 3, 4, 5]
      (AccumulateByComm [0, 0, 2, 3, 4, 5] (map (\<lambda>u. row_weight (two_triangles ! u)) [0..<6]) 6) 2" by code_simp
  moreover have "edge_wt two_triangles 2 2 = 0" by code_simp
  ultimately show ?thesis
    using best_comm_gain [OF first_level_graph_ok [OF two_triangles_symmetric], of 2 "[0, 0, 2, 3, 4, 5]" 7 "\<lambda>m. m" 0 1]
    by (simp add: two_triangles_volume any_order_id all_less_6)
qed

section \<open>Synchronous moves and self-loops\<close>

definition single_edge :: weighted_adj where
  "single_edge = [[(1, 1)], [(0, 1)]]"

lemma any_order_single: "any_order ord \<Longrightarrow> ord [x] = [x]"
  by (simp add: any_order_def flip: mset_single_iff)

lemma single_edge_swap:
  assumes "any_order ord" "\<gamma> < 2" "comm = [0, 1] \<or> comm = [1, 0]"
  shows "map (best_comm ord \<gamma> 1 single_edge [1, 1] comm (AccumulateByComm comm [1, 1] 2)) [0..<2] = rev comm"
  using assms(2,3)
  by (auto simp: best_comm_def AccumulateByComm_def add_at_def comm_edge_weight_def single_edge_def map_read_def
      stay_delta_def move_delta_def any_order_single [OF assms(1)] upt_rec numeral_2_eq_2 Let_def)

lemma single_edge_LocalMove:
  assumes "any_order ord" "\<gamma> < 2" "comm = [0, 1] \<or> comm = [1, 0]"
  shows "\<exists>comm'. LocalMove ord \<gamma> k single_edge [1, 1] 2 1 any comm = (any \<or> 0 < k, comm') \<and>
    (comm' = [0, 1] \<or> comm' = [1, 0])"
  using assms(3)
proof (induction k arbitrary: any comm)
  case (Suc k)
  have "length (filter (\<lambda>u. rev comm ! u \<noteq> comm ! u) [0..<2]) \<noteq> 0"
    using Suc.prems by (auto simp: upt_rec numeral_2_eq_2)
  moreover have "rev comm = [0, 1] \<or> rev comm = [1, 0]" using Suc.prems by auto
  ultimately show ?case using Suc.IH [of "rev comm" True] by (simp add: Let_def single_edge_swap [OF assms(1,2) Suc.prems])
qed auto

lemma single_edge_levels:
  assumes "any_order ord" "\<gamma> < 2"
  shows "louvain_levels ord \<gamma> it 1 lv 0 (first_level single_edge 2) = (0, first_level single_edge 2)"
proof (cases lv)
  case (Suc remaining)
  have s: "lv_n (first_level single_edge 2) = 2" "lv_adj (first_level single_edge 2) = single_edge"
    "lv_weight (first_level single_edge 2) = [1, 1]" "lv_comm (first_level single_edge 2) = [0, 1]"
    "(first_level single_edge 2)\<lparr>lv_comm := [0, 1]\<rparr> = first_level single_edge 2"
    by (simp_all add: first_level_def single_edge_def row_weight_def upt_rec)
  obtain improved comm where lm: "LocalMove ord \<gamma> it single_edge [1, 1] 2 1 False [0, 1] = (improved, comm)"
    and c: "comm = [0, 1] \<or> comm = [1, 0]"
    using single_edge_LocalMove [OF assms, of "[0, 1]" it False] by auto
  have "renumber comm = ([0, 1], 2)" using c by (auto simp: renumber_def)
  then show ?thesis by (simp add: Suc s lm del: One_nat_def)
qed simp

text \<open>
  On a single edge every synchronous iteration swaps the communities of its two vertices: for every
  resolution below two, every number of iterations and levels and every iteration order of the maps, the
  result is two communities with modularity \<open>- \<gamma> / 2\<close>, although putting both vertices into one community
  has the higher modularity \<open>1 - \<gamma>\<close>.
\<close>

theorem single_edge_not_merged:
  fixes \<gamma> :: weight
  assumes "any_order ord" "\<gamma> < 2" "r = Louvain_Compute ord \<gamma> max_iterations max_levels single_edge 2"
  shows "lr_community r = [0, 1] \<and> lr_levels r = 0 \<and> lr_modularity r = - \<gamma> / 2 \<and>
    modularity \<gamma> (edge_wt single_edge) 2 (\<lambda>_. 0) = 1 - \<gamma> \<and>
    lr_modularity r < modularity \<gamma> (edge_wt single_edge) 2 (\<lambda>_. 0)"
proof -
  have tw: "sum_list (map (\<lambda>u. row_weight (single_edge ! u)) [0..<2]) / 2 = 1"
    by (simp add: single_edge_def row_weight_def upt_rec)
  have c: "final_community 2 (first_level single_edge 2) = [0, 1]"
    by (simp add: final_community_def first_level_def upt_rec numeral_2_eq_2)
  have q: "ComputeModularity \<gamma> single_edge 2 [0, 1] 1 = - \<gamma> / 2"
    by (simp add: ComputeModularity_def single_edge_def row_weight_def add_at_def upt_rec numeral_2_eq_2 Let_def)
  have "edge_wt single_edge 0 0 = 0" "edge_wt single_edge 0 1 = 1" "edge_wt single_edge 1 0 = 1" "edge_wt single_edge 1 1 = 0"
    by (simp_all add: edge_wt_def single_edge_def)
  then have "modularity \<gamma> (edge_wt single_edge) 2 (\<lambda>_. 0) = 1 - \<gamma>"
    by (simp add: modularity_def degree_def volume_def numeral_2_eq_2 field_simps)
  then show ?thesis using assms(2) by (simp add: assms(3) Louvain_Compute_def tw single_edge_levels [OF assms(1,2)] c q Let_def del: One_nat_def)
qed

theorem single_edge_not_merged_witness:
  "lr_community (Louvain_Compute (\<lambda>m. m) 1 10 10 single_edge 2) = [0, 1] \<and>
   lr_modularity (Louvain_Compute (\<lambda>m. m) 1 10 10 single_edge 2) = - 1 / 2"
  using single_edge_not_merged [OF any_order_id _ refl, of 1 10 10] by simp

text \<open>
  The value of staying counts a self-loop of the vertex, the value of moving does not. On two vertices
  with loops of weight two and an edge of weight three no vertex moves, although joining them raises the
  modularity; coarsened graphs carry such loops.
\<close>

definition loop_pair :: weighted_adj where
  "loop_pair = [[(0, 2), (1, 3)], [(0, 3), (1, 2)]]"

lemma loop_pair_stuck:
  "LocalMove (\<lambda>m. m) 1 10 loop_pair [5, 5] 2 5 False [0, 1] = (False, [0, 1])"
  "ComputeModularity 1 loop_pair 2 [0, 1] 5 = - 1 / 10" "ComputeModularity 1 loop_pair 2 [0, 0] 5 = 0"
  by code_simp+

end
