(* ===== verification/String_Column.thy ===== *)
theory String_Column
  imports Property_Value
begin

text \<open>
  Columns of strings: \<^verbatim>\<open>TypedColumn<std::string_view>\<close> of
  \<^verbatim>\<open>include/neug/utils/property/column.h\<close> and \<^verbatim>\<open>truncate_utf8\<close> of
  \<^verbatim>\<open>src/utils/property/column.cc\<close>. A column is an array of items, each the offset and the
  length of a string, and a buffer the strings are appended to. The memory-mapped containers are the
  lists of what they hold; growing one appends zeros.

  The lemmas show what a column keeps of the strings written into it, which strings
  \<^verbatim>\<open>truncate_utf8\<close> never returns for, and when a column survives being dumped and opened.
\<close>

section \<open>Cutting a string to a number of bytes\<close>

definition utf8_char_length :: "8 word \<Rightarrow> nat" where
  "utf8_char_length ch =
     (if ch AND 0x80 = 0 then 1
      else if ch AND 0xE0 = 0xC0 then 2
      else if ch AND 0xF0 = 0xE0 then 3
      else if ch AND 0xF8 = 0xF0 then 4
      else 0)"

text \<open>The loop may not end, so it is a partial function: \<open>None\<close> is not returning.\<close>

partial_function (option) utf8_loop :: "bytes \<Rightarrow> nat \<Rightarrow> nat \<Rightarrow> nat option" where
  "utf8_loop str len byte_count =
     (if str ! byte_count = 0 \<or> \<not> byte_count < len then Some byte_count
      else if byte_count + utf8_char_length (str ! byte_count) > len then Some byte_count
      else utf8_loop str len (byte_count + utf8_char_length (str ! byte_count)))"

definition truncate_utf8 :: "bytes \<Rightarrow> nat \<Rightarrow> bytes option" where
  "truncate_utf8 str len =
     (if length str \<le> len then Some str
      else map_option (\<lambda>n. take n str) (utf8_loop str len 0))"

section \<open>The column\<close>

record string_item =
  it_offset :: "48 word"
  it_length :: "16 word"

record scol =
  sc_items :: "string_item list"
  sc_data :: bytes
  sc_pos :: nat
  sc_width :: nat

datatype column_error = IndexOutOfRange | NoSpace | TypeMismatch | SizeMismatch | UnsupportedType

definition null_item :: string_item where
  "null_item = \<lparr>it_offset = 0, it_length = 0\<rparr>"

definition grow_to :: "'a \<Rightarrow> nat \<Rightarrow> 'a list \<Rightarrow> 'a list" where
  "grow_to z n xs = take n xs @ replicate (n - length xs) z"

definition scol_size :: "scol \<Rightarrow> nat" where
  "scol_size c = length (sc_items c)"

definition string_avg_size :: "scol \<Rightarrow> nat" where
  "string_avg_size c =
     (let ls = filter (\<lambda>l. l > 0) (map (\<lambda>it. unat (it_length it)) (sc_items c))
      in if scol_size c = 0 then 0 else if length ls > 0 then sum_list ls div length ls else 0)"

definition scol_resize :: "nat \<Rightarrow> scol \<Rightarrow> scol" where
  "scol_resize n c =
     (let len = (if sc_items c = [] then max (n * sc_width c) (sc_pos c)
                 else let avg_size = (if string_avg_size c > 0 then string_avg_size c else sc_width c)
                      in max (n * avg_size) (sc_pos c))
      in c\<lparr>sc_items := grow_to null_item n (sc_items c), sc_data := grow_to 0 len (sc_data c)\<rparr>)"

text \<open>Writing appends to the buffer. The outer \<open>None\<close> is a truncation that does not return.\<close>

definition set_value :: "nat \<Rightarrow> bytes \<Rightarrow> scol \<Rightarrow> (column_error + scol) option" where
  "set_value idx val c =
     map_option (\<lambda>v.
       if idx < scol_size c \<and> sc_pos c + length v \<le> length (sc_data c)
       then Inr (c\<lparr>sc_pos := sc_pos c + length v,
                   sc_items := (sc_items c)[idx := \<lparr>it_offset = of_nat (sc_pos c), it_length = of_nat (length v)\<rparr>],
                   sc_data := take (sc_pos c) (sc_data c) @ v @ drop (sc_pos c + length v) (sc_data c)\<rparr>)
       else Inl NoSpace)
     (if length val \<ge> sc_width c then truncate_utf8 val (sc_width c) else Some val)"

definition set_any :: "nat \<Rightarrow> bytes \<Rightarrow> scol \<Rightarrow> (column_error + scol) option" where
  "set_any idx val c =
     (if idx \<ge> scol_size c then Some (Inl IndexOutOfRange)
      else let new_avg_width = (sc_pos c + idx) div (idx + 1);
               new_len = max (scol_size c * new_avg_width) (sc_pos c + length val);
               c = (if sc_pos c + length val > length (sc_data c)
                    then c\<lparr>sc_data := grow_to 0 new_len (sc_data c)\<rparr> else c)
           in set_value idx val c)"

definition scol_resize_default :: "nat \<Rightarrow> property_t \<Rightarrow> scol \<Rightarrow> (column_error + scol) option" where
  "scol_resize_default n default_value c =
     (case default_value of
        PVarchar def \<Rightarrow>
          (case truncate_utf8 def (sc_width c) of
             None \<Rightarrow> None
           | Some default_str \<Rightarrow>
               (let old_size = scol_size c;
                    needed = sc_pos c + (n - old_size) * sc_width c;
                    c = c\<lparr>sc_items := grow_to null_item n (sc_items c)\<rparr>;
                    c = c\<lparr>sc_data := grow_to 0 (max needed (n * string_avg_size c)) (sc_data c)\<rparr>
                in if default_str = [] \<or> \<not> old_size < n then Some (Inr c)
                   else map_option (map_sum id
                          (\<lambda>c. c\<lparr>sc_items := take (old_size + 1) (sc_items c) @
                                   replicate (n - (old_size + 1)) (sc_items c ! old_size)\<rparr>))
                        (set_value old_size default_str c)))
      | _ \<Rightarrow> Some (Inl TypeMismatch))"

definition get_view :: "nat \<Rightarrow> scol \<Rightarrow> bytes option" where
  "get_view idx c =
     (if idx < scol_size c
      then let it = sc_items c ! idx
           in if unat (it_offset it) + unat (it_length it) \<le> length (sc_data c)
              then Some (take (unat (it_length it)) (drop (unat (it_offset it)) (sc_data c)))
              else None
      else None)"

section \<open>Dumping and opening\<close>

text \<open>
  \<^verbatim>\<open>dump\<close> copies the strings of the items one after the other into a new file; an item equal
  to the one before it shares its copy. The variable \<^verbatim>\<open>cur_item\<close> has no initializer, its
  first value is the argument \<open>junk\<close>. A file starts with a checksum of 16 bytes, zeros here, and the
  data file is cut or extended to \<open>truncated_size\<close> bytes, checksum included.
\<close>

record dump_state =
  pre_item :: string_item
  cur_item :: string_item
  out_items :: "string_item list"
  out_data :: bytes
  count_no_empty :: nat

definition dump_item :: "bytes \<Rightarrow> string_item \<Rightarrow> dump_state \<Rightarrow> dump_state" where
  "dump_item raw_data it d =
     (if it_offset it = it_offset (pre_item d) \<and> it_length it = it_length (pre_item d)
      then d\<lparr>out_items := out_items d @ [cur_item d]\<rparr>
      else let cur = \<lparr>it_offset = of_nat (length (out_data d)), it_length = it_length it\<rparr>
           in d\<lparr>pre_item := it, cur_item := cur,
                out_data := out_data d @ take (unat (it_length it)) (drop (unat (it_offset it)) raw_data),
                out_items := out_items d @ [cur],
                count_no_empty := (if it_length it > 0 then count_no_empty d + 1 else count_no_empty d)\<rparr>)"

definition dump_items :: "string_item \<Rightarrow> scol \<Rightarrow> dump_state" where
  "dump_items junk c =
     fold (dump_item (sc_data c)) (sc_items c)
       \<lparr>pre_item = null_item, cur_item = junk, out_items = [], out_data = [], count_no_empty = 0\<rparr>"

definition truncated_size :: "string_item \<Rightarrow> scol \<Rightarrow> nat" where
  "truncated_size junk c =
     (let d = dump_items junk c;
          avg_size = (if count_no_empty d > 0 then length (out_data d) div count_no_empty d else sc_width c);
          cnt = max (scol_size c + (scol_size c + 3) div 4) 4096
      in avg_size * cnt)"

record scol_files =
  item_file :: "string_item list"
  data_file :: bytes
  pos_file :: nat

definition header_size :: nat where
  "header_size = 16"

definition scol_dump :: "string_item \<Rightarrow> scol \<Rightarrow> scol_files" where
  "scol_dump junk c =
     (let d = dump_items junk c
      in \<lparr>item_file = out_items d,
          data_file = grow_to 0 (truncated_size junk c) (replicate header_size 0 @ out_data d),
          pos_file = sc_pos c\<rparr>)"

definition scol_open :: "nat \<Rightarrow> scol_files \<Rightarrow> scol" where
  "scol_open w f =
     \<lparr>sc_items = item_file f, sc_data = drop header_size (data_file f), sc_pos = pos_file f, sc_width = w\<rparr>"

section \<open>Truncation\<close>

text \<open>A string whose bytes are grouped by the lengths that the leading bytes announce.\<close>

function utf8_framed :: "bytes \<Rightarrow> bool" where
  "utf8_framed [] = True"
| "utf8_framed (b # bs) =
     (0 < utf8_char_length b \<and> utf8_char_length b \<le> Suc (length bs) \<and>
      utf8_framed (drop (utf8_char_length b - 1) bs))"
  by pat_completeness auto
termination
  by (relation "measure length") auto

lemma utf8_char_length_le: "utf8_char_length b \<le> 4"
  by (simp add: utf8_char_length_def)

lemma utf8_framed_append: "utf8_framed xs \<Longrightarrow> utf8_framed ys \<Longrightarrow> utf8_framed (xs @ ys)"
  by (induction xs rule: utf8_framed.induct) auto

lemma utf8_framed_char:
  assumes "utf8_framed xs" "xs \<noteq> []"
  defines "n \<equiv> utf8_char_length (hd xs)"
  shows "0 < n" "n \<le> length xs" "utf8_framed (drop n xs)" "utf8_framed (take n xs)"
proof -
  obtain b bs where xs: "xs = b # bs" using assms(2) by (cases xs) auto
  have n: "n = utf8_char_length b" by (simp add: n_def xs)
  show "0 < n" "n \<le> length xs" using assms(1) by (simp_all add: n xs)
  then obtain m where m: "n = Suc m" by (cases n) auto
  have "utf8_framed (drop m bs)" using assms(1) n [symmetric] m by (simp add: xs)
  then show "utf8_framed (drop n xs)" by (simp add: m xs)
  have "m \<le> length bs" using \<open>n \<le> length xs\<close> m by (simp add: xs)
  moreover have "take n xs = b # take m bs" by (simp add: m xs)
  ultimately show "utf8_framed (take n xs)" using n [symmetric] m by simp
qed

lemma utf8_loop_returns:
  assumes "b \<le> len" "len < length str" "utf8_framed (drop b str)" "utf8_framed (take b str)"
  shows "\<exists>n. utf8_loop str len b = Some n \<and> b \<le> n \<and> n \<le> len \<and> utf8_framed (take n str) \<and>
    (0 \<notin> set str \<longrightarrow> len < n + 4)"
  using assms
proof (induction "len - b" arbitrary: b rule: less_induct)
  case less
  let ?n = "utf8_char_length (str ! b)"
  have ne: "drop b str \<noteq> []" "hd (drop b str) = str ! b" using less.prems by (simp_all add: hd_drop_conv_nth)
  note c = utf8_framed_char [OF less.prems(3) ne(1), unfolded ne(2)]
  show ?case
  proof (cases "str ! b = 0 \<or> \<not> b < len \<or> b + ?n > len")
    case True
    have "len < b + 4" if "0 \<notin> set str"
    proof -
      have "str ! b \<in> set str" using less.prems by simp
      then have "str ! b \<noteq> 0" using that by auto
      then show ?thesis using True less.prems(1) utf8_char_length_le [of "str ! b"] by linarith
    qed
    moreover have "utf8_loop str len b = Some b" using True by (subst utf8_loop.simps) auto
    ultimately show ?thesis using less.prems by auto
  next
    case False
    have "utf8_framed (take (b + ?n) str)"
      using utf8_framed_append [OF less.prems(4) c(4)] by (simp add: take_add)
    moreover have "utf8_framed (drop (b + ?n) str)" using c(3) by (simp add: add.commute)
    moreover have "len - (b + ?n) < len - b" "b + ?n \<le> len" using False c(1) by linarith+
    ultimately obtain n where "utf8_loop str len (b + ?n) = Some n" "b + ?n \<le> n" "n \<le> len"
      "utf8_framed (take n str)" "0 \<notin> set str \<longrightarrow> len < n + 4"
      using less.hyps [of "b + ?n"] less.prems(2) by blast
    moreover have "utf8_loop str len b = utf8_loop str len (b + ?n)"
      using False by (subst utf8_loop.simps) auto
    ultimately show ?thesis by auto
  qed
qed

lemma utf8_loop_prefix:
  assumes "utf8_framed xs" "str = pre @ xs @ suf" "length pre + length xs \<le> len" "0 \<notin> set xs"
  shows "utf8_loop str len (length pre) = utf8_loop str len (length pre + length xs)"
  using assms
proof (induction "length xs" arbitrary: xs pre rule: less_induct)
  case less
  show ?case
  proof (cases "xs = []")
    case False
    let ?n = "utf8_char_length (hd xs)"
    note c = utf8_framed_char [OF less.prems(1) False]
    have hd: "str ! length pre = hd xs" "hd xs \<in> set xs"
      using False less.prems(2) by (simp_all add: nth_append hd_conv_nth)
    then have "str ! length pre \<noteq> 0" using less.prems(4) by auto
    then have "utf8_loop str len (length pre) = utf8_loop str len (length pre + ?n)"
      using c(1,2) less.prems(3) hd(1) by (subst utf8_loop.simps) auto
    also have "length pre + ?n = length (pre @ take ?n xs)" using c(2) by simp
    also have "utf8_loop str len \<dots> = utf8_loop str len (length (pre @ take ?n xs) + length (drop ?n xs))"
      using c less.prems by (intro less.hyps) (auto dest: in_set_dropD)
    finally show ?thesis using c(2) by simp
  qed simp
qed

text \<open>At a byte that cannot start a character the loop makes no progress.\<close>

definition utf8_stuck :: "bytes \<Rightarrow> nat \<Rightarrow> nat \<Rightarrow> bool" where
  "utf8_stuck str len b \<longleftrightarrow> b < len \<and> str ! b \<noteq> 0 \<and> utf8_char_length (str ! b) = 0"

lemma utf8_loop_stuck: "utf8_stuck str len b \<Longrightarrow> utf8_loop str len b = None"
proof (rule ccontr)
  assume "utf8_stuck str len b" "utf8_loop str len b \<noteq> None"
  then obtain n where n: "utf8_loop str len b = Some n" by auto
  have "\<not> utf8_stuck str len b"
  proof (rule utf8_loop.raw_induct [OF _ n])
    fix f :: "bytes \<Rightarrow> nat \<Rightarrow> nat \<Rightarrow> nat option" and str :: bytes and len b y
    assume IH: "\<And>s l c y. f s l c = Some y \<Longrightarrow> \<not> utf8_stuck s l c"
      and eq: "(if str ! b = 0 \<or> \<not> b < len then Some b
        else if b + utf8_char_length (str ! b) > len then Some b
        else f str len (b + utf8_char_length (str ! b))) = Some y"
    show "\<not> utf8_stuck str len b"
    proof
      assume s: "utf8_stuck str len b"
      then have "f str len b = Some y" using eq by (simp add: utf8_stuck_def split: if_splits)
      from IH [OF this] s show False by simp
    qed
  qed
  then show False using \<open>utf8_stuck str len b\<close> by simp
qed

text \<open>
  C34. On a string whose bytes are grouped by their leading bytes, \<^verbatim>\<open>truncate_utf8\<close> returns a
  prefix of at most the requested number of bytes that ends at a character boundary, and it cuts off
  less than one character more than necessary, unless the string contains a zero byte.
\<close>

theorem truncate_utf8_returns:
  assumes "utf8_framed str"
  shows "\<exists>n. truncate_utf8 str len = Some (take n str) \<and> n \<le> length str \<and> n \<le> len \<and>
    utf8_framed (take n str) \<and> (0 \<notin> set str \<longrightarrow> len < length str \<longrightarrow> len < n + 4)"
proof (cases "length str \<le> len")
  case True
  then show ?thesis using assms by (intro exI [of _ "length str"]) (simp add: truncate_utf8_def)
next
  case False
  then obtain n where "utf8_loop str len 0 = Some n" "n \<le> len" "utf8_framed (take n str)"
    "0 \<notin> set str \<longrightarrow> len < n + 4"
    using utf8_loop_returns [of 0 len str] assms by auto
  then show ?thesis using False by (intro exI [of _ n]) (auto simp: truncate_utf8_def)
qed

text \<open>The letters \<open>a\<close> and \<open>e\<close> with an accent (two bytes) and \<open>b\<close>.\<close>

theorem truncate_utf8_returns_witness:
  "utf8_framed [0x61, 0xC3, 0xA9, 0x62] \<and>
   (\<exists>n. n \<le> 2 \<and> truncate_utf8 [0x61, 0xC3, 0xA9, 0x62] 2 = Some (take n [0x61, 0xC3, 0xA9, 0x62]))"
proof -
  have f: "utf8_framed [0x61, 0xC3, 0xA9, 0x62]" by (simp add: utf8_char_length_def)
  then show ?thesis using truncate_utf8_returns [OF f, of 2] by auto
qed

text \<open>
  \<^verbatim>\<open>truncate_utf8\<close> does not return on a string that is too long and in which a byte that
  cannot start a character (such as a letter with an accent in Latin-1) follows a well-formed prefix:
  the loop adds zero to its position forever.
\<close>

theorem truncate_utf8_diverges:
  assumes "utf8_framed xs" and "0 \<notin> set xs" and "length xs < len" and "len < length (xs @ b # ys)"
    and "b \<noteq> 0" and "utf8_char_length b = 0"
  shows "truncate_utf8 (xs @ b # ys) len = None"
proof -
  have "utf8_loop (xs @ b # ys) len 0 = utf8_loop (xs @ b # ys) len (length xs)"
    using utf8_loop_prefix [OF assms(1), of "xs @ b # ys" "[]" "b # ys" len] assms(2,3) by simp
  also have "\<dots> = None" using assms(3,5,6) by (intro utf8_loop_stuck) (simp add: utf8_stuck_def)
  finally show ?thesis using assms(4) by (simp add: truncate_utf8_def)
qed

theorem truncate_utf8_diverges_witness:
  "utf8_char_length 0xE9 = 3 \<and> utf8_char_length 0xA9 = 0 \<and> truncate_utf8 [0x61, 0xA9, 0x62] 2 = None"
proof -
  have "utf8_framed [0x61]" "utf8_char_length 0xA9 = 0" by (simp_all add: utf8_char_length_def)
  from truncate_utf8_diverges [OF this(1) _ _ _ _ this(2), of 2 "[0x62]"] show ?thesis
    by (simp add: utf8_char_length_def)
qed

section \<open>Writing and reading\<close>

text \<open>The string of an item, and the invariant: items point into the used part of the buffer.\<close>

definition item_string :: "bytes \<Rightarrow> string_item \<Rightarrow> bytes" where
  "item_string bs it = take (unat (it_length it)) (drop (unat (it_offset it)) bs)"

definition item_in :: "nat \<Rightarrow> string_item \<Rightarrow> bool" where
  "item_in n it \<longleftrightarrow> unat (it_offset it) + unat (it_length it) \<le> n"

definition scol_ok :: "scol \<Rightarrow> bool" where
  "scol_ok c \<longleftrightarrow> sc_pos c \<le> length (sc_data c) \<and> sc_pos c < 2 ^ 48 \<and> sc_width c < 2 ^ 16 \<and>
     (\<forall>it\<in>set (sc_items c). item_in (sc_pos c) it)"

lemma get_view_item:
  "idx < scol_size c \<Longrightarrow> item_in (length (sc_data c)) (sc_items c ! idx) \<Longrightarrow>
   get_view idx c = Some (item_string (sc_data c) (sc_items c ! idx))"
  by (simp add: get_view_def item_string_def item_in_def Let_def)

lemma item_in_mono: "item_in m it \<Longrightarrow> m \<le> n \<Longrightarrow> item_in n it"
  by (simp add: item_in_def)

lemma scol_ok_item: "scol_ok c \<Longrightarrow> i < scol_size c \<Longrightarrow> item_in (sc_pos c) (sc_items c ! i)"
  by (simp add: scol_ok_def scol_size_def)

lemma item_string_prefix:
  "item_in n it \<Longrightarrow> take n bs = take n bs' \<Longrightarrow> item_string bs it = item_string bs' it"
proof -
  assume i: "item_in n it" and eq: "take n bs = take n bs'"
  have "item_string xs it = item_string (take n xs) it" for xs
    using i by (simp add: item_string_def item_in_def drop_take)
  then show ?thesis using eq by metis
qed

lemma length_grow_to [simp]: "length (grow_to z n xs) = n"
  by (simp add: grow_to_def)

lemma take_grow_to: "m \<le> n \<Longrightarrow> m \<le> length xs \<Longrightarrow> take m (grow_to z n xs) = take m xs"
  by (simp add: grow_to_def min_absorb1)

lemma nth_grow_to: "i < n \<Longrightarrow> grow_to z n xs ! i = (if i < length xs then xs ! i else z)"
  by (simp add: grow_to_def nth_append)

lemma null_item_in [simp]: "item_in n null_item"
  by (simp add: item_in_def null_item_def)

lemma item_string_null [simp]: "item_string bs null_item = []"
  by (simp add: item_string_def null_item_def)

text \<open>The value that is stored: the string itself, or what truncation leaves of it.\<close>

definition stored :: "bytes \<Rightarrow> scol \<Rightarrow> bytes option" where
  "stored val c = (if length val \<ge> sc_width c then truncate_utf8 val (sc_width c) else Some val)"

lemma truncate_utf8_length: "truncate_utf8 str len = Some s \<Longrightarrow> length s \<le> len"
proof -
  have "n \<le> len" if "utf8_loop str len b = Some n" "b \<le> len" for n b
  proof -
    have "b \<le> len \<longrightarrow> n \<le> len"
      by (rule utf8_loop.raw_induct [OF _ that(1)]) (auto split: if_splits)
    then show ?thesis using that(2) by simp
  qed
  then show "truncate_utf8 str len = Some s \<Longrightarrow> length s \<le> len"
    by (fastforce simp: truncate_utf8_def split: if_splits)
qed

lemma stored_length: "stored val c = Some v \<Longrightarrow> length v \<le> sc_width c"
  by (auto simp: stored_def dest: truncate_utf8_length split: if_splits)

lemma set_value_spec:
  assumes ok: "scol_ok c" and v: "stored val c = Some v" and idx: "idx < scol_size c"
    and room: "sc_pos c + length v \<le> length (sc_data c)" "sc_pos c + length v < 2 ^ 48"
  shows "\<exists>c'. set_value idx val c = Some (Inr c') \<and> scol_ok c' \<and> scol_size c' = scol_size c \<and>
    sc_width c' = sc_width c \<and> (\<forall>i. get_view i c' = (if i = idx then Some v else get_view i c))"
proof -
  let ?it = "\<lparr>it_offset = of_nat (sc_pos c), it_length = of_nat (length v)\<rparr> :: string_item"
  let ?data = "take (sc_pos c) (sc_data c) @ v @ drop (sc_pos c + length v) (sc_data c)"
  define c' where "c' = c\<lparr>sc_pos := sc_pos c + length v, sc_items := (sc_items c)[idx := ?it], sc_data := ?data\<rparr>"
  have len: "length ?data = length (sc_data c)" using room by simp
  have w: "length v < 2 ^ 16" using stored_length [OF v] ok by (simp add: scol_ok_def)
  have o: "unat (it_offset ?it) = sc_pos c" using ok by (simp add: scol_ok_def unat_of_nat_less)
  have l: "unat (it_length ?it) = length v" using w by (simp add: unat_of_nat_less)
  have in_new: "item_in (sc_pos c + length v) ?it" using o l by (simp add: item_in_def)
  have "set_value idx val c = Some (Inr c')"
    using v idx room by (simp add: set_value_def stored_def c'_def)
  moreover have "scol_ok c'"
    using ok room len in_new
    by (auto simp: scol_ok_def c'_def dest!: subsetD [OF set_update_subset_insert] intro: item_in_mono)
  moreover have "scol_size c' = scol_size c" "sc_width c' = sc_width c"
    by (simp_all add: c'_def scol_size_def)
  moreover have "get_view idx c' = Some v"
  proof -
    have it: "sc_items c' ! idx = ?it" "sc_data c' = ?data" using idx by (simp_all add: c'_def scol_size_def)
    have "item_in (length (sc_data c')) (sc_items c' ! idx)"
      unfolding it len using item_in_mono [OF in_new room(1)] .
    from get_view_item [OF _ this] have "get_view idx c' = Some (item_string ?data ?it)"
      using idx calculation(3) it by simp
    also have "item_string ?data ?it = v" unfolding item_string_def o l using ok by (simp add: scol_ok_def)
    finally show ?thesis .
  qed
  moreover have "get_view i c' = get_view i c" if "i \<noteq> idx" for i
  proof (cases "i < scol_size c")
    case True
    note p = scol_ok_item [OF ok True]
    have n: "sc_pos c \<le> length (sc_data c)" using ok by (simp add: scol_ok_def)
    have it: "sc_items c' ! i = sc_items c ! i" "sc_data c' = ?data" using that by (simp_all add: c'_def)
    have "get_view i c' = Some (item_string ?data (sc_items c ! i))"
      using get_view_item [of i c'] True calculation(3) it len item_in_mono [OF p n] by simp
    also have "\<dots> = Some (item_string (sc_data c) (sc_items c ! i))"
      using item_string_prefix [OF p, of ?data "sc_data c"] n by simp
    finally show ?thesis using get_view_item [OF True item_in_mono [OF p n]] by simp
  next
    case False
    then show ?thesis using calculation(3) by (simp add: get_view_def)
  qed
  ultimately show ?thesis by (intro exI [of _ c']) simp
qed

lemma scol_ok_view: "scol_ok c \<Longrightarrow> i < scol_size c \<Longrightarrow> get_view i c = Some (item_string (sc_data c) (sc_items c ! i))"
  using get_view_item [of i c] item_in_mono [OF scol_ok_item, of c i "length (sc_data c)"]
  by (simp add: scol_ok_def)

lemma grow_data:
  assumes ok: "scol_ok c" and n: "sc_pos c \<le> n"
  defines "c' \<equiv> c\<lparr>sc_data := grow_to 0 n (sc_data c)\<rparr>"
  shows "scol_ok c'" "get_view i c' = get_view i c"
proof -
  show ok': "scol_ok c'" using ok n by (simp add: scol_ok_def c'_def)
  have t: "take (sc_pos c) (sc_data c') = take (sc_pos c) (sc_data c)"
    using ok n by (simp add: c'_def take_grow_to scol_ok_def)
  have i: "sc_items c' = sc_items c" "scol_size c' = scol_size c" by (simp_all add: c'_def scol_size_def)
  have "get_view i c' = get_view i c" if "i < scol_size c"
    unfolding scol_ok_view [OF ok that] scol_ok_view [OF ok' that [folded i(2)]] i
      item_string_prefix [OF scol_ok_item [OF ok that] t] ..
  then show "get_view i c' = get_view i c" by (cases "i < scol_size c") (simp_all add: get_view_def c'_def scol_size_def)
qed

lemma stored_shorter: "stored val c = Some v \<Longrightarrow> length v \<le> length val"
  by (auto simp: stored_def truncate_utf8_def split: if_splits)

lemma set_any_spec:
  assumes "scol_ok c" and "stored val c = Some v" and "idx < scol_size c"
    and "sc_pos c + length val < 2 ^ 48"
  shows "\<exists>c'. set_any idx val c = Some (Inr c') \<and> scol_ok c' \<and> scol_size c' = scol_size c \<and>
    (\<forall>i. get_view i c' = (if i = idx then Some v else get_view i c))"
proof -
  define n where "n = max (scol_size c * ((sc_pos c + idx) div (idx + 1))) (sc_pos c + length val)"
  define c1 where "c1 = (if sc_pos c + length val > length (sc_data c)
      then c\<lparr>sc_data := grow_to 0 n (sc_data c)\<rparr> else c)"
  have any: "set_any idx val c = set_value idx val c1"
    using assms(3) by (simp add: set_any_def c1_def n_def Let_def)
  have n: "sc_pos c \<le> n" by (simp add: n_def)
  have c1: "scol_ok c1" "get_view i c1 = get_view i c" "scol_size c1 = scol_size c" "sc_pos c1 = sc_pos c"
    for i using grow_data [OF assms(1) n] assms(1) by (simp_all add: c1_def scol_size_def)
  have st: "stored val c1 = Some v" using assms(2) by (simp add: c1_def stored_def split: if_splits)
  have "sc_pos c + length v \<le> length (sc_data c1)" "sc_pos c + length v < 2 ^ 48"
    using stored_shorter [OF assms(2)] assms(4) by (auto simp: c1_def n_def)
  note room = this [folded c1(4)]
  have idx: "idx < scol_size c1" using assms(3) c1(3) by simp
  from set_value_spec [OF c1(1) st idx room] show ?thesis unfolding any c1(2,3) by blast
qed

text \<open>
  C29. Writing a string with \<^verbatim>\<open>set_any\<close> never runs out of space: the row then reads as the
  string, cut to the width of the column, all other rows read as before, and the column stays
  well-formed, provided the truncation returns and the buffer stays below \<open>2 ^ 48\<close> bytes.
\<close>

theorem set_any_get_view:
  assumes "scol_ok c" and "stored val c = Some v" and "idx < scol_size c"
    and "sc_pos c + length val < 2 ^ 48"
  shows "\<exists>c'. set_any idx val c = Some (Inr c') \<and> scol_ok c' \<and> scol_size c' = scol_size c \<and>
    (\<forall>i. get_view i c' = (if i = idx then Some v else get_view i c))"
  using assms by (rule set_any_spec)

definition scol_example :: scol where
  "scol_example = \<lparr>sc_items = [null_item, null_item], sc_data = [0, 0, 0, 0], sc_pos = 0, sc_width = 3\<rparr>"

theorem set_any_get_view_witness:
  "\<exists>c'. set_any 1 [0x61, 0x62, 0x63, 0x64] scol_example = Some (Inr c') \<and>
     get_view 1 c' = Some [0x61, 0x62, 0x63] \<and> get_view 0 c' = Some []"
proof -
  have ok: "scol_ok scol_example" by (simp add: scol_ok_def scol_example_def)
  have "utf8_loop [0x61, 0x62, 0x63, 0x64] 3 0 = Some 3"
    by (subst utf8_loop.simps, simp add: utf8_char_length_def)+
  then have st: "stored [0x61, 0x62, 0x63, 0x64] scol_example = Some [0x61, 0x62, 0x63]"
    by (simp add: stored_def scol_example_def truncate_utf8_def)
  have "get_view 0 scol_example = Some []" by (simp add: get_view_def scol_example_def scol_size_def null_item_def)
  then show ?thesis
    using set_any_get_view [OF ok st, of 1] by (auto simp: scol_example_def scol_size_def)
qed

lemma scol_grow_spec:
  fixes c :: scol and n :: nat
  assumes ok: "scol_ok c" and m: "sc_pos c \<le> m"
  defines "c' \<equiv> c\<lparr>sc_items := grow_to null_item n (sc_items c), sc_data := grow_to 0 m (sc_data c)\<rparr>"
  shows "scol_ok c'" "scol_size c' = n"
    and "i < n \<Longrightarrow> get_view i c' = (if i < scol_size c then get_view i c else Some [])"
proof -
  have sub: "set (grow_to null_item n (sc_items c)) \<subseteq> insert null_item (set (sc_items c))"
    by (auto simp: grow_to_def dest: in_set_takeD)
  show ok': "scol_ok c'" using ok m sub by (auto simp: scol_ok_def c'_def)
  show size: "scol_size c' = n" by (simp add: c'_def scol_size_def)
  assume i: "i < n"
  have v: "get_view i c' = Some (item_string (grow_to 0 m (sc_data c)) (grow_to null_item n (sc_items c) ! i))"
    using scol_ok_view [OF ok', of i] size i by (simp add: c'_def)
  have t: "take (sc_pos c) (grow_to 0 m (sc_data c)) = take (sc_pos c) (sc_data c)"
    using ok m by (simp add: take_grow_to scol_ok_def)
  show "get_view i c' = (if i < scol_size c then get_view i c else Some [])"
  proof (cases "i < scol_size c")
    case True
    have "grow_to null_item n (sc_items c) ! i = sc_items c ! i"
      using True i by (simp add: nth_grow_to scol_size_def)
    then show ?thesis unfolding v using scol_ok_view [OF ok True] item_string_prefix [OF scol_ok_item [OF ok True] t] True
      by (simp only: if_True)
  next
    case False
    then show ?thesis unfolding v using i by (simp add: nth_grow_to scol_size_def)
  qed
qed

lemma scol_resize_spec:
  assumes ok: "scol_ok c"
  shows "scol_ok (scol_resize n c)" "scol_size (scol_resize n c) = n"
    and "i < n \<Longrightarrow> get_view i (scol_resize n c) = (if i < scol_size c then get_view i c else Some [])"
proof -
  obtain m where m: "scol_resize n c = c\<lparr>sc_items := grow_to null_item n (sc_items c), sc_data := grow_to 0 m (sc_data c)\<rparr>"
    "sc_pos c \<le> m" by (auto simp: scol_resize_def Let_def split: if_splits)
  note g = scol_grow_spec [OF ok m(2), where n = n, folded m(1)]
  show "scol_ok (scol_resize n c)" "scol_size (scol_resize n c) = n" using g(1,2) by blast+
  show "i < n \<Longrightarrow> get_view i (scol_resize n c) = (if i < scol_size c then get_view i c else Some [])" by (rule g(3))
qed

lemma stored_truncate: "stored val c = truncate_utf8 val (sc_width c)"
  by (simp add: stored_def truncate_utf8_def)

text \<open>Resizing with a default value fills the new rows with the value as the column stores it.\<close>

lemma scol_resize_default_spec:
  assumes ok: "scol_ok c" and d: "stored def c = Some d" and n: "scol_size c \<le> n"
    and room: "sc_pos c + length d < 2 ^ 48"
  shows "\<exists>c'. scol_resize_default n (PVarchar def) c = Some (Inr c') \<and> scol_ok c' \<and> scol_size c' = n \<and>
    sc_width c' = sc_width c \<and> (\<forall>i<n. get_view i c' = (if i < scol_size c then get_view i c else Some d))"
proof -
  let ?k = "scol_size c"
  define c0 where "c0 = c\<lparr>sc_items := grow_to null_item n (sc_items c)\<rparr>"
  define m where "m = max (sc_pos c + (n - ?k) * sc_width c) (n * string_avg_size c0)"
  define c1 where "c1 = c\<lparr>sc_items := grow_to null_item n (sc_items c), sc_data := grow_to 0 m (sc_data c)\<rparr>"
  have t: "truncate_utf8 def (sc_width c) = Some d" using d by (simp add: stored_truncate)
  have m: "sc_pos c \<le> m" by (simp add: m_def)
  note g = scol_grow_spec [OF ok m, where n = n, folded c1_def]
  have c1: "sc_pos c1 = sc_pos c" "sc_width c1 = sc_width c" "length (sc_data c1) = m" by (simp_all add: c1_def)
  have def_eq: "scol_resize_default n (PVarchar def) c =
      (if d = [] \<or> \<not> ?k < n then Some (Inr c1)
       else map_option (map_sum id (\<lambda>c. c\<lparr>sc_items := take (?k + 1) (sc_items c) @
              replicate (n - (?k + 1)) (sc_items c ! ?k)\<rparr>)) (set_value ?k d c1))"
    by (simp add: scol_resize_default_def t Let_def c1_def m_def c0_def)
  show ?thesis
  proof (cases "d = [] \<or> \<not> ?k < n")
    case True
    then have "get_view i c1 = (if i < ?k then get_view i c else Some d)" if "i < n" for i
      using that g(3) [OF that] by auto
    then show ?thesis using True g(1,2) c1(2) by (auto simp: def_eq)
  next
    case False
    then have k: "?k < scol_size c1" "?k < n" using g(2) by simp_all
    have len: "length d \<le> sc_width c" using truncate_utf8_length [OF t] .
    have st: "stored d c1 = Some d" using len by (simp add: stored_truncate truncate_utf8_def c1(2))
    have "1 \<le> n - ?k" using k(2) by simp
    then have "sc_width c \<le> (n - ?k) * sc_width c" by (metis mult_le_mono1 nat_mult_1)
    then have r: "sc_pos c1 + length d \<le> length (sc_data c1)" "sc_pos c1 + length d < 2 ^ 48"
      using len room unfolding c1 m_def by linarith+
    obtain c2 where c2: "set_value ?k d c1 = Some (Inr c2)" "scol_ok c2" "scol_size c2 = n" "sc_width c2 = sc_width c"
      "\<forall>i. get_view i c2 = (if i = ?k then Some d else get_view i c1)"
      using set_value_spec [OF g(1) st k(1) r] g(2) c1(2) by auto
    define c3 where "c3 = c2\<lparr>sc_items := take (?k + 1) (sc_items c2) @ replicate (n - (?k + 1)) (sc_items c2 ! ?k)\<rparr>"
    have n2: "length (sc_items c2) = n" using c2(3) by (simp add: scol_size_def)
    have sub: "set (sc_items c3) \<subseteq> set (sc_items c2)"
      using k(2) n2 by (auto simp: c3_def dest: in_set_takeD)
    have ok3: "scol_ok c3" using c2(2) sub by (auto simp: scol_ok_def c3_def)
    have size3: "scol_size c3 = n" using k(2) n2 by (simp add: c3_def scol_size_def)
    have view3: "get_view i c3 = get_view (if i \<le> ?k then i else ?k) c2" if "i < n" for i
    proof -
      have "sc_items c3 ! i = sc_items c2 ! (if i \<le> ?k then i else ?k)"
        using that k(2) n2 by (auto simp: c3_def nth_append)
      moreover have "sc_data c3 = sc_data c2" by (simp add: c3_def)
      moreover have "(if i \<le> ?k then i else ?k) < scol_size c2" using that k(2) c2(3) by simp
      ultimately show ?thesis using scol_ok_view [OF ok3, of i] scol_ok_view [OF c2(2)] that size3 by simp
    qed
    have "get_view i c3 = (if i < ?k then get_view i c else Some d)" if "i < n" for i
      using view3 [OF that] c2(5) [rule_format, of "if i \<le> ?k then i else ?k"] g(3) [OF that] by auto
    moreover have "scol_resize_default n (PVarchar def) c = Some (Inr c3)"
      using False c2(1) by (simp add: def_eq c3_def)
    moreover have "sc_width c3 = sc_width c" using c2(4) by (simp add: c3_def)
    ultimately show ?thesis using ok3 size3 by blast
  qed
qed

section \<open>Dumping and opening again\<close>

text \<open>The copies that a dump has made so far stand for the items copied so far.\<close>

definition dumped :: "bytes \<Rightarrow> string_item list \<Rightarrow> dump_state \<Rightarrow> bool" where
  "dumped raw its d \<longleftrightarrow> length (out_items d) = length its \<and>
     (\<forall>i<length its. item_in (length (out_data d)) (out_items d ! i) \<and>
        item_string (out_data d) (out_items d ! i) = item_string raw (its ! i)) \<and>
     (its \<noteq> [] \<longrightarrow> pre_item d = last its \<and> cur_item d = last (out_items d))"

lemma item_eq_iff: "it_offset a = it_offset b \<and> it_length a = it_length b \<longleftrightarrow> a = (b :: string_item)"
  by (cases a, cases b) auto

lemma dump_item_same:
  "it = pre_item d \<Longrightarrow> dump_item raw it d = d\<lparr>out_items := out_items d @ [cur_item d]\<rparr>"
  by (simp add: dump_item_def)

lemma dump_item_copy:
  "it \<noteq> pre_item d \<Longrightarrow> dump_item raw it d =
     (let cur = \<lparr>it_offset = of_nat (length (out_data d)), it_length = it_length it\<rparr>
      in d\<lparr>pre_item := it, cur_item := cur, out_data := out_data d @ item_string raw it,
           out_items := out_items d @ [cur],
           count_no_empty := (if it_length it > 0 then count_no_empty d + 1 else count_no_empty d)\<rparr>)"
  by (simp add: dump_item_def item_eq_iff item_string_def)

lemma length_item_string: "item_in (length bs) it \<Longrightarrow> length (item_string bs it) = unat (it_length it)"
  by (simp add: item_string_def item_in_def)

lemma item_string_at:
  fixes it :: string_item
  assumes "length xs < 2 ^ 48" "length s = unat (it_length it)"
  shows "item_string (xs @ s) \<lparr>it_offset = of_nat (length xs), it_length = it_length it\<rparr> = s"
    and "item_in (length (xs @ s)) \<lparr>it_offset = of_nat (length xs), it_length = it_length it\<rparr>"
  using assms by (simp_all add: item_string_def item_in_def unat_of_nat_less)

lemma dumped_step:
  assumes d: "dumped raw its d" and it: "item_in (length raw) it"
    and first: "its = [] \<longrightarrow> it \<noteq> pre_item d" and small: "length (out_data d) < 2 ^ 48"
  shows "dumped raw (its @ [it]) (dump_item raw it d)"
proof (cases "it = pre_item d")
  case True
  then have ne: "its \<noteq> []" using first by auto
  then have o: "out_items d \<noteq> []" using d by (auto simp: dumped_def)
  have l: "length its - 1 < length its" "last its = its ! (length its - 1)"
    "last (out_items d) = out_items d ! (length its - 1)"
    using ne o d by (simp_all add: last_conv_nth dumped_def)
  have "item_in (length (out_data d)) (cur_item d)" "item_string (out_data d) (cur_item d) = item_string raw it"
    using d ne l True unfolding dumped_def by metis+
  then show ?thesis using d True ne
    by (auto simp: dumped_def dump_item_same nth_append less_Suc_eq)
next
  case False
  let ?cur = "\<lparr>it_offset = of_nat (length (out_data d)), it_length = it_length it\<rparr> :: string_item"
  let ?data = "out_data d @ item_string raw it"
  note at = item_string_at [OF small length_item_string [OF it]]
  have "item_in (length ?data) (out_items d ! i)" "item_string ?data (out_items d ! i) = item_string raw (its ! i)"
    if "i < length its" for i
  proof -
    have i: "item_in (length (out_data d)) (out_items d ! i)"
      "item_string (out_data d) (out_items d ! i) = item_string raw (its ! i)"
      using d that by (simp_all add: dumped_def)
    show "item_in (length ?data) (out_items d ! i)" using item_in_mono [OF i(1)] by simp
    show "item_string ?data (out_items d ! i) = item_string raw (its ! i)"
      using item_string_prefix [OF i(1), of ?data "out_data d"] i(2) by simp
  qed
  then show ?thesis using d at unfolding dump_item_copy [OF False] Let_def
    by (auto simp: dumped_def nth_append less_Suc_eq)
qed

lemma dump_item_grows: "length (out_data d) \<le> length (out_data (dump_item raw it d))"
  by (cases "it = pre_item d") (simp_all add: dump_item_same dump_item_copy Let_def)

definition dump_start :: "string_item \<Rightarrow> dump_state" where
  "dump_start junk = \<lparr>pre_item = null_item, cur_item = junk, out_items = [], out_data = [], count_no_empty = 0\<rparr>"

lemma dumped_fold:
  assumes "\<forall>it\<in>set its. item_in (length raw) it" "its = [] \<or> hd its \<noteq> null_item"
    and "length (out_data (fold (dump_item raw) its (dump_start junk))) < 2 ^ 48"
  shows "dumped raw its (fold (dump_item raw) its (dump_start junk))"
  using assms
proof (induction its rule: rev_induct)
  case Nil
  then show ?case by (simp add: dumped_def dump_start_def)
next
  case (snoc it its)
  let ?d = "fold (dump_item raw) its (dump_start junk)"
  have small: "length (out_data ?d) < 2 ^ 48"
    using snoc.prems(3) dump_item_grows [of ?d raw it] by simp
  have "its = [] \<or> hd its \<noteq> null_item" using snoc.prems(2) by (cases its) auto
  then have "dumped raw its ?d" using snoc.IH snoc.prems(1) small by simp
  moreover have "its = [] \<longrightarrow> it \<noteq> pre_item ?d" using snoc.prems(2) by (auto simp: dump_start_def)
  ultimately show ?case using dumped_step [of raw its ?d it] snoc.prems(1) small by simp
qed

lemma scol_ok_items: "scol_ok c \<Longrightarrow> it \<in> set (sc_items c) \<Longrightarrow> item_in (length (sc_data c)) it"
  using item_in_mono by (auto simp: scol_ok_def)

lemma dumped_items:
  assumes "scol_ok c" "sc_items c = [] \<or> hd (sc_items c) \<noteq> null_item" "length (out_data (dump_items junk c)) < 2 ^ 48"
  shows "dumped (sc_data c) (sc_items c) (dump_items junk c)"
  using dumped_fold [of "sc_items c" "sc_data c" junk] assms scol_ok_items [OF assms(1)]
  by (simp add: dump_items_def dump_start_def)

text \<open>
  C17. A column that is dumped and opened again reads the same in every row, under three conditions:
  the first row is not an unset one, the copy stays below \<open>2 ^ 48\<close> bytes, and the size to which the
  data file is cut leaves room for the checksum and the strings. The code checks none of them.
\<close>

theorem scol_dump_open:
  assumes "scol_ok c" and "hd (sc_items c) \<noteq> null_item" and "i < scol_size c"
    and "length (out_data (dump_items junk c)) < 2 ^ 48"
    and "header_size + length (out_data (dump_items junk c)) \<le> truncated_size junk c"
  shows "get_view i (scol_open w (scol_dump junk c)) = get_view i c"
proof -
  define d where "d = dump_items junk c"
  define c' where "c' = scol_open w (scol_dump junk c)"
  have du: "dumped (sc_data c) (sc_items c) d" using dumped_items [OF assms(1)] assms(2,4) by (simp add: d_def)
  have items: "sc_items c' = out_items d" by (simp add: c'_def scol_open_def scol_dump_def Let_def d_def)
  have data: "sc_data c' = out_data d @ replicate (truncated_size junk c - (header_size + length (out_data d))) 0"
    using assms(5) by (simp add: c'_def scol_open_def scol_dump_def Let_def d_def [symmetric] grow_to_def header_size_def)
  have i: "item_in (length (out_data d)) (out_items d ! i)"
    "item_string (out_data d) (out_items d ! i) = item_string (sc_data c) (sc_items c ! i)" "i < scol_size c'"
    using du assms(3) by (simp_all add: dumped_def scol_size_def items)
  have "get_view i c' = Some (item_string (sc_data c') (out_items d ! i))"
    using get_view_item [OF i(3)] item_in_mono [OF i(1)] by (simp add: items data)
  also have "item_string (sc_data c') (out_items d ! i) = item_string (out_data d) (out_items d ! i)"
    using item_string_prefix [OF i(1), of "sc_data c'" "out_data d"] by (simp add: data)
  finally show ?thesis using i(2) scol_ok_view [OF assms(1,3)] by (simp add: c'_def)
qed

lemma dump_distinct:
  assumes "distinct (pre_item d # its)" "\<forall>it\<in>set its. item_in (length raw) it"
  shows "length (out_data (fold (dump_item raw) its d)) = length (out_data d) + sum_list (map (\<lambda>it. unat (it_length it)) its)"
    and "count_no_empty (fold (dump_item raw) its d) = count_no_empty d + length (filter (\<lambda>it. it_length it > 0) its)"
  using assms
proof (induction its arbitrary: d)
  case (Cons it its)
  {
    case 1
    then have ne: "it \<noteq> pre_item d" by auto
    show ?case using Cons.IH(1) [of "dump_item raw it d"] 1 length_item_string [of raw it]
      by (simp add: dump_item_copy [OF ne] Let_def)
  next
    case 2
    then have ne: "it \<noteq> pre_item d" by auto
    show ?case using Cons.IH(2) [of "dump_item raw it d"] 2
      by (simp add: dump_item_copy [OF ne] Let_def)
  }
qed simp_all

definition scol_small :: scol where
  "scol_small = \<lparr>sc_items = [\<lparr>it_offset = 1, it_length = 2\<rparr>, \<lparr>it_offset = 1, it_length = 2\<rparr>],
     sc_data = [0x78, 0x61, 0x62, 0], sc_pos = 3, sc_width = 8\<rparr>"

lemma scol_small_dump:
  "dump_items junk scol_small =
     \<lparr>pre_item = \<lparr>it_offset = 1, it_length = 2\<rparr>, cur_item = \<lparr>it_offset = 0, it_length = 2\<rparr>,
      out_items = [\<lparr>it_offset = 0, it_length = 2\<rparr>, \<lparr>it_offset = 0, it_length = 2\<rparr>],
      out_data = [0x61, 0x62], count_no_empty = 1\<rparr>"
  by (simp add: dump_items_def scol_small_def dump_item_def null_item_def Let_def)

theorem scol_dump_open_witness:
  "get_view 1 (scol_open 8 (scol_dump null_item scol_small)) = Some [0x61, 0x62]"
proof -
  have ok: "scol_ok scol_small" by (simp add: scol_ok_def scol_small_def item_in_def)
  have "get_view 1 scol_small = Some [0x61, 0x62]" by (simp add: get_view_def scol_small_def scol_size_def)
  moreover have "hd (sc_items scol_small) \<noteq> null_item" by (simp add: scol_small_def null_item_def)
  moreover have sz: "scol_size scol_small = 2" by (simp add: scol_size_def scol_small_def)
  moreover have "truncated_size null_item scol_small = 8192"
    by (simp add: truncated_size_def scol_small_dump sz Let_def)
  ultimately show ?thesis using scol_dump_open [OF ok, of 1 null_item 8]
    by (simp add: scol_small_dump header_size_def)
qed

text \<open>A first row that was never set is written as whatever \<^verbatim>\<open>cur_item\<close> happens to hold.\<close>

lemma scol_dump_first_unset:
  assumes "sc_items c = null_item # its"
  shows "item_file (scol_dump junk c) ! 0 = junk"
proof -
  have "\<exists>ys. out_items (fold (dump_item raw) its d) = out_items d @ ys" for raw d
  proof (induction its arbitrary: d)
    case (Cons it its)
    have "\<exists>y. out_items (dump_item raw it d) = out_items d @ [y]"
      by (cases "it = pre_item d") (simp_all add: dump_item_same dump_item_copy Let_def)
    then show ?case using Cons.IH [of "dump_item raw it d"] by force
  qed simp
  moreover have "out_items (dump_item (sc_data c) null_item (dump_start junk)) = [junk]"
    by (simp add: dump_item_def dump_start_def)
  ultimately obtain ys where "out_items (dump_items junk c) = junk # ys"
    unfolding dump_items_def assms fold_simps dump_start_def [symmetric] by (metis append_Cons append_Nil)
  then show ?thesis by (simp add: scol_dump_def Let_def)
qed

text \<open>
  The size of the data file is computed from the average length rounded down. When it is too small
  for the strings, the last row of the column cannot be read after the column was dumped and opened.
\<close>

theorem scol_dump_loses:
  assumes "scol_ok c" and "sc_items c = its @ [it]" and "distinct (null_item # sc_items c)"
    and "length (out_data (dump_items junk c)) < 2 ^ 48"
    and "truncated_size junk c < header_size + length (out_data (dump_items junk c))"
    and "it_length it > 0"
  shows "get_view (length its) c \<noteq> None \<and> get_view (length its) (scol_open w (scol_dump junk c)) = None"
proof
  show "get_view (length its) c \<noteq> None"
    using scol_ok_view [OF assms(1), of "length its"] assms(2) by (simp add: scol_size_def)
  let ?d = "fold (dump_item (sc_data c)) its (dump_start junk)"
  have d: "dump_items junk c = dump_item (sc_data c) it ?d"
    by (simp add: dump_items_def assms(2) dump_start_def)
  have small: "length (out_data ?d) < 2 ^ 48"
    using assms(4) dump_item_grows [of ?d "sc_data c" it] by (simp add: d)
  have "its = [] \<or> hd its \<noteq> null_item" using assms(2,3) by (cases its) auto
  then have du: "dumped (sc_data c) its ?d"
    using dumped_fold [of its "sc_data c" junk] scol_ok_items [OF assms(1)] small assms(2) by simp
  have "it \<noteq> pre_item ?d"
  proof (cases "its = []")
    case True
    then show ?thesis using assms(2,3) by (auto simp: dump_start_def)
  next
    case False
    then have "pre_item ?d = last its" using du by (simp add: dumped_def)
    then show ?thesis using False assms(2,3) last_in_set [of its] by auto
  qed
  note copy = dump_item_copy [OF this, of "sc_data c"]
  have len: "length (item_string (sc_data c) it) = unat (it_length it)"
    using length_item_string scol_ok_items [OF assms(1), of it] assms(2) by simp
  have "out_items (dump_items junk c) ! length its = \<lparr>it_offset = of_nat (length (out_data ?d)), it_length = it_length it\<rparr>"
    using du by (simp add: d copy Let_def dumped_def nth_append)
  moreover have "length (out_data (dump_items junk c)) = length (out_data ?d) + unat (it_length it)"
    by (simp add: d copy Let_def len)
  moreover have "0 < unat (it_length it)" using assms(6) by (simp add: word_less_nat_alt)
  ultimately show "get_view (length its) (scol_open w (scol_dump junk c)) = None"
    using assms(5) small
    by (auto simp: get_view_def scol_open_def scol_dump_def Let_def unat_of_nat_less header_size_def)
qed

text \<open>5000 rows: strings of two bytes and one of a single byte. The average is rounded down to one.\<close>

definition dense_items :: "nat \<Rightarrow> string_item list" where
  "dense_items n = map (\<lambda>i. \<lparr>it_offset = of_nat (2 * i), it_length = 2\<rparr>) [0..<n]"

definition dense_column :: "nat \<Rightarrow> scol" where
  "dense_column n =
     \<lparr>sc_items = dense_items n @ [\<lparr>it_offset = of_nat (2 * n), it_length = 1\<rparr>],
      sc_data = replicate (2 * n + 1) 0x61, sc_pos = 2 * n + 1, sc_width = 256\<rparr>"

lemma dense_column:
  assumes n: "n < 2 ^ 40" "0 < n"
  shows "scol_ok (dense_column n)" and "distinct (null_item # sc_items (dense_column n))"
    and "length (out_data (dump_items null_item (dense_column n))) = 2 * n + 1"
    and "truncated_size null_item (dense_column n) = max (n + 1 + (n + 4) div 4) 4096"
proof -
  have off: "unat (of_nat (2 * i) :: 48 word) = 2 * i" if "i \<le> n" for i
    using unat_of_nat_less [where 'a = 48 and n = "2 * i"] that n by simp
  show ok: "scol_ok (dense_column n)"
    using off n by (auto simp: scol_ok_def dense_column_def dense_items_def item_in_def simp del: of_nat_mult)
  have inj: "(of_nat (2 * i) :: 48 word) = of_nat (2 * j) \<longleftrightarrow> i = j" if "i \<le> n" "j \<le> n" for i j
    using off [OF that(1)] off [OF that(2)] by (metis mult_left_cancel zero_neq_numeral)
  then have "inj_on (\<lambda>i. \<lparr>it_offset = of_nat (2 * i), it_length = 2\<rparr> :: string_item) {0..<n}"
    by (intro inj_onI) (simp del: of_nat_mult)
  then show dist: "distinct (null_item # sc_items (dense_column n))"
    by (auto simp: dense_column_def dense_items_def distinct_map null_item_def simp del: of_nat_mult)
  have "pre_item (dump_start null_item) = null_item" by (simp add: dump_start_def)
  note dd = dump_distinct [of "dump_start null_item" "sc_items (dense_column n)" "sc_data (dense_column n)", unfolded this, OF dist]
  have items: "\<forall>it\<in>set (sc_items (dense_column n)). item_in (length (sc_data (dense_column n))) it"
    using scol_ok_items [OF ok] by simp
  have d: "dump_items null_item (dense_column n) =
      fold (dump_item (sc_data (dense_column n))) (sc_items (dense_column n)) (dump_start null_item)"
    by (simp add: dump_items_def dump_start_def)
  show len: "length (out_data (dump_items null_item (dense_column n))) = 2 * n + 1"
    unfolding d dd(1) [OF items]
    by (simp add: dump_start_def dense_column_def dense_items_def comp_def sum_list_triv)
  have cnt: "count_no_empty (dump_items null_item (dense_column n)) = n + 1"
    unfolding d dd(2) [OF items]
    by (simp add: dump_start_def dense_column_def dense_items_def comp_def filter_map)
  have "(2 * n + 1) div (n + 1) = 1" using n by (intro div_nat_eqI) simp_all
  then show "truncated_size null_item (dense_column n) = max (n + 1 + (n + 4) div 4) 4096"
    unfolding truncated_size_def Let_def len cnt
    by (simp add: scol_size_def dense_column_def dense_items_def)
qed

theorem scol_dump_loses_witness:
  "get_view 4999 (dense_column 4999) \<noteq> None \<and>
   get_view 4999 (scol_open 256 (scol_dump null_item (dense_column 4999))) = None"
proof -
  have n: "(4999 :: nat) < 2 ^ 40" "(0 :: nat) < 4999" by simp_all
  note d = dense_column [OF n]
  have items: "sc_items (dense_column n) = dense_items n @ [\<lparr>it_offset = of_nat (2 * n), it_length = 1\<rparr>]"
    "length (dense_items n) = n" for n
    by (simp_all add: dense_column_def dense_items_def)
  show ?thesis
    using scol_dump_loses [OF d(1) items(1) d(2), of null_item 256] unfolding d(3,4) items(2) header_size_def
    by simp
qed

end
