(* ===== verification/Lf_Indexer.thy ===== *)
theory Lf_Indexer
  imports String_Column
begin

text \<open>
  The index from primary keys to vertex ids, \<^verbatim>\<open>LFIndexer\<close> of
  \<^verbatim>\<open>include/neug/utils/id_indexer.h\<close>: an open addressing hash table with linear probing over
  the column of keys, and the prime number policy of \<^verbatim>\<open>flat_hash_map.hpp\<close> it uses. The compare
  and swap of \<^verbatim>\<open>insert\<close> makes taking a slot one step; the model is the sequence of these steps of
  one writer. \<^verbatim>\<open>std::hash\<close> is the argument \<open>stdh\<close>, about which nothing is assumed. A probe loop
  need not end, so the loops are partial functions and \<open>None\<close> is not returning.

  The lemmas show that every operation returns, that a lookup finds exactly the keys inserted, that
  growing the table loses none of them, and that string keys longer than the column width are never
  found again. The locale \<open>key_index\<close> is the contract for the vertex table.
\<close>

section \<open>The prime number policy\<close>

definition prime_list :: "nat list" where
  "prime_list =
    [2, 3, 5, 7, 11, 13, 17, 23, 29, 37, 47, 59, 73, 97, 127, 151, 197, 251, 313, 397, 499, 631, 797,
     1009, 1259, 1597, 2011, 2539, 3203, 4027, 5087, 6421, 8089, 10193, 12853, 16193, 20399, 25717,
     32401, 40823, 51437, 64811, 81649, 102877, 129607, 163307, 205759, 259229, 326617, 411527, 518509,
     653267, 823117, 1037059, 1306601, 1646237, 2074129, 2613229, 3292489, 4148279, 5226491, 6584983,
     8296553, 10453007, 13169977, 16593127, 20906033, 26339969, 33186281, 41812097, 52679969, 66372617,
     83624237, 105359939, 132745199, 167248483, 210719881, 265490441, 334496971, 421439783, 530980861,
     668993977, 842879579, 1061961721, 1337987929, 1685759167, 2123923447, 2675975881, 3371518343,
     4247846927, 5351951779, 6743036717, 8495693897, 10703903591, 13486073473, 16991387857,
     21407807219, 26972146961, 33982775741, 42815614441, 53944293929, 67965551447, 85631228929,
     107888587883, 135931102921, 171262457903, 215777175787, 271862205833, 342524915839, 431554351609,
     543724411781, 685049831731, 863108703229, 1087448823553, 1370099663459, 1726217406467,
     2174897647073, 2740199326961, 3452434812973, 4349795294267, 5480398654009, 6904869625999,
     8699590588571, 10960797308051, 13809739252051, 17399181177241, 21921594616111, 27619478504183,
     34798362354533, 43843189232363, 55238957008387, 69596724709081, 87686378464759, 110477914016779,
     139193449418173, 175372756929481, 220955828033581, 278386898836457, 350745513859007,
     441911656067171, 556773797672909, 701491027718027, 883823312134381, 1113547595345903,
     1402982055436147, 1767646624268779, 2227095190691797, 2805964110872297, 3535293248537579,
     4454190381383713, 5611928221744609, 7070586497075177, 8908380762767489, 11223856443489329,
     14141172994150357, 17816761525534927, 22447712886978529, 28282345988300791, 35633523051069991,
     44895425773957261, 56564691976601587, 71267046102139967, 89790851547914507, 113129383953203213,
     142534092204280003, 179581703095829107, 226258767906406483, 285068184408560057,
     359163406191658253, 452517535812813007, 570136368817120201, 718326812383316683,
     905035071625626043, 1140272737634240411, 1436653624766633509, 1810070143251252131,
     2280545475268481167, 2873307249533267101, 3620140286502504283, 4561090950536962147,
     5746614499066534157, 7240280573005008577, 9122181901073924329, 11493228998133068689,
     14480561146010017169, 18446744073709551557]"

text \<open>
  \<^verbatim>\<open>std::lower_bound\<close> over all but the last prime. A modulus stands for the function that
  takes it, \<open>0\<close> for \<^verbatim>\<open>mod0\<close>.
\<close>

definition next_size_over :: "nat \<Rightarrow> nat" where
  "next_size_over n =
     (case dropWhile (\<lambda>p. p < n) (butlast prime_list) of [] \<Rightarrow> last prime_list | p # _ \<Rightarrow> p)"

definition index_for_hash :: "nat \<Rightarrow> 64 word \<Rightarrow> nat" where
  "index_for_hash m hash = (if m = 0 then 0 else unat hash mod m)"

definition mod_functions :: "nat list" where
  "mod_functions = 0 # prime_list"

fun position_of :: "'a \<Rightarrow> 'a list \<Rightarrow> nat" where
  "position_of x [] = 0"
| "position_of x (y # ys) = (if y = x then 0 else Suc (position_of x ys))"

definition get_mod_function_index :: "nat \<Rightarrow> nat" where
  "get_mod_function_index m = position_of m mod_functions"

definition set_mod_function_by_index :: "nat \<Rightarrow> nat" where
  "set_mod_function_by_index i = mod_functions ! i"

section \<open>Hashing\<close>

text \<open>
  The hash of a key; only keys of the types of a key column are hashed, the code refuses others.
\<close>

definition ghash_int64 :: "64 word \<Rightarrow> 64 word" where
  "ghash_int64 val =
     (let x = (val XOR drop_bit 30 val) * 0xbf58476d1ce4e5b9;
          x = (x XOR drop_bit 27 x) * 0x94d049bb133111eb
      in x XOR drop_bit 31 x)"

definition GHash :: "(property_t \<Rightarrow> 64 word) \<Rightarrow> property_t \<Rightarrow> 64 word" where
  "GHash stdh val = (case val of PInt64 x \<Rightarrow> ghash_int64 x | _ \<Rightarrow> stdh val)"

section \<open>The table\<close>

abbreviation sentinel :: vid_t where
  "sentinel \<equiv> 0xFFFFFFFF"

record lfi =
  lf_keys :: "property_t list"
  lf_indices :: "vid_t list"
  lf_num :: nat
  lf_slots1 :: nat
  lf_mod :: nat
  lf_type :: "8 word"
  lf_width :: nat

definition lf_capacity :: "lfi \<Rightarrow> nat" where
  "lf_capacity c = length (lf_keys c)"

text \<open>What a fresh cell of the key column reads as, and what the column keeps of a key.\<close>

definition key_zero :: "8 word \<Rightarrow> property_t" where
  "key_zero t =
     (if t = kInt64 then PInt64 0 else if t = kInt32 then PInt32 0
      else if t = kUInt64 then PUInt64 0 else if t = kUInt32 then PUInt32 0 else PVarchar [])"

definition store_key :: "nat \<Rightarrow> property_t \<Rightarrow> property_t option" where
  "store_key w oid =
     (case oid of
        PVarchar s \<Rightarrow> map_option PVarchar (if length s \<ge> w then truncate_utf8 s w else Some s)
      | p \<Rightarrow> Some p)"

partial_function (option) lf_find ::
  "property_t list \<Rightarrow> vid_t list \<Rightarrow> nat \<Rightarrow> property_t \<Rightarrow> nat \<Rightarrow> vid_t option option" where
  "lf_find keys inds slots oid index =
     (if inds ! index = sentinel then Some None
      else if prop_eq (keys ! unat (inds ! index)) oid then Some (Some (inds ! index))
      else lf_find keys inds slots oid ((index + 1) mod slots))"

partial_function (option) lf_free :: "vid_t list \<Rightarrow> nat \<Rightarrow> nat \<Rightarrow> nat option" where
  "lf_free inds slots index =
     (if inds ! index = sentinel then Some index else lf_free inds slots ((index + 1) mod slots))"

definition lf_home :: "(property_t \<Rightarrow> 64 word) \<Rightarrow> lfi \<Rightarrow> property_t \<Rightarrow> nat" where
  "lf_home stdh c oid = index_for_hash (lf_mod c) (GHash stdh oid)"

definition lf_lookup :: "(property_t \<Rightarrow> 64 word) \<Rightarrow> lfi \<Rightarrow> property_t \<Rightarrow> vid_t option option" where
  "lf_lookup stdh c oid =
     lf_find (lf_keys c) (lf_indices c) (lf_slots1 c + 1) oid (lf_home stdh c oid)"

definition lf_get_index :: "(property_t \<Rightarrow> 64 word) \<Rightarrow> lfi \<Rightarrow> property_t \<Rightarrow> vid_t option option" where
  "lf_get_index stdh c oid =
     (if length (lf_indices c) \<le> 0 then Some None
      else if prop_type oid \<noteq> lf_type c then Some None
      else lf_lookup stdh c oid)"

definition lf_contains :: "(property_t \<Rightarrow> 64 word) \<Rightarrow> lfi \<Rightarrow> property_t \<Rightarrow> bool option" where
  "lf_contains stdh c oid = map_option (\<lambda>r. r \<noteq> None) (lf_lookup stdh c oid)"

definition lf_get_key :: "lfi \<Rightarrow> vid_t \<Rightarrow> property_t option" where
  "lf_get_key c index =
     (if unat index < lf_capacity c then Some (lf_keys c ! unat index) else None)"

text \<open>Put the index of a key into the first free slot from its home on.\<close>

definition lf_place :: "(property_t \<Rightarrow> 64 word) \<Rightarrow> nat \<Rightarrow> property_t \<Rightarrow> lfi \<Rightarrow> lfi option" where
  "lf_place stdh idx oid c =
     map_option (\<lambda>j. c\<lparr>lf_indices := (lf_indices c)[j := of_nat idx]\<rparr>)
       (lf_free (lf_indices c) (lf_slots1 c + 1) (lf_home stdh c oid))"

fun lf_place_all :: "(property_t \<Rightarrow> 64 word) \<Rightarrow> (nat \<times> bool) list \<Rightarrow> lfi \<Rightarrow> lfi option" where
  "lf_place_all stdh [] c = Some c"
| "lf_place_all stdh ((idx, in_set) # is) c =
     (if in_set then Option.bind (lf_place stdh idx (lf_keys c ! idx) c) (lf_place_all stdh is)
      else lf_place_all stdh is c)"

definition lf_rehash :: "(property_t \<Rightarrow> 64 word) \<Rightarrow> nat \<Rightarrow> lfi \<Rightarrow> lfi option" where
  "lf_rehash stdh n c =
     (let n = max n 4;
          c = c\<lparr>lf_keys := grow_to (key_zero (lf_type c)) n (lf_keys c)\<rparr>;
          size = 2 * n
      in if size = length (lf_indices c) then Some c
         else Option.bind (those (map (\<lambda>idx. lf_contains stdh c (lf_keys c ! idx)) [0..<lf_num c]))
           (\<lambda>oid_set.
              let size = next_size_over size
              in lf_place_all stdh (zip [0..<lf_num c] oid_set)
                   (c\<lparr>lf_mod := size, lf_indices := replicate size sentinel, lf_slots1 := size - 1\<rparr>)))"

definition lf_reserve :: "(property_t \<Rightarrow> 64 word) \<Rightarrow> nat \<Rightarrow> lfi \<Rightarrow> lfi option" where
  "lf_reserve stdh n c = lf_rehash stdh (max n (lf_num c)) c"

text \<open>
  \<^verbatim>\<open>insert\<close>; the inner \<open>None\<close> is the exception, thrown after the counter was incremented.
\<close>

definition lf_insert ::
  "(property_t \<Rightarrow> 64 word) \<Rightarrow> property_t \<Rightarrow> bool \<Rightarrow> lfi \<Rightarrow> (vid_t option \<times> lfi) option" where
  "lf_insert stdh oid insert_safe c =
     do { c \<leftarrow> (if insert_safe \<and> lf_num c \<ge> lf_capacity c
                then lf_reserve stdh (lf_capacity c + lf_capacity c div 4) c else Some c);
          let ind = (of_nat (lf_num c) :: vid_t);
          let c = c\<lparr>lf_num := lf_num c + 1\<rparr>;
          if \<not> insert_safe \<and> unat ind \<ge> lf_capacity c then Some (None, c)
          else do {
            key \<leftarrow> store_key (lf_width c) oid;
            c \<leftarrow> lf_place stdh (unat ind) oid (c\<lparr>lf_keys := (lf_keys c)[unat ind := key]\<rparr>);
            Some (Some ind, c) } }"

text \<open>
  The constructor and \<^verbatim>\<open>init\<close>; other types of keys are refused. The extra type information
  is the declared length of a string key.
\<close>

definition lf_init :: "8 word \<Rightarrow> nat option \<Rightarrow> lfi option" where
  "lf_init type extra_type_info =
     (if type \<in> {kInt64, kInt32, kUInt64, kUInt32, kVarchar}
      then Some \<lparr>lf_keys = [], lf_indices = [], lf_num = 0, lf_slots1 = 0, lf_mod = 0, lf_type = type,
                 lf_width = (case extra_type_info of Some max_length \<Rightarrow> max_length | None \<Rightarrow> 256)\<rparr>
      else None)"

text \<open>The files of a dump, and opening them: the metadata is an archive, read back field by field.\<close>

record lf_files =
  f_keys :: "property_t list"
  f_indices :: "vid_t list"
  f_meta :: bytes

definition lf_dump_meta :: "lfi \<Rightarrow> bytes" where
  "lf_dump_meta c =
     put_type (lf_type c) @ put64 (of_nat (lf_num c)) @ put64 (of_nat (lf_slots1 c)) @
     put64 (of_nat (get_mod_function_index (lf_mod c)))"

text \<open>
  The key column of a dump is the list of keys; for string keys the code writes it through the dump of
  the string column, which does not keep every column (see \<^verbatim>\<open>String_Column\<close>).
\<close>

definition lf_dump :: "lfi \<Rightarrow> lf_files" where
  "lf_dump c = \<lparr>f_keys = lf_keys c, f_indices = lf_indices c, f_meta = lf_dump_meta c\<rparr>"

definition lf_open :: "lf_files \<Rightarrow> lfi option" where
  "lf_open f =
     do { (type, r) \<leftarrow> get_type (f_meta f);
          (num, r) \<leftarrow> get64 r;
          (slots1, r) \<leftarrow> get64 r;
          (mod_function_index, r) \<leftarrow> get64 r;
          c \<leftarrow> lf_init type None;
          Some (c\<lparr>lf_keys := f_keys f, lf_indices := f_indices f, lf_num := unat num,
                  lf_slots1 := unat slots1,
                  lf_mod := set_mod_function_by_index (unat mod_function_index)\<rparr>) }"

section \<open>Probing\<close>

lemma prop_eq_pk:
  assumes "prop_type oid \<in> {kInt64, kInt32, kUInt64, kUInt32, kVarchar}"
  shows "prop_eq p oid \<longleftrightarrow> p = oid"
  using assms by (cases oid; cases p) (simp_all add: prop_eq_def)

text \<open>The slot \<open>d\<close> steps from \<open>s\<close>.\<close>

definition slot :: "nat \<Rightarrow> nat \<Rightarrow> nat \<Rightarrow> nat" where
  "slot n s d = (s + d) mod n"

lemma slot_0 [simp]: "s < n \<Longrightarrow> slot n s 0 = s"
  by (simp add: slot_def)

lemma slot_Suc: "slot n s (Suc d) = (slot n s d + 1) mod n"
  by (simp add: slot_def mod_Suc_eq)

lemma slot_less [simp]: "0 < n \<Longrightarrow> slot n s d < n"
  by (simp add: slot_def)

lemma slot_onto:
  assumes "j < n" "s < n"
  obtains d where "d < n" "slot n s d = j"
proof (cases "s \<le> j")
  case True
  then show thesis using assms by (intro that [of "j - s"]) (auto simp: slot_def)
next
  case False
  then show thesis using assms by (intro that [of "j + n - s"]) (auto simp: slot_def)
qed

lemma lf_find_skip:
  assumes "\<forall>e<d. inds ! slot n s e \<noteq> sentinel \<and> \<not> prop_eq (keys ! unat (inds ! slot n s e)) oid" "s < n"
  shows "lf_find keys inds n oid s = lf_find keys inds n oid (slot n s d)"
  using assms
proof (induction d)
  case (Suc d)
  then have "lf_find keys inds n oid s = lf_find keys inds n oid (slot n s d)" by simp
  also have "\<dots> = lf_find keys inds n oid (slot n s (Suc d))"
    using Suc.prems(1) by (subst lf_find.simps) (simp add: slot_Suc)
  finally show ?case .
qed simp

lemma lf_free_skip:
  assumes "\<forall>e<d. inds ! slot n s e \<noteq> sentinel" "s < n"
  shows "lf_free inds n s = lf_free inds n (slot n s d)"
  using assms
proof (induction d)
  case (Suc d)
  then have "lf_free inds n s = lf_free inds n (slot n s d)" by simp
  also have "\<dots> = lf_free inds n (slot n s (Suc d))"
    using Suc.prems(1) by (subst lf_free.simps) (simp add: slot_Suc)
  finally show ?case .
qed simp

text \<open>With a free slot both loops end at the first place where they can.\<close>

lemma lf_free_returns:
  assumes "j < n" "inds ! j = sentinel" "s < n"
  obtains d where "d < n" "lf_free inds n s = Some (slot n s d)" "inds ! slot n s d = sentinel"
    "\<forall>e<d. inds ! slot n s e \<noteq> sentinel"
proof -
  let ?P = "\<lambda>d. inds ! slot n s d = sentinel"
  obtain d0 where d0: "d0 < n" "slot n s d0 = j" using slot_onto [OF assms(1,3)] .
  then have "?P d0" using assms(2) by simp
  then obtain d where P: "?P d" "\<forall>e<d. \<not> ?P e" and "d \<le> d0" using ex_least_nat_le [of ?P] by blast
  have "lf_free inds n s = lf_free inds n (slot n s d)"
    using lf_free_skip [of d inds n s] P(2) assms(3) by simp
  also have "\<dots> = Some (slot n s d)" using P(1) by (subst lf_free.simps) simp
  finally have "lf_free inds n s = Some (slot n s d)" .
  then show thesis using that [of d] P d0(1) \<open>d \<le> d0\<close> by simp
qed

lemma lf_find_returns:
  assumes "j < n" "inds ! j = sentinel" "s < n"
  shows "(\<exists>d<n. lf_find keys inds n oid s = Some None \<and> inds ! slot n s d = sentinel \<and>
       (\<forall>e<d. inds ! slot n s e \<noteq> sentinel \<and> \<not> prop_eq (keys ! unat (inds ! slot n s e)) oid)) \<or>
     (\<exists>d<n. lf_find keys inds n oid s = Some (Some (inds ! slot n s d)) \<and> inds ! slot n s d \<noteq> sentinel \<and>
       prop_eq (keys ! unat (inds ! slot n s d)) oid)"
proof -
  let ?P = "\<lambda>d. inds ! slot n s d = sentinel \<or> prop_eq (keys ! unat (inds ! slot n s d)) oid"
  obtain d0 where d0: "d0 < n" "slot n s d0 = j" using slot_onto [OF assms(1,3)] .
  then have "?P d0" using assms(2) by simp
  then obtain d where P: "?P d" "\<forall>e<d. \<not> ?P e" and le: "d \<le> d0" using ex_least_nat_le [of ?P] by blast
  have "lf_find keys inds n oid s = lf_find keys inds n oid (slot n s d)"
    using lf_find_skip [of d inds n s keys oid] P(2) assms(3) by simp
  also have "\<dots> = (if inds ! slot n s d = sentinel then Some None else Some (Some (inds ! slot n s d)))"
    using P(1) by (subst lf_find.simps) auto
  finally show ?thesis using P le d0(1)
    by (cases "inds ! slot n s d = sentinel") (auto intro!: exI [of _ d])
qed

section \<open>The invariant\<close>

definition occupied :: "vid_t list \<Rightarrow> nat" where
  "occupied inds = length (filter (\<lambda>x. x \<noteq> sentinel) inds)"

text \<open>The index \<open>i\<close> can be reached from \<open>s\<close> without crossing a free slot.\<close>

definition reaches :: "vid_t list \<Rightarrow> nat \<Rightarrow> nat \<Rightarrow> bool" where
  "reaches inds s i \<longleftrightarrow>
     (\<exists>d. inds ! slot (length inds) s d = of_nat i \<and>
       (\<forall>e<d. inds ! slot (length inds) s e \<noteq> sentinel))"

definition table_ok :: "(property_t \<Rightarrow> 64 word) \<Rightarrow> nat set \<Rightarrow> lfi \<Rightarrow> bool" where
  "table_ok stdh I c \<longleftrightarrow>
     length (lf_indices c) = lf_slots1 c + 1 \<and> lf_mod c = length (lf_indices c) \<and>
     occupied (lf_indices c) = card I \<and> finite I \<and> card I < length (lf_indices c) \<and>
     (\<forall>i\<in>I. i < 2 ^ 32 - 1 \<and> reaches (lf_indices c) (lf_home stdh c (lf_keys c ! i)) i) \<and>
     (\<forall>j<length (lf_indices c). lf_indices c ! j \<noteq> sentinel \<longrightarrow> unat (lf_indices c ! j) \<in> I)"

abbreviation pk_type :: "8 word \<Rightarrow> bool" where
  "pk_type t \<equiv> t \<in> {kInt64, kInt32, kUInt64, kUInt32, kVarchar}"

definition keys_ok :: "lfi \<Rightarrow> bool" where
  "keys_ok c \<longleftrightarrow>
     pk_type (lf_type c) \<and> lf_num c \<le> lf_capacity c \<and> lf_num c < 2 ^ 32 - 1 \<and>
     (\<forall>i<lf_num c. prop_type (lf_keys c ! i) = lf_type c) \<and> distinct (take (lf_num c) (lf_keys c))"

definition lf_ok :: "(property_t \<Rightarrow> 64 word) \<Rightarrow> lfi \<Rightarrow> bool" where
  "lf_ok stdh c \<longleftrightarrow> keys_ok c \<and> lf_mod c \<in> set mod_functions \<and>
     (if lf_capacity c = 0 then lf_num c = 0 \<and> lf_indices c = [] \<and> lf_slots1 c = 0
      else table_ok stdh {..<lf_num c} c \<and> lf_capacity c < length (lf_indices c))"

text \<open>What the table stands for: the position of the key among the keys.\<close>

definition abs_index :: "lfi \<Rightarrow> property_t \<Rightarrow> vid_t option" where
  "abs_index c oid =
     (if oid \<in> set (take (lf_num c) (lf_keys c))
      then Some (of_nat (position_of oid (take (lf_num c) (lf_keys c)))) else None)"

section \<open>Lookups\<close>

lemma table_okD:
  assumes "table_ok stdh I c"
  shows "length (lf_indices c) = lf_slots1 c + 1" "lf_mod c = length (lf_indices c)"
    "occupied (lf_indices c) = card I" "finite I" "card I < length (lf_indices c)"
    and "i \<in> I \<Longrightarrow> i < 2 ^ 32 - 1" "i \<in> I \<Longrightarrow> reaches (lf_indices c) (lf_home stdh c (lf_keys c ! i)) i"
    and "j < length (lf_indices c) \<Longrightarrow> lf_indices c ! j \<noteq> sentinel \<Longrightarrow> unat (lf_indices c ! j) \<in> I"
  using assms by (simp_all add: table_ok_def)

lemma free_slot_exists:
  assumes "occupied inds < length inds"
  obtains j where "j < length inds" "inds ! j = sentinel"
proof -
  have "filter (\<lambda>x. x \<noteq> sentinel) inds \<noteq> inds" using assms by (auto simp: occupied_def)
  then have "\<exists>x\<in>set inds. x = sentinel" by (metis (mono_tags, lifting) filter_True)
  then show thesis using that by (auto simp: in_set_conv_nth)
qed

lemma home_less: "0 < lf_mod c \<Longrightarrow> lf_home stdh c oid < lf_mod c"
  by (simp add: lf_home_def index_for_hash_def)

lemma vid_inject: "i < 2 ^ 32 - 1 \<Longrightarrow> (of_nat i :: vid_t) \<noteq> sentinel" "i < 2 ^ 32 - 1 \<Longrightarrow> unat (of_nat i :: vid_t) = i"
proof -
  show u: "unat (of_nat i :: vid_t) = i" if "i < 2 ^ 32 - 1" using that by (simp add: unat_of_nat_less)
  show "(of_nat i :: vid_t) \<noteq> sentinel" if "i < 2 ^ 32 - 1"
  proof
    assume "(of_nat i :: vid_t) = sentinel"
    then have "unat (of_nat i :: vid_t) = unat sentinel" by simp
    then show False using u [OF that] that by simp
  qed
qed

lemma lookup_cases:
  assumes t: "table_ok stdh I c" and pk: "pk_type (prop_type oid)"
  shows "(\<exists>d. lf_lookup stdh c oid = Some None \<and>
       lf_indices c ! slot (length (lf_indices c)) (lf_home stdh c oid) d = sentinel \<and>
       (\<forall>e<d. lf_keys c ! unat (lf_indices c ! slot (length (lf_indices c)) (lf_home stdh c oid) e) \<noteq> oid)) \<or>
     (\<exists>i\<in>I. lf_lookup stdh c oid = Some (Some (of_nat i)) \<and> lf_keys c ! i = oid)"
proof -
  note f = table_okD [OF t]
  let ?n = "length (lf_indices c)" and ?s = "lf_home stdh c oid"
  have n: "0 < ?n" using f(5) by linarith
  have s: "?s < ?n" using home_less [of c stdh oid] f(2) n by simp
  obtain j where j: "j < ?n" "lf_indices c ! j = sentinel" using free_slot_exists f(3,5) by metis
  have l: "lf_lookup stdh c oid = lf_find (lf_keys c) (lf_indices c) ?n oid ?s"
    by (simp add: lf_lookup_def f(1))
  consider d where "lf_find (lf_keys c) (lf_indices c) ?n oid ?s = Some None" "lf_indices c ! slot ?n ?s d = sentinel"
      "\<forall>e<d. lf_keys c ! unat (lf_indices c ! slot ?n ?s e) \<noteq> oid"
    | d where "lf_find (lf_keys c) (lf_indices c) ?n oid ?s = Some (Some (lf_indices c ! slot ?n ?s d))"
      "lf_indices c ! slot ?n ?s d \<noteq> sentinel" "lf_keys c ! unat (lf_indices c ! slot ?n ?s d) = oid"
    using lf_find_returns [OF j s, of "lf_keys c" oid] unfolding prop_eq_pk [OF pk] by blast
  then show ?thesis
  proof cases
    case 1
    then show ?thesis unfolding l by blast
  next
    case 2
    then have "unat (lf_indices c ! slot ?n ?s d) \<in> I" using f(8) slot_less [OF n] by blast
    then show ?thesis unfolding l using 2 by (intro disjI2 bexI) auto
  qed
qed

lemma lookup_hit:
  assumes t: "table_ok stdh I c" and pk: "pk_type (prop_type (lf_keys c ! i))" and i: "i \<in> I"
    and inj: "\<And>k. k \<in> I \<Longrightarrow> lf_keys c ! k = lf_keys c ! i \<Longrightarrow> k = i"
  shows "lf_lookup stdh c (lf_keys c ! i) = Some (Some (of_nat i))"
  using lookup_cases [OF t pk]
proof (elim disjE exE bexE conjE)
  fix d assume d: "lf_indices c ! slot (length (lf_indices c)) (lf_home stdh c (lf_keys c ! i)) d = sentinel"
    "\<forall>e<d. lf_keys c ! unat (lf_indices c ! slot (length (lf_indices c)) (lf_home stdh c (lf_keys c ! i)) e) \<noteq> lf_keys c ! i"
  obtain d' where d': "lf_indices c ! slot (length (lf_indices c)) (lf_home stdh c (lf_keys c ! i)) d' = of_nat i"
    "\<forall>e<d'. lf_indices c ! slot (length (lf_indices c)) (lf_home stdh c (lf_keys c ! i)) e \<noteq> sentinel"
    using table_okD(7) [OF t i] by (auto simp: reaches_def)
  note v = vid_inject [OF table_okD(6) [OF t i]]
  have "d' < d" using d(1) d' v(1) by (metis linorder_neqE_nat)
  then show ?thesis using d(2) d'(1) v(2) by auto
next
  fix k assume "k \<in> I" "lf_lookup stdh c (lf_keys c ! i) = Some (Some (of_nat k))" "lf_keys c ! k = lf_keys c ! i"
  then show ?thesis using inj by auto
qed

lemma lookup_miss:
  assumes "table_ok stdh I c" "pk_type (prop_type oid)" "\<And>i. i \<in> I \<Longrightarrow> lf_keys c ! i \<noteq> oid"
  shows "lf_lookup stdh c oid = Some None"
  using lookup_cases [OF assms(1,2)] assms(3) by blast

section \<open>Taking a slot\<close>

lemma occupied_update:
  "j < length inds \<Longrightarrow> inds ! j = sentinel \<Longrightarrow> x \<noteq> sentinel \<Longrightarrow> occupied (inds[j := x]) = occupied inds + 1"
  by (induction inds arbitrary: j) (auto simp: occupied_def split: nat.splits)

lemma reaches_update:
  assumes "reaches inds s i" "j < length inds" "inds ! j = sentinel" "of_nat i \<noteq> sentinel" "x \<noteq> sentinel"
  shows "reaches (inds[j := x]) s i"
proof -
  have n: "0 < length inds" using assms(2) by auto
  obtain d where d: "inds ! slot (length inds) s d = of_nat i"
    "\<forall>e<d. inds ! slot (length inds) s e \<noteq> sentinel" using assms(1) by (auto simp: reaches_def)
  have "inds[j := x] ! slot (length inds) s e = inds ! slot (length inds) s e \<or>
      inds[j := x] ! slot (length inds) s e = x" for e
    using slot_less [OF n, of s e] by (cases "slot (length inds) s e = j") simp_all
  moreover have "slot (length inds) s d \<noteq> j" using d(1) assms(3,4) by auto
  ultimately show ?thesis using d assms(5) unfolding reaches_def length_list_update
    by (intro exI [of _ d]) (metis nth_list_update_neq)
qed

lemma lf_place_spec:
  assumes t: "table_ok stdh I c" and i: "i \<notin> I" "i < 2 ^ 32 - 1" and room: "card I + 1 < length (lf_indices c)"
  obtains c' j where "lf_place stdh i oid c = Some c'" "c' = c\<lparr>lf_indices := (lf_indices c)[j := of_nat i]\<rparr>"
    "j < length (lf_indices c)" "lf_indices c ! j = sentinel" "reaches (lf_indices c') (lf_home stdh c oid) i"
proof -
  note f = table_okD [OF t]
  let ?n = "length (lf_indices c)" and ?s = "lf_home stdh c oid"
  have n: "0 < ?n" using f(5) by linarith
  have s: "?s < ?n" using home_less [of c stdh oid] f(2) n by simp
  obtain j where j: "j < ?n" "lf_indices c ! j = sentinel" using free_slot_exists f(3,5) by metis
  obtain d where d: "lf_free (lf_indices c) ?n ?s = Some (slot ?n ?s d)" "lf_indices c ! slot ?n ?s d = sentinel"
    "\<forall>e<d. lf_indices c ! slot ?n ?s e \<noteq> sentinel" using lf_free_returns [OF j s] by blast
  have "reaches ((lf_indices c)[slot ?n ?s d := of_nat i]) ?s i"
    unfolding reaches_def length_list_update
    using d n by (intro exI [of _ d]) (metis nth_list_update_eq nth_list_update_neq slot_less)
  moreover have "lf_place stdh i oid c = Some (c\<lparr>lf_indices := (lf_indices c)[slot ?n ?s d := of_nat i]\<rparr>)"
    unfolding lf_place_def f(1) [symmetric] d(1) by simp
  ultimately show thesis using that [of _ "slot ?n ?s d"] d(2) slot_less [OF n] by simp
qed

lemma table_ok_insert:
  assumes t: "table_ok stdh I c" and i: "i \<notin> I" "i < 2 ^ 32 - 1" and room: "card I + 1 < length (lf_indices c)"
    and j: "j < length (lf_indices c)" "lf_indices c ! j = sentinel"
    and c': "c' = c\<lparr>lf_indices := (lf_indices c)[j := of_nat i]\<rparr>"
    and r: "reaches (lf_indices c') (lf_home stdh c (lf_keys c ! i)) i"
  shows "table_ok stdh (insert i I) c'"
proof -
  note f = table_okD [OF t] and v = vid_inject [OF i(2)]
  have home: "lf_home stdh c' oid = lf_home stdh c oid" for oid by (simp add: lf_home_def c')
  have "reaches ((lf_indices c)[j := of_nat i]) (lf_home stdh c (lf_keys c ! k)) k" if "k \<in> I" for k
    using reaches_update [OF f(7) [OF that] j] v(1) vid_inject(1) [OF f(6) [OF that]] by simp
  moreover have "unat ((lf_indices c)[j := of_nat i] ! k) \<in> insert i I"
    if "k < length (lf_indices c)" "(lf_indices c)[j := of_nat i] ! k \<noteq> sentinel" for k
    using that f(8) [of k] v(2) by (cases "k = j") auto
  moreover have "occupied ((lf_indices c)[j := of_nat i]) = card (insert i I)"
    using occupied_update [OF j v(1)] f(3,4) i(1) by simp
  ultimately show ?thesis
    using f(1,2,4,6) i room r unfolding table_ok_def home by (auto simp: c')
qed

section \<open>Growing\<close>

lemma next_size_over_ge:
  assumes "n \<le> 18446744073709551557"
  shows "n \<le> next_size_over n"
proof -
  have last: "last prime_list = 18446744073709551557"
    unfolding prime_list_def by (simp only: last.simps list.distinct if_True if_False refl simp_thms)
  show ?thesis
  proof (cases "dropWhile (\<lambda>p. p < n) (butlast prime_list)")
    case Nil
    then have "next_size_over n = last prime_list" unfolding next_size_over_def by (simp only: list.case)
    then show ?thesis using assms last by simp
  next
    case (Cons p ps)
    then have "\<not> p < n" using hd_dropWhile [of "\<lambda>p. p < n" "butlast prime_list"] by simp
    then show ?thesis using Cons by (simp add: next_size_over_def)
  qed
qed

lemma next_size_over_mod: "next_size_over n \<in> set mod_functions"
proof (cases "dropWhile (\<lambda>p. p < n) (butlast prime_list)")
  case Nil
  then have "next_size_over n = last prime_list" unfolding next_size_over_def by (simp only: list.case)
  moreover have "prime_list \<noteq> []" by (simp add: prime_list_def)
  ultimately show ?thesis by (simp add: mod_functions_def)
next
  case (Cons p ps)
  then have "p \<in> set (dropWhile (\<lambda>p. p < n) (butlast prime_list))" by simp
  then have "p \<in> set prime_list" by (blast dest: set_dropWhileD in_set_butlastD)
  then show ?thesis using Cons by (simp add: next_size_over_def mod_functions_def)
qed

lemma table_ok_empty: "0 < n \<Longrightarrow> lf_mod c = n \<Longrightarrow> lf_indices c = replicate n sentinel \<Longrightarrow> lf_slots1 c = n - 1 \<Longrightarrow>
    table_ok stdh {} c"
  by (simp add: table_ok_def occupied_def)

lemma place_all_spec:
  assumes "table_ok stdh I c" "distinct is" "set is \<inter> I = {}" "\<forall>i\<in>set is. i < 2 ^ 32 - 1"
    and "card I + length is < length (lf_indices c)"
  shows "\<exists>c'. lf_place_all stdh (map (\<lambda>i. (i, True)) is) c = Some c' \<and> table_ok stdh (I \<union> set is) c' \<and>
    c' = c\<lparr>lf_indices := lf_indices c'\<rparr> \<and> length (lf_indices c') = length (lf_indices c)"
  using assms
proof (induction "is" arbitrary: I c)
  case (Cons i "is")
  have i: "i \<notin> I" "i < 2 ^ 32 - 1" "card I + 1 < length (lf_indices c)" using Cons.prems by auto
  obtain c1 j where c1: "lf_place stdh i (lf_keys c ! i) c = Some c1"
    "c1 = c\<lparr>lf_indices := (lf_indices c)[j := of_nat i]\<rparr>" "j < length (lf_indices c)" "lf_indices c ! j = sentinel"
    "reaches (lf_indices c1) (lf_home stdh c (lf_keys c ! i)) i"
    using lf_place_spec [OF Cons.prems(1) i] .
  have t: "table_ok stdh (insert i I) c1" using table_ok_insert [OF Cons.prems(1) i c1(3,4,2,5)] .
  have "card (insert i I) + length is < length (lf_indices c1)"
    using Cons.prems(5) i(1) table_okD(4) [OF Cons.prems(1)] by (simp add: c1(2))
  then obtain c' where c': "lf_place_all stdh (map (\<lambda>i. (i, True)) is) c1 = Some c'"
    "table_ok stdh (insert i I \<union> set is) c'" "c' = c1\<lparr>lf_indices := lf_indices c'\<rparr>"
    "length (lf_indices c') = length (lf_indices c1)"
    using Cons.IH [OF t] Cons.prems(2-4) i(1) by auto
  have "c' = c\<lparr>lf_indices := lf_indices c'\<rparr>" using c'(3) by (simp add: c1(2))
  moreover have "length (lf_indices c') = length (lf_indices c)" using c'(4) by (simp add: c1(2))
  moreover have "lf_place_all stdh (map (\<lambda>i. (i, True)) (i # is)) c = Some c'" using c1(1) c'(1) by simp
  ultimately show ?case using c'(2) by auto
qed simp

lemma those_map_total: "(\<And>x. x \<in> set xs \<Longrightarrow> f x = Some (g x)) \<Longrightarrow> those (map f xs) = Some (map g xs)"
  by (induction xs) simp_all

lemma keys_ok_nth: "keys_ok c \<Longrightarrow> i < lf_num c \<Longrightarrow> k < lf_num c \<Longrightarrow> lf_keys c ! k = lf_keys c ! i \<Longrightarrow> k = i"
proof -
  assume "keys_ok c" "i < lf_num c" "k < lf_num c" "lf_keys c ! k = lf_keys c ! i"
  then show ?thesis using nth_eq_iff_index_eq [of "take (lf_num c) (lf_keys c)" k i]
    by (simp add: keys_ok_def lf_capacity_def)
qed

lemma table_ok_keys:
  assumes "table_ok stdh I c" "\<And>i. i \<in> I \<Longrightarrow> ks ! i = lf_keys c ! i"
  shows "table_ok stdh I (c\<lparr>lf_keys := ks\<rparr>)"
proof -
  have "lf_home stdh (c\<lparr>lf_keys := ks\<rparr>) oid = lf_home stdh c oid" for oid by (simp add: lf_home_def)
  then show ?thesis using assms by (simp add: table_ok_def)
qed

lemma table_ok_num: "table_ok stdh I (c\<lparr>lf_num := n\<rparr>) = table_ok stdh I c"
proof -
  have "lf_home stdh (c\<lparr>lf_num := n\<rparr>) oid = lf_home stdh c oid" for oid by (simp add: lf_home_def)
  then show ?thesis by (simp add: table_ok_def)
qed

lemma grow_keys_ok:
  assumes "keys_ok c" "lf_num c \<le> n"
  defines "c' \<equiv> c\<lparr>lf_keys := grow_to (key_zero (lf_type c)) n (lf_keys c)\<rparr>"
  shows "keys_ok c'" "lf_num c' = lf_num c" "lf_capacity c' = n"
    "take (lf_num c) (lf_keys c') = take (lf_num c) (lf_keys c)" "i < lf_num c \<Longrightarrow> lf_keys c' ! i = lf_keys c ! i"
proof -
  have le: "lf_num c \<le> length (lf_keys c)" using assms(1) by (simp add: keys_ok_def lf_capacity_def)
  show n: "lf_num c' = lf_num c" "lf_capacity c' = n" by (simp_all add: c'_def lf_capacity_def)
  show tk: "take (lf_num c) (lf_keys c') = take (lf_num c) (lf_keys c)"
    using le assms(2) by (simp add: c'_def take_grow_to)
  show nth: "lf_keys c' ! i = lf_keys c ! i" if "i < lf_num c" for i
    using that le assms(2) by (simp add: c'_def nth_grow_to)
  have "lf_type c' = lf_type c" by (simp add: c'_def)
  then show "keys_ok c'" using assms(1,2) n tk nth by (simp add: keys_ok_def)
qed

lemma lf_rehash_spec:
  assumes ok: "lf_ok stdh c" and n: "lf_num c \<le> max n 4" "max n 4 < 2 ^ 60"
  shows "\<exists>c'. lf_rehash stdh n c = Some c' \<and> lf_ok stdh c' \<and> lf_capacity c' = max n 4 \<and> lf_num c' = lf_num c \<and>
    lf_type c' = lf_type c \<and> lf_width c' = lf_width c \<and>
    take (lf_num c) (lf_keys c') = take (lf_num c) (lf_keys c)"
proof -
  define m where "m = max n 4"
  define c1 where "c1 = c\<lparr>lf_keys := grow_to (key_zero (lf_type c)) m (lf_keys c)\<rparr>"
  have k: "keys_ok c" using ok by (simp add: lf_ok_def)
  note g = grow_keys_ok [OF k, of m, folded c1_def]
  have nm: "lf_num c \<le> m" "4 \<le> m" "m < 2 ^ 60" using n by (simp_all add: m_def)
  note g = g [OF nm(1)]
  have small: "lf_num c < 2 ^ 32 - 1" using k by (simp add: keys_ok_def)
  have table: "table_ok stdh {..<lf_num c} c1" if "lf_num c \<noteq> 0"
    using that ok table_ok_keys [of stdh "{..<lf_num c}" c "lf_keys c1"] g(5) k
    by (auto simp: lf_ok_def c1_def keys_ok_def split: if_splits)
  have i1: "lf_indices c1 = lf_indices c" by (simp add: c1_def)
  have re: "lf_rehash stdh n c = (if 2 * m = length (lf_indices c1) then Some c1
      else Option.bind (those (map (\<lambda>idx. lf_contains stdh c1 (lf_keys c1 ! idx)) [0..<lf_num c1]))
        (\<lambda>oid_set. lf_place_all stdh (zip [0..<lf_num c1] oid_set)
           (c1\<lparr>lf_mod := next_size_over (2 * m), lf_indices := replicate (next_size_over (2 * m)) sentinel,
               lf_slots1 := next_size_over (2 * m) - 1\<rparr>)))"
    unfolding lf_rehash_def Let_def m_def [symmetric] c1_def [symmetric] i1 by (rule refl)
  show ?thesis
  proof (cases "2 * m = length (lf_indices c1)")
    case True
    then have r: "lf_rehash stdh n c = Some c1" unfolding re by simp
    have "lf_indices c \<noteq> []" using True nm(2) by (auto simp: c1_def)
    then have "table_ok stdh {..<lf_num c} c1"
      using ok table_ok_keys [of stdh "{..<lf_num c}" c "lf_keys c1"] g(5)
      by (auto simp: lf_ok_def c1_def split: if_splits)
    moreover have "lf_mod c1 \<in> set mod_functions" using ok by (simp add: lf_ok_def c1_def)
    ultimately have "lf_ok stdh c1" using g nm True by (simp add: lf_ok_def)
    then show ?thesis using r g(2-4) by (simp add: m_def c1_def)
  next
    case False
    define size where "size = next_size_over (2 * m)"
    have size: "2 * m \<le> size" using next_size_over_ge [of "2 * m"] nm by (simp add: size_def)
    have "lf_contains stdh c1 (lf_keys c1 ! i) = Some True" if "i \<in> set [0..<lf_num c1]" for i
    proof -
      have i: "i < lf_num c1" "lf_num c \<noteq> 0" using that g(2) by auto
      have "pk_type (prop_type (lf_keys c1 ! i))" using g(1) i by (simp add: keys_ok_def)
      from lookup_hit [OF table [OF i(2)] this] keys_ok_nth [OF g(1) i(1)] i(1) g(2)
      show ?thesis by (simp add: lf_contains_def)
    qed
    then have marks: "those (map (\<lambda>idx. lf_contains stdh c1 (lf_keys c1 ! idx)) [0..<lf_num c1]) =
        Some (map (\<lambda>_. True) [0..<lf_num c1])" by (rule those_map_total)
    define c2 where "c2 = c1\<lparr>lf_mod := size, lf_indices := replicate size sentinel, lf_slots1 := size - 1\<rparr>"
    have t2: "table_ok stdh {} c2" by (rule table_ok_empty [of size]) (use size nm(2) in \<open>simp_all add: c2_def\<close>)
    have zip: "zip [0..<lf_num c1] (map (\<lambda>_. True) [0..<lf_num c1]) = map (\<lambda>i. (i, True)) [0..<lf_num c1]"
      by (simp add: zip_map2 zip_same_conv_map)
    obtain c' where c': "lf_place_all stdh (map (\<lambda>i. (i, True)) [0..<lf_num c1]) c2 = Some c'"
      "table_ok stdh {..<lf_num c1} c'" "c' = c2\<lparr>lf_indices := lf_indices c'\<rparr>" "length (lf_indices c') = size"
      using place_all_spec [OF t2, of "[0..<lf_num c1]"] size nm g(2) small by (auto simp: c2_def atLeast0LessThan)
    have keys: "lf_keys c' = lf_keys c1" "lf_num c' = lf_num c1" "lf_type c' = lf_type c1" "lf_width c' = lf_width c1"
      using arg_cong [OF c'(3), of lf_keys] arg_cong [OF c'(3), of lf_num] arg_cong [OF c'(3), of lf_type]
        arg_cong [OF c'(3), of lf_width] by (simp_all add: c2_def)
    have "lf_rehash stdh n c = Some c'"
      unfolding re marks size_def [symmetric] c2_def [symmetric] using False c'(1) by (simp add: zip)
    moreover have "lf_ok stdh c'"
    proof -
      have "keys_ok c'" using g(1) keys by (simp add: keys_ok_def lf_capacity_def)
      moreover have "lf_mod c' \<in> set mod_functions"
        using arg_cong [OF c'(3), of lf_mod] next_size_over_mod [of "2 * m"] by (simp add: c2_def size_def)
      ultimately show ?thesis using c'(2,4) keys g(2,3) size nm by (simp add: lf_ok_def lf_capacity_def)
    qed
    ultimately show ?thesis using keys g by (simp add: m_def lf_capacity_def c1_def)
  qed
qed

section \<open>The index as a map\<close>

lemma position_of_nth: "x \<in> set xs \<Longrightarrow> position_of x xs < length xs \<and> xs ! position_of x xs = x"
  by (induction xs) auto

lemma position_of_unique: "distinct xs \<Longrightarrow> i < length xs \<Longrightarrow> position_of (xs ! i) xs = i"
  using position_of_nth [of "xs ! i" xs] nth_eq_iff_index_eq [of xs "position_of (xs ! i) xs" i] nth_mem [of i xs]
  by blast

lemma abs_index_nth:
  assumes "keys_ok c" "i < lf_num c"
  shows "abs_index c (lf_keys c ! i) = Some (of_nat i)"
proof -
  let ?ks = "take (lf_num c) (lf_keys c)"
  have l: "length ?ks = lf_num c" "distinct ?ks" using assms(1) by (simp_all add: keys_ok_def lf_capacity_def)
  then have "lf_keys c ! i = ?ks ! i" "?ks ! i \<in> set ?ks" using assms(2) by (simp, metis nth_mem)
  then show ?thesis using position_of_unique [OF l(2), of i] l(1) assms(2) by (simp add: abs_index_def)
qed

lemma abs_index_None: "keys_ok c \<Longrightarrow> abs_index c oid = None \<longleftrightarrow> (\<forall>i<lf_num c. lf_keys c ! i \<noteq> oid)"
  by (auto simp: abs_index_def keys_ok_def lf_capacity_def in_set_conv_nth)

lemma lf_get_index_abs:
  assumes ok: "lf_ok stdh c"
  shows "lf_get_index stdh c oid = Some (abs_index c oid)"
proof (cases "abs_index c oid")
  case None
  have k: "keys_ok c" using ok by (simp add: lf_ok_def)
  note no = abs_index_None [OF k, THEN iffD1, OF None, rule_format]
  show ?thesis
  proof (cases "lf_indices c = [] \<or> prop_type oid \<noteq> lf_type c")
    case True
    then show ?thesis using None by (auto simp: lf_get_index_def)
  next
    case False
    then have "table_ok stdh {..<lf_num c} c" "pk_type (prop_type oid)"
      using ok k by (auto simp: lf_ok_def keys_ok_def split: if_splits)
    from lookup_miss [OF this] no show ?thesis using False None by (auto simp: lf_get_index_def)
  qed
next
  case (Some x)
  have k: "keys_ok c" using ok by (simp add: lf_ok_def)
  obtain i where i: "i < lf_num c" "lf_keys c ! i = oid" using Some abs_index_None [OF k, of oid] by auto
  then have "lf_capacity c \<noteq> 0" using k by (auto simp: keys_ok_def)
  then have t: "table_ok stdh {..<lf_num c} c" using ok by (simp add: lf_ok_def)
  have ty: "prop_type oid = lf_type c" "pk_type (prop_type oid)" using k i by (auto simp: keys_ok_def)
  have "lf_lookup stdh c (lf_keys c ! i) = Some (Some (of_nat i))"
  proof (rule lookup_hit [OF t])
    show "pk_type (prop_type (lf_keys c ! i))" using ty(2) unfolding i(2) .
    show "i \<in> {..<lf_num c}" using i(1) by simp
    show "m = i" if "m \<in> {..<lf_num c}" "lf_keys c ! m = lf_keys c ! i" for m
      by (rule keys_ok_nth [OF k i(1) _ that(2)]) (use that(1) in simp)
  qed
  then have "lf_lookup stdh c oid = Some (Some (of_nat i))" unfolding i(2) .
  moreover have "lf_indices c \<noteq> []" using table_okD(1) [OF t] by auto
  ultimately show ?thesis using ty(1) abs_index_nth [OF k i(1)] i(2) by (simp add: lf_get_index_def)
qed

lemma lf_reserve_spec:
  assumes "lf_ok stdh c" "n < 2 ^ 59"
  shows "\<exists>c'. lf_reserve stdh n c = Some c' \<and> lf_ok stdh c' \<and> lf_capacity c' = max (max n (lf_num c)) 4 \<and>
    lf_num c' = lf_num c \<and> lf_type c' = lf_type c \<and> lf_width c' = lf_width c \<and>
    take (lf_num c) (lf_keys c') = take (lf_num c) (lf_keys c)"
proof -
  have "lf_num c < 2 ^ 32" using assms(1) by (simp add: lf_ok_def keys_ok_def)
  then show ?thesis using lf_rehash_spec [OF assms(1), of "max n (lf_num c)"] assms(2) by (simp add: lf_reserve_def)
qed

text \<open>The part of \<^verbatim>\<open>insert\<close> after room has been made.\<close>

lemma insert_with_room:
  assumes ok: "lf_ok stdh c" and room: "lf_num c < lf_capacity c" "lf_num c < 2 ^ 32 - 2"
    and oid: "prop_type oid = lf_type c" "store_key (lf_width c) oid = Some oid" "abs_index c oid = None"
  defines "c1 \<equiv> c\<lparr>lf_num := lf_num c + 1, lf_keys := (lf_keys c)[lf_num c := oid]\<rparr>"
  shows "\<exists>c'. lf_place stdh (lf_num c) oid c1 = Some c' \<and> lf_ok stdh c' \<and> lf_capacity c' = lf_capacity c \<and>
    lf_num c' = lf_num c + 1 \<and> lf_type c' = lf_type c \<and> lf_width c' = lf_width c \<and>
    take (lf_num c + 1) (lf_keys c') = take (lf_num c) (lf_keys c) @ [oid]"
proof -
  let ?n = "lf_num c"
  have k: "keys_ok c" and t: "table_ok stdh {..<?n} c" and big: "lf_capacity c < length (lf_indices c)"
    using ok room(1) by (auto simp: lf_ok_def split: if_splits)
  have t1: "table_ok stdh {..<?n} c1"
  proof -
    have "table_ok stdh {..<?n} (c\<lparr>lf_num := ?n + 1\<rparr>)" using t by (simp only: table_ok_num)
    from table_ok_keys [OF this, of "(lf_keys c)[?n := oid]"] show ?thesis unfolding c1_def by simp
  qed
  have i: "?n \<notin> {..<?n}" "?n < 2 ^ 32 - 1" "card {..<?n} + 1 < length (lf_indices c1)"
    using room big by (simp_all add: c1_def)
  have key: "lf_keys c1 ! ?n = oid" using room(1) by (simp add: c1_def lf_capacity_def)
  obtain c' j where c': "lf_place stdh ?n oid c1 = Some c'" "c' = c1\<lparr>lf_indices := (lf_indices c1)[j := of_nat ?n]\<rparr>"
    "j < length (lf_indices c1)" "lf_indices c1 ! j = sentinel" "reaches (lf_indices c') (lf_home stdh c1 oid) ?n"
    using lf_place_spec [OF t1 i] .
  have t': "table_ok stdh (insert ?n {..<?n}) c'"
    using table_ok_insert [OF t1 i c'(3,4,2)] c'(5) unfolding key by blast
  have tk: "take (?n + 1) (lf_keys c') = take ?n (lf_keys c) @ [oid]"
    using room(1) by (simp add: c'(2) c1_def lf_capacity_def take_Suc_conv_app_nth)
  have "oid \<notin> set (take ?n (lf_keys c))" using oid(3) by (simp add: abs_index_def split: if_splits)
  then have "keys_ok c'"
    using k room oid(1) tk unfolding keys_ok_def
    by (auto simp: c'(2) c1_def lf_capacity_def nth_list_update less_Suc_eq)
  moreover have "lf_capacity c' = lf_capacity c" "length (lf_indices c') = length (lf_indices c)" "lf_num c' = ?n + 1"
    by (simp_all add: c'(2) c1_def lf_capacity_def)
  moreover have "lf_mod c' \<in> set mod_functions" using ok by (simp add: c'(2) c1_def lf_ok_def)
  ultimately have "lf_ok stdh c'" using t' big room(1) by (simp add: lf_ok_def lessThan_Suc)
  then show ?thesis using c'(1) tk by (simp add: c'(2) c1_def lf_capacity_def)
qed

lemma lf_insert_spec:
  assumes ok: "lf_ok stdh c" and room: "insert_safe \<or> lf_num c < lf_capacity c" "lf_num c < 2 ^ 32 - 2"
    and cap: "lf_capacity c < 2 ^ 58"
    and oid: "prop_type oid = lf_type c" "store_key (lf_width c) oid = Some oid" "abs_index c oid = None"
  shows "\<exists>c'. lf_insert stdh oid insert_safe c = Some (Some (of_nat (lf_num c)), c') \<and> lf_ok stdh c' \<and>
    lf_num c' = lf_num c + 1 \<and> lf_type c' = lf_type c \<and> lf_width c' = lf_width c \<and>
    take (lf_num c') (lf_keys c') = take (lf_num c) (lf_keys c) @ [oid] \<and> lf_capacity c \<le> lf_capacity c' \<and>
    (lf_num c < lf_capacity c \<longrightarrow> lf_capacity c' = lf_capacity c)"
proof -
  let ?grow = "insert_safe \<and> lf_num c \<ge> lf_capacity c"
  obtain c1 where c1: "(if ?grow then lf_reserve stdh (lf_capacity c + lf_capacity c div 4) c else Some c) = Some c1"
    "lf_ok stdh c1" "lf_num c1 = lf_num c" "lf_type c1 = lf_type c" "lf_width c1 = lf_width c"
    "take (lf_num c) (lf_keys c1) = take (lf_num c) (lf_keys c)" "lf_num c1 < lf_capacity c1" "lf_capacity c \<le> lf_capacity c1"
    "lf_num c < lf_capacity c \<longrightarrow> lf_capacity c1 = lf_capacity c"
  proof (cases ?grow)
    case True
    then have eq: "lf_num c = lf_capacity c" using ok by (simp add: lf_ok_def keys_ok_def)
    have "lf_capacity c + lf_capacity c div 4 < 2 ^ 59" using cap by simp
    from lf_reserve_spec [OF ok this] obtain c1 where
      r: "lf_reserve stdh (lf_capacity c + lf_capacity c div 4) c = Some c1" "lf_ok stdh c1"
      "lf_capacity c1 = max (max (lf_capacity c + lf_capacity c div 4) (lf_num c)) 4" "lf_num c1 = lf_num c"
      "lf_type c1 = lf_type c" "lf_width c1 = lf_width c" "take (lf_num c) (lf_keys c1) = take (lf_num c) (lf_keys c)"
      by blast
    have "lf_num c < lf_capacity c1" using eq r(3) by (cases "lf_capacity c < 4") auto
    then show thesis using that [of c1] True r by simp
  next
    case False
    then show thesis using that [of c] ok room(1) by auto
  qed
  have "lf_num c1 < 2 ^ 32 - 2" using room(2) c1(3) by simp
  have "abs_index c1 oid = None" using oid(3) c1(3,6) by (simp add: abs_index_def split: if_splits)
  from insert_with_room [OF c1(2,7) \<open>lf_num c1 < 2 ^ 32 - 2\<close> _ _ this] oid(1,2) c1(4,5)
  obtain c' where c': "lf_place stdh (lf_num c1) oid (c1\<lparr>lf_num := lf_num c1 + 1, lf_keys := (lf_keys c1)[lf_num c1 := oid]\<rparr>) = Some c'"
    "lf_ok stdh c'" "lf_capacity c' = lf_capacity c1" "lf_num c' = lf_num c1 + 1" "lf_type c' = lf_type c1"
    "lf_width c' = lf_width c1" "take (lf_num c1 + 1) (lf_keys c') = take (lf_num c1) (lf_keys c1) @ [oid]"
    by auto
  have u: "unat (of_nat (lf_num c1) :: vid_t) = lf_num c1" using vid_inject(2) room(2) c1(3) by simp
  have "lf_insert stdh oid insert_safe c = Some (Some (of_nat (lf_num c1)), c')"
    unfolding lf_insert_def c1(1) using u c1(5,7) oid(2) c'(1) by (simp add: Let_def lf_capacity_def)
  then show ?thesis using c' c1 by simp
qed


section \<open>The contract\<close>

text \<open>
  What the vertex table relies on: lookups return, an inserted key gets the next id and is found with
  it, other keys keep theirs, and two keys never share an id.
\<close>

locale key_index =
  fixes ok :: "'s \<Rightarrow> bool" and get :: "'s \<Rightarrow> property_t \<Rightarrow> vid_t option option"
    and ins :: "property_t \<Rightarrow> bool \<Rightarrow> 's \<Rightarrow> (vid_t option \<times> 's) option"
    and num cap :: "'s \<Rightarrow> nat" and fits :: "'s \<Rightarrow> property_t \<Rightarrow> bool"
  assumes get_total: "ok s \<Longrightarrow> get s k \<noteq> None"
    and get_range: "ok s \<Longrightarrow> get s k = Some (Some v) \<Longrightarrow> unat v < num s"
    and get_inj: "ok s \<Longrightarrow> get s k = Some (Some v) \<Longrightarrow> get s q = Some (Some v) \<Longrightarrow> k = q"
    and num_le: "ok s \<Longrightarrow> num s \<le> cap s \<and> num s < 2 ^ 32 - 1"
    and ins_fresh: "ok s \<Longrightarrow> fits s k \<Longrightarrow> get s k = Some None \<Longrightarrow> num s < cap s \<Longrightarrow> num s < 2 ^ 32 - 2 \<Longrightarrow>
      \<exists>s'. ins k safe s = Some (Some (of_nat (num s)), s') \<and> ok s' \<and> num s' = num s + 1 \<and> cap s' = cap s \<and>
        fits s' = fits s \<and> (\<forall>q. get s' q = (if q = k then Some (Some (of_nat (num s))) else get s q))"
begin

fun ins_all :: "property_t list \<Rightarrow> 's \<Rightarrow> (vid_t option list \<times> 's) option" where
  "ins_all [] s = Some ([], s)"
| "ins_all (k # ks) s =
     do { (v, s) \<leftarrow> ins k False s; (vs, s) \<leftarrow> ins_all ks s; Some (v # vs, s) }"

lemma ins_all_fresh:
  assumes "ok s" "\<forall>k\<in>set ks. fits s k \<and> get s k = Some None" "distinct ks"
    "num s + length ks \<le> cap s" "num s + length ks < 2 ^ 32 - 1"
  shows "\<exists>s'. ins_all ks s = Some (map (\<lambda>i. Some (of_nat (num s + i))) [0..<length ks], s') \<and> ok s' \<and>
    num s' = num s + length ks \<and> cap s' = cap s \<and>
    (\<forall>i<length ks. get s' (ks ! i) = Some (Some (of_nat (num s + i)))) \<and>
    (\<forall>q. q \<notin> set ks \<longrightarrow> get s' q = get s q)"
  using assms
proof (induction ks arbitrary: s)
  case (Cons k ks)
  obtain s1 where s1: "ins k False s = Some (Some (of_nat (num s)), s1)" "ok s1" "num s1 = num s + 1"
    "cap s1 = cap s" "fits s1 = fits s" "\<forall>q. get s1 q = (if q = k then Some (Some (of_nat (num s))) else get s q)"
    using ins_fresh [of s k False] Cons.prems by auto
  have new: "fits s1 q \<and> get s1 q = Some None" if "q \<in> set ks" for q
    using that s1(5) s1(6) [rule_format, of q] Cons.prems(2,3) by auto
  obtain s2 where s2: "ins_all ks s1 = Some (map (\<lambda>i. Some (of_nat (num s1 + i))) [0..<length ks], s2)" "ok s2"
    "num s2 = num s1 + length ks" "cap s2 = cap s1"
    "\<forall>i<length ks. get s2 (ks ! i) = Some (Some (of_nat (num s1 + i)))"
    "\<forall>q. q \<notin> set ks \<longrightarrow> get s2 q = get s1 q"
    using Cons.IH [OF s1(2)] new Cons.prems(3-5) s1(3,4) by auto
  have ids: "map (\<lambda>i. Some (of_nat (num s + i) :: vid_t)) [0..<length (k # ks)] =
      Some (of_nat (num s)) # map (\<lambda>i. Some (of_nat (num s1 + i))) [0..<length ks]"
    by (subst upt_conv_Cons) (simp_all add: map_Suc_upt [symmetric] s1(3) del: upt_Suc)
  have "get s2 ((k # ks) ! i) = Some (Some (of_nat (num s + i)))" if "i < length (k # ks)" for i
  proof (cases i)
    case 0
    then show ?thesis using s2(6) [rule_format, of k] s1(6) [rule_format, of k] Cons.prems(3) by simp
  next
    case (Suc j)
    then show ?thesis using s2(5) [rule_format, of j] that s1(3) by simp
  qed
  moreover have "get s2 q = get s q" if "q \<notin> set (k # ks)" for q
    using that s2(6) [rule_format, of q] s1(6) [rule_format, of q] by simp
  moreover have "ins_all (k # ks) s = Some (map (\<lambda>i. Some (of_nat (num s + i))) [0..<length (k # ks)], s2)"
    unfolding ids using s1(1) s2(1) by simp
  ultimately show ?case using s2(2-4) s1(3,4) by auto
qed simp

end

definition lf_fits :: "lfi \<Rightarrow> property_t \<Rightarrow> bool" where
  "lf_fits c oid \<longleftrightarrow> prop_type oid = lf_type c \<and> store_key (lf_width c) oid = Some oid"

lemma abs_index_Some:
  assumes "keys_ok c" "abs_index c oid = Some v"
  obtains i where "i < lf_num c" "lf_keys c ! i = oid" "v = of_nat i"
proof -
  obtain i where i: "i < lf_num c" "lf_keys c ! i = oid" using assms abs_index_None [OF assms(1), of oid] by auto
  then have "v = of_nat i" using abs_index_nth [OF assms(1) i(1)] assms(2) by simp
  then show thesis using that i by blast
qed

lemma lf_ok_keys: "lf_ok stdh c \<Longrightarrow> keys_ok c"
  by (simp add: lf_ok_def)

lemma num_small: "keys_ok c \<Longrightarrow> i < lf_num c \<Longrightarrow> i < 2 ^ 32 - 1"
  by (simp add: keys_ok_def)

lemma abs_index_snoc:
  assumes "take (lf_num c') (lf_keys c') = take (lf_num c) (lf_keys c) @ [oid]" "keys_ok c" "abs_index c oid = None"
  shows "abs_index c' q = (if q = oid then Some (of_nat (lf_num c)) else abs_index c q)"
proof -
  have new: "oid \<notin> set (take (lf_num c) (lf_keys c))" using assms(3) by (simp add: abs_index_def split: if_splits)
  have "length (take (lf_num c) (lf_keys c)) = lf_num c" using assms(2) by (simp add: keys_ok_def lf_capacity_def)
  moreover have "position_of q (xs @ [oid]) = (if q \<in> set xs then position_of q xs else length xs)"
    if "q \<in> set xs \<or> q = oid" for xs
    using that by (induction xs) auto
  ultimately show ?thesis using new by (auto simp: abs_index_def assms(1))
qed

interpretation lf: key_index "\<lambda>c. lf_ok stdh c \<and> lf_capacity c < 2 ^ 58" "lf_get_index stdh" "lf_insert stdh" lf_num
  lf_capacity lf_fits
proof unfold_locales
  fix s k v q safe
  assume ok: "lf_ok stdh s \<and> lf_capacity s < 2 ^ 58"
  note get = lf_get_index_abs [OF conjunct1 [OF ok]] and k = lf_ok_keys [OF conjunct1 [OF ok]]
  show "lf_get_index stdh s k \<noteq> None" by (simp add: get)
  show "lf_num s \<le> lf_capacity s \<and> lf_num s < 2 ^ 32 - 1" using k by (simp add: keys_ok_def)
  show "unat v < lf_num s" if "lf_get_index stdh s k = Some (Some v)"
  proof -
    have "abs_index s k = Some v" using that by (simp add: get)
    then obtain i where "i < lf_num s" "v = of_nat i" using abs_index_Some [OF k] by blast
    then show ?thesis using vid_inject(2) [OF num_small [OF k]] by simp
  qed
  show "k = q" if "lf_get_index stdh s k = Some (Some v)" "lf_get_index stdh s q = Some (Some v)"
  proof -
    have "abs_index s k = Some v" "abs_index s q = Some v" using that by (simp_all add: get)
    then obtain i j where ij: "i < lf_num s" "lf_keys s ! i = k" "v = of_nat i" "j < lf_num s" "lf_keys s ! j = q"
      "v = of_nat j" using abs_index_Some [OF k] by metis
    then have "i = j" using vid_inject(2) [OF num_small [OF k]] by metis
    then show ?thesis using ij by simp
  qed
  show "\<exists>s'. lf_insert stdh k safe s = Some (Some (of_nat (lf_num s)), s') \<and>
      (lf_ok stdh s' \<and> lf_capacity s' < 2 ^ 58) \<and> lf_num s' = lf_num s + 1 \<and>
      lf_capacity s' = lf_capacity s \<and> lf_fits s' = lf_fits s \<and>
      (\<forall>q. lf_get_index stdh s' q = (if q = k then Some (Some (of_nat (lf_num s))) else lf_get_index stdh s q))"
    if fits: "lf_fits s k" and new: "lf_get_index stdh s k = Some None" and room: "lf_num s < lf_capacity s"
      and small: "lf_num s < 2 ^ 32 - 2"
  proof -
    have fresh: "abs_index s k = None" using new by (simp add: get)
    have f: "prop_type k = lf_type s" "store_key (lf_width s) k = Some k" using fits by (simp_all add: lf_fits_def)
    obtain s' where s': "lf_insert stdh k safe s = Some (Some (of_nat (lf_num s)), s')" "lf_ok stdh s'"
      "lf_num s' = lf_num s + 1" "lf_type s' = lf_type s" "lf_width s' = lf_width s"
      "take (lf_num s') (lf_keys s') = take (lf_num s) (lf_keys s) @ [k]" "lf_capacity s' = lf_capacity s"
      using lf_insert_spec [OF conjunct1 [OF ok] disjI2 [OF room] small conjunct2 [OF ok] f fresh, of safe] room
      by blast
    have "lf_fits s' = lf_fits s" by (simp add: fun_eq_iff lf_fits_def s'(4,5))
    moreover have "lf_get_index stdh s' q = (if q = k then Some (Some (of_nat (lf_num s))) else lf_get_index stdh s q)"
      for q unfolding lf_get_index_abs [OF s'(2)] get abs_index_snoc [OF s'(6) k fresh] by simp
    ultimately show ?thesis using s' ok by simp
  qed
qed

section \<open>Properties\<close>

lemma store_key_short: "store_key w oid = Some oid" if "\<And>s. oid = PVarchar s \<Longrightarrow> length s < w"
  using that by (cases oid) (auto simp: store_key_def)

text \<open>An index without keys, and one of a single key.\<close>

definition lf_example :: lfi where
  "lf_example = the (lf_init kInt64 None)"

lemma lf_init_ok:
  assumes "lf_init type w = Some c"
  shows "lf_ok stdh c" "lf_num c = 0" "lf_capacity c = 0" "lf_type c = type"
  using assms
  by (auto simp: lf_init_def lf_ok_def keys_ok_def lf_capacity_def mod_functions_def split: if_splits)

lemma lf_example:
  "lf_init kInt64 None = Some lf_example" "lf_ok stdh lf_example" "lf_num lf_example = 0" "lf_capacity lf_example = 0"
  "lf_type lf_example = kInt64"
proof -
  show *: "lf_init kInt64 None = Some lf_example" by (simp add: lf_example_def lf_init_def)
  show "lf_ok stdh lf_example" "lf_num lf_example = 0" "lf_capacity lf_example = 0" "lf_type lf_example = kInt64"
    using lf_init_ok [OF *] by blast+
qed

lemma lf_example_get: "lf_get_index stdh lf_example q = Some None"
  by (simp add: lf_example_def lf_init_def lf_get_index_def)

definition lf_single :: lfi where
  "lf_single = \<lparr>lf_keys = [PInt32 7, PInt32 0, PInt32 0, PInt32 0], lf_indices = 0 # replicate 10 sentinel, lf_num = 1,
     lf_slots1 = 10, lf_mod = 11, lf_type = kInt32, lf_width = 256\<rparr>"

lemma lf_single_ok: "lf_ok (\<lambda>_. 0) lf_single"
proof -
  have "reaches (0 # replicate 10 sentinel) 0 0" by (simp add: reaches_def slot_def exI [of _ 0])
  moreover have "lf_home (\<lambda>_. 0) lf_single (PInt32 7) = 0"
    by (simp add: lf_home_def GHash_def index_for_hash_def lf_single_def)
  moreover have "(11::nat) \<in> set mod_functions" by (simp add: mod_functions_def prime_list_def)
  moreover have "unat ((0 # replicate 10 sentinel) ! j) < 1"
    if "j < 11" "(0 # replicate 10 sentinel) ! j \<noteq> sentinel" for j :: nat
    using that by (cases j) simp_all
  ultimately show ?thesis
    by (simp add: lf_ok_def keys_ok_def table_ok_def lf_capacity_def lf_single_def occupied_def)
qed

lemma mod_functions_bound: "\<forall>m\<in>set mod_functions. m < 2 ^ 64"
  by (simp add: mod_functions_def prime_list_def)

lemma length_mod_functions: "length mod_functions < 2 ^ 64"
  by (simp add: mod_functions_def prime_list_def)

lemma find_absent:
  assumes "occupied inds < length inds" "s < length inds"
    "\<And>j. j < length inds \<Longrightarrow> inds ! j \<noteq> sentinel \<Longrightarrow> \<not> prop_eq (keys ! unat (inds ! j)) oid"
  shows "lf_find keys inds (length inds) oid s = Some None"
proof -
  obtain j where j: "j < length inds" "inds ! j = sentinel" using free_slot_exists [OF assms(1)] .
  have "slot (length inds) s d < length inds" for d using assms(2) by (intro slot_less) linarith
  then show ?thesis using lf_find_returns [OF j assms(2), of keys oid] assms(3) by blast
qed

text \<open>
  C9. Inserting a key that is not in the index gives it the next vertex id, whether the table has room
  or grows first; afterwards a lookup finds the key with this id and every other key with the result
  it had before.
\<close>

theorem lf_insert_get_index:
  assumes "lf_ok stdh c" and "insert_safe \<or> lf_num c < lf_capacity c" and "lf_num c < 2 ^ 32 - 2"
    and "lf_capacity c < 2 ^ 58" and "lf_fits c oid" and "lf_get_index stdh c oid = Some None"
  shows "\<exists>c'. lf_insert stdh oid insert_safe c = Some (Some (of_nat (lf_num c)), c') \<and> lf_ok stdh c' \<and>
    lf_num c' = lf_num c + 1 \<and> lf_capacity c \<le> lf_capacity c' \<and>
    (\<forall>q. lf_get_index stdh c' q = (if q = oid then Some (Some (of_nat (lf_num c))) else lf_get_index stdh c q))"
proof -
  note get = lf_get_index_abs [OF assms(1)] and k = lf_ok_keys [OF assms(1)]
  have fresh: "abs_index c oid = None" using assms(6) by (simp add: get)
  have f: "prop_type oid = lf_type c" "store_key (lf_width c) oid = Some oid" using assms(5) by (simp_all add: lf_fits_def)
  obtain c' where c': "lf_insert stdh oid insert_safe c = Some (Some (of_nat (lf_num c)), c')" "lf_ok stdh c'"
    "lf_num c' = lf_num c + 1" "take (lf_num c') (lf_keys c') = take (lf_num c) (lf_keys c) @ [oid]"
    "lf_capacity c \<le> lf_capacity c'"
    using lf_insert_spec [OF assms(1-4) f fresh] by blast
  have "lf_get_index stdh c' q = (if q = oid then Some (Some (of_nat (lf_num c))) else lf_get_index stdh c q)" for q
    unfolding lf_get_index_abs [OF c'(2)] get abs_index_snoc [OF c'(4) k fresh] by simp
  then show ?thesis using c' by blast
qed

theorem lf_insert_get_index_witness:
  "\<exists>c'. lf_insert (\<lambda>_. 0) (PInt64 7) True lf_example = Some (Some 0, c') \<and>
     lf_get_index (\<lambda>_. 0) c' (PInt64 7) = Some (Some 0) \<and> lf_get_index (\<lambda>_. 0) c' (PInt64 8) = Some None"
proof -
  have "lf_fits lf_example (PInt64 7)" by (simp add: lf_fits_def lf_example(5) store_key_def)
  from lf_insert_get_index [OF lf_example(2) disjI1 _ _ this lf_example_get, of True "\<lambda>_. 0"]
  obtain c' where c': "lf_insert (\<lambda>_. 0) (PInt64 7) True lf_example = Some (Some 0, c')"
    "\<forall>q. lf_get_index (\<lambda>_. 0) c' q = (if q = PInt64 7 then Some (Some 0) else lf_get_index (\<lambda>_. 0) lf_example q)"
    by (auto simp: lf_example)
  show ?thesis using c'(1) c'(2) [rule_format, of "PInt64 7"] c'(2) [rule_format, of "PInt64 8"]
    by (auto simp: lf_example_get)
qed

text \<open>
  C16. Reserving room returns, gives the index the capacity asked for, at least the number of keys and
  four, and changes the result of no lookup: every key survives rehashing.
\<close>

theorem lf_reserve_get_index:
  assumes "lf_ok stdh c" and "n < 2 ^ 59"
  shows "\<exists>c'. lf_reserve stdh n c = Some c' \<and> lf_ok stdh c' \<and> lf_capacity c' = max (max n (lf_num c)) 4 \<and>
    lf_num c' = lf_num c \<and> (\<forall>q. lf_get_index stdh c' q = lf_get_index stdh c q)"
proof -
  obtain c' where c': "lf_reserve stdh n c = Some c'" "lf_ok stdh c'" "lf_capacity c' = max (max n (lf_num c)) 4"
    "lf_num c' = lf_num c" "take (lf_num c) (lf_keys c') = take (lf_num c) (lf_keys c)"
    using lf_reserve_spec [OF assms] by blast
  have "lf_get_index stdh c' q = lf_get_index stdh c q" for q
    unfolding lf_get_index_abs [OF c'(2)] lf_get_index_abs [OF assms(1)] by (simp add: abs_index_def c'(4,5))
  then show ?thesis using c'(1-4) by blast
qed

theorem lf_reserve_get_index_witness:
  "\<exists>c'. lf_reserve (\<lambda>_. 0) 100 lf_example = Some c' \<and> lf_capacity c' = 100 \<and>
     lf_get_index (\<lambda>_. 0) c' (PInt64 7) = Some None"
  using lf_reserve_get_index [OF lf_example(2), of 100 "\<lambda>_. 0"] by (auto simp: lf_example lf_example_get)

text \<open>
  C24. Keys and vertex ids correspond one to one: a lookup finds a key with an id exactly when the id is
  below the number of keys and the key stored under it is the key asked for.
\<close>

theorem lf_get_index_get_key:
  assumes "lf_ok stdh c"
  shows "lf_get_index stdh c oid = Some (Some v) \<longleftrightarrow> unat v < lf_num c \<and> lf_get_key c v = Some oid"
proof -
  note k = lf_ok_keys [OF assms]
  have cap: "lf_num c \<le> lf_capacity c" using k by (simp add: keys_ok_def)
  show ?thesis unfolding lf_get_index_abs [OF assms]
  proof
    assume "Some (abs_index c oid) = Some (Some v)"
    then obtain i where i: "i < lf_num c" "lf_keys c ! i = oid" "v = of_nat i" using abs_index_Some [OF k] by blast
    then show "unat v < lf_num c \<and> lf_get_key c v = Some oid"
      using vid_inject(2) [OF num_small [OF k i(1)]] cap by (simp add: lf_get_key_def)
  next
    assume "unat v < lf_num c \<and> lf_get_key c v = Some oid"
    then have "unat v < lf_num c" "lf_keys c ! unat v = oid" using cap by (auto simp: lf_get_key_def)
    then show "Some (abs_index c oid) = Some (Some v)" using abs_index_nth [OF k, of "unat v"] by simp
  qed
qed

theorem lf_get_index_get_key_witness:
  "lf_get_key lf_single 0 = Some (PInt32 7) \<and> lf_get_index (\<lambda>_. 0) lf_single (PInt32 7) = Some (Some 0)"
  using lf_get_index_get_key [OF lf_single_ok, of "PInt32 7" 0]
  by (simp add: lf_single_def lf_get_key_def lf_capacity_def)

text \<open>
  C25. Opening the files of a dump gives the index back, with its slots and its hash function; this is
  for integer keys, whose column is dumped byte by byte.
\<close>

theorem lf_dump_open:
  assumes "lf_ok stdh c" and "lf_type c \<noteq> kVarchar" and "lf_width c = 256"
  shows "lf_open (lf_dump c) = Some c"
proof -
  have mod: "lf_mod c \<in> set mod_functions" "lf_mod c < 2 ^ 64"
    using assms(1) mod_functions_bound by (auto simp: lf_ok_def)
  have slots: "lf_slots1 c < 2 ^ 64" using assms(1) mod(2) by (auto simp: lf_ok_def table_ok_def split: if_splits)
  have num: "lf_num c < 2 ^ 64" using lf_ok_keys [OF assms(1)] by (simp add: keys_ok_def)
  have idx: "position_of (lf_mod c) mod_functions < length mod_functions"
    "mod_functions ! position_of (lf_mod c) mod_functions = lf_mod c" using position_of_nth [OF mod(1)] by blast+
  have "position_of (lf_mod c) mod_functions < 2 ^ 64" using idx(1) length_mod_functions by simp
  then have "unat (of_nat (lf_num c) :: 64 word) = lf_num c" "unat (of_nat (lf_slots1 c) :: 64 word) = lf_slots1 c"
    "unat (of_nat (position_of (lf_mod c) mod_functions) :: 64 word) = position_of (lf_mod c) mod_functions"
    using num slots by (simp_all add: unat_of_nat_less)
  moreover have "pk_type (lf_type c)" using lf_ok_keys [OF assms(1)] by (simp add: keys_ok_def)
  ultimately show ?thesis using assms(3) idx(2)
    by (simp add: lf_open_def lf_dump_def lf_dump_meta_def codec_simps c64.get_put_end lf_init_def
      get_mod_function_index_def set_mod_function_by_index_def)
qed

theorem lf_dump_open_witness:
  "lf_open (lf_dump lf_single) = Some lf_single \<and> lf_num lf_single = 1"
  using lf_dump_open [OF lf_single_ok] by (simp add: lf_single_def)

text \<open>
  C36. A string key longer than the width of the key column is stored cut off and is not found again:
  after inserting it, looking it up fails, so that a second insertion gives it another vertex id.
\<close>

theorem lf_long_key_lost:
  assumes ok: "lf_ok stdh c" and room: "lf_num c < lf_capacity c" and small: "lf_num c < 2 ^ 32 - 2"
    and type: "lf_type c = kVarchar" and long: "lf_width c < length s"
    and cut: "truncate_utf8 s (lf_width c) = Some t"
    and fresh: "lf_get_index stdh c (PVarchar s) = Some None"
  shows "\<exists>c'. lf_insert stdh (PVarchar s) insert_safe c = Some (Some (of_nat (lf_num c)), c') \<and>
    lf_get_key c' (of_nat (lf_num c)) = Some (PVarchar t) \<and> lf_get_index stdh c' (PVarchar s) = Some None"
proof -
  let ?n = "lf_num c" and ?oid = "PVarchar s"
  define c1 where "c1 = c\<lparr>lf_num := ?n + 1, lf_keys := (lf_keys c)[?n := PVarchar t]\<rparr>"
  have tab: "table_ok stdh {..<?n} c" and big: "lf_capacity c < length (lf_indices c)"
    using ok room by (auto simp: lf_ok_def split: if_splits)
  have "table_ok stdh {..<?n} (c\<lparr>lf_num := ?n + 1\<rparr>)" using tab by (simp only: table_ok_num)
  from table_ok_keys [OF this, of "lf_keys c1"] have t1: "table_ok stdh {..<?n} c1" unfolding c1_def by simp
  have i: "?n \<notin> {..<?n}" "?n < 2 ^ 32 - 1" "card {..<?n} + 1 < length (lf_indices c1)"
    using room small big by (simp_all add: c1_def)
  obtain c' j where c': "lf_place stdh ?n ?oid c1 = Some c'" "c' = c1\<lparr>lf_indices := (lf_indices c1)[j := of_nat ?n]\<rparr>"
    "j < length (lf_indices c1)" "lf_indices c1 ! j = sentinel" using lf_place_spec [OF t1 i, of ?oid] .
  have u: "unat (of_nat ?n :: vid_t) = ?n" and ns: "(of_nat ?n :: vid_t) \<noteq> sentinel" using vid_inject [OF i(2)] by blast+
  have "store_key (lf_width c) ?oid = Some (PVarchar t)" using long cut by (simp add: store_key_def)
  then have ins: "lf_insert stdh ?oid insert_safe c = Some (Some (of_nat ?n), c')"
    using room u c'(1) by (simp add: lf_insert_def c1_def lf_capacity_def)
  have key: "lf_get_key c' (of_nat ?n) = Some (PVarchar t)"
    using room u by (simp add: lf_get_key_def c'(2) c1_def lf_capacity_def)
  have absent: "lf_keys c ! m \<noteq> ?oid" if "m < ?n" for m
    using fresh abs_index_None [OF lf_ok_keys [OF ok], of ?oid] that by (simp add: lf_get_index_abs [OF ok])
  have "t \<noteq> s" using truncate_utf8_length [OF cut] long by auto
  then have no: "\<not> prop_eq (lf_keys c' ! m) ?oid" if "m \<le> ?n" for m
    using absent [of m] that room by (cases "m = ?n") (auto simp: prop_eq_pk c'(2) c1_def lf_capacity_def)
  have entries: "\<not> prop_eq (lf_keys c' ! unat (lf_indices c' ! k)) ?oid"
    if "k < length (lf_indices c')" "lf_indices c' ! k \<noteq> sentinel" for k
  proof (rule no)
    show "unat (lf_indices c' ! k) \<le> ?n"
      using that table_okD(8) [OF t1, of k] u by (cases "k = j") (auto simp: c'(2))
  qed
  have "occupied (lf_indices c') < length (lf_indices c')"
    using occupied_update [OF c'(3,4) ns] table_okD(3) [OF t1] i(3) by (simp add: c'(2))
  moreover have "lf_home stdh c' ?oid < length (lf_indices c')" "lf_slots1 c' + 1 = length (lf_indices c')"
    using home_less [of c' stdh ?oid] table_okD(1,2) [OF t1] by (simp_all add: c'(2))
  ultimately have "lf_lookup stdh c' ?oid = Some None"
    unfolding lf_lookup_def using find_absent [OF _ _ entries] by simp
  then show ?thesis using ins key by (auto simp: lf_get_index_def)
qed

definition lf_strings :: lfi where
  "lf_strings = \<lparr>lf_keys = replicate 4 (PVarchar []), lf_indices = replicate 11 sentinel, lf_num = 0, lf_slots1 = 10,
     lf_mod = 11, lf_type = kVarchar, lf_width = 3\<rparr>"

theorem lf_long_key_lost_witness:
  "\<exists>c'. lf_insert (\<lambda>_. 0) (PVarchar [0x61, 0x62, 0x63, 0x64]) False lf_strings = Some (Some 0, c') \<and>
     lf_get_key c' 0 = Some (PVarchar [0x61, 0x62, 0x63]) \<and>
     lf_get_index (\<lambda>_. 0) c' (PVarchar [0x61, 0x62, 0x63, 0x64]) = Some None"
proof -
  have "(11::nat) \<in> set mod_functions" by (simp add: mod_functions_def prime_list_def)
  moreover have "table_ok (\<lambda>_. 0) {} lf_strings" by (rule table_ok_empty [of 11]) (simp_all add: lf_strings_def)
  ultimately have ok: "lf_ok (\<lambda>_. 0) lf_strings" by (simp add: lf_ok_def keys_ok_def lf_capacity_def lf_strings_def)
  have "utf8_loop [0x61, 0x62, 0x63, 0x64] 3 0 = Some 3"
    by (subst utf8_loop.simps, simp add: utf8_char_length_def)+
  then have cut: "truncate_utf8 [0x61, 0x62, 0x63, 0x64] (lf_width lf_strings) = Some [0x61, 0x62, 0x63]"
    by (simp add: truncate_utf8_def lf_strings_def)
  have "abs_index lf_strings q = None" for q by (simp add: abs_index_def lf_strings_def)
  then have "lf_get_index (\<lambda>_. 0) lf_strings q = Some None" for q by (simp add: lf_get_index_abs [OF ok])
  from lf_long_key_lost [OF ok _ _ _ _ cut this, of False] show ?thesis
    by (simp add: lf_strings_def lf_capacity_def)
qed

section \<open>The column of string keys\<close>

text \<open>
  For string keys the list \<open>lf_keys\<close> stands for what the string column reads back; resizing and
  writing the column are the list operations of the index.
\<close>

definition scol_keys :: "scol \<Rightarrow> property_t list" where
  "scol_keys c = map (\<lambda>i. PVarchar (the (get_view i c))) [0..<scol_size c]"

lemma scol_keys_resize:
  assumes "scol_ok c"
  shows "scol_keys (scol_resize n c) = grow_to (key_zero kVarchar) n (scol_keys c)"
proof (rule nth_equalityI)
  show "length (scol_keys (scol_resize n c)) = length (grow_to (key_zero kVarchar) n (scol_keys c))"
    using scol_resize_spec(2) [OF assms] by (simp add: scol_keys_def)
  show "scol_keys (scol_resize n c) ! i = grow_to (key_zero kVarchar) n (scol_keys c) ! i"
    if "i < length (scol_keys (scol_resize n c))" for i
    using that scol_resize_spec(2,3) [OF assms, where n = n]
    by (simp add: scol_keys_def nth_grow_to key_zero_def)
qed

lemma scol_keys_set:
  assumes "scol_ok c" and "store_key (sc_width c) (PVarchar s) = Some key" and "idx < scol_size c"
    and "sc_pos c + length s < 2 ^ 48"
  shows "\<exists>c'. set_any idx s c = Some (Inr c') \<and> scol_ok c' \<and> scol_keys c' = (scol_keys c)[idx := key]"
proof -
  obtain v where v: "stored s c = Some v" "key = PVarchar v"
    using assms(2) by (auto simp: store_key_def stored_def split: if_splits)
  obtain c' where c': "set_any idx s c = Some (Inr c')" "scol_ok c'" "scol_size c' = scol_size c"
    "\<forall>i. get_view i c' = (if i = idx then Some v else get_view i c)"
    using set_any_spec [OF assms(1) v(1) assms(3,4)] by blast
  have "scol_keys c' = (scol_keys c)[idx := key]"
  proof (rule nth_equalityI)
    show "length (scol_keys c') = length ((scol_keys c)[idx := key])" by (simp add: scol_keys_def c'(3))
    show "scol_keys c' ! i = (scol_keys c)[idx := key] ! i" if "i < length (scol_keys c')" for i
      using that c'(3) c'(4) [rule_format, of i] v(2) assms(3) by (simp add: scol_keys_def nth_list_update)
  qed
  then show ?thesis using c' by blast
qed

end
