(* ===== verification/Property_Table.thy ===== *)
theory Property_Table
  imports String_Column Data_Type
begin

text \<open>
  Property columns and tables: \<^verbatim>\<open>TypedColumn\<close> of \<^verbatim>\<open>include/neug/utils/property/column.h\<close>
  with \<^verbatim>\<open>CreateColumn\<close>, and \<^verbatim>\<open>Table\<close> of \<^verbatim>\<open>src/utils/property/table.cc\<close>. A column
  of a fixed-size type is the list of its values, a string column is that of \<^verbatim>\<open>String_Column\<close>.
  The array of column addresses that \<^verbatim>\<open>Table\<close> keeps beside its columns is not stored twice. A
  value of another type than the column fails an assertion, the error \<open>TypeMismatch\<close>; the outer
  \<open>None\<close> is a truncation of a string that does not return.

  The lemmas show that a row reads back as it was written and that adding, deleting and renaming
  columns changes the lookup by name exactly as expected as long as names stay distinct, and what goes
  wrong otherwise. The locale \<open>column_store\<close> is the contract of a column for the table.
\<close>

section \<open>Columns\<close>

datatype column = EmptyCol | FixedCol "8 word" "property_t list" | StrCol scol

text \<open>The value that zero bytes stand for.\<close>

definition zero_value :: "8 word \<Rightarrow> property_t" where
  "zero_value t =
     (if t = kBoolean then PBool False else if t = kInt32 then PInt32 0 else if t = kUInt32 then PUInt32 0
      else if t = kInt64 then PInt64 0 else if t = kUInt64 then PUInt64 0 else if t = kFloat then PFloat 0
      else if t = kDouble then PDouble 0 else if t = kDate then PDate 0
      else if t = kTimestampMs then PDateTime 0 else PInterval 0 0 0)"

definition fixed_types :: "8 word list" where
  "fixed_types = [kBoolean, kInt32, kUInt32, kInt64, kUInt64, kFloat, kDouble, kDate, kTimestampMs, kInterval]"

definition create_column :: "data_type \<Rightarrow> column option" where
  "create_column type =
     (if dt_id type \<in> set fixed_types then Some (FixedCol (dt_id type) [])
      else if dt_id type = kVarchar
      then let max_length = (case type of DVarchar n \<Rightarrow> unat (ucast n :: 16 word) | _ \<Rightarrow> 256)
           in Some (StrCol \<lparr>sc_items = [], sc_data = [], sc_pos = 0, sc_width = max_length\<rparr>)
      else if dt_id type = kEmpty then Some EmptyCol
      else None)"

fun col_type :: "column \<Rightarrow> 8 word" where
  "col_type EmptyCol = kEmpty"
| "col_type (FixedCol t vs) = t"
| "col_type (StrCol c) = kVarchar"

fun col_size :: "column \<Rightarrow> nat" where
  "col_size EmptyCol = 0"
| "col_size (FixedCol t vs) = length vs"
| "col_size (StrCol c) = scol_size c"

fun col_get_prop :: "nat \<Rightarrow> column \<Rightarrow> property_t option" where
  "col_get_prop i EmptyCol = Some PEmpty"
| "col_get_prop i (FixedCol t vs) = (if i < length vs then Some (vs ! i) else None)"
| "col_get_prop i (StrCol c) = map_option PVarchar (get_view i c)"

type_synonym 'a result = "(column_error + 'a) option"

definition rmap :: "('a \<Rightarrow> 'b) \<Rightarrow> 'a result \<Rightarrow> 'b result" where
  "rmap f r = map_option (map_sum id f) r"

fun rbind :: "'a result \<Rightarrow> ('a \<Rightarrow> 'b result) \<Rightarrow> 'b result" where
  "rbind None f = None"
| "rbind (Some (Inl e)) f = Some (Inl e)"
| "rbind (Some (Inr x)) f = f x"

fun col_set_any :: "nat \<Rightarrow> property_t \<Rightarrow> column \<Rightarrow> column result" where
  "col_set_any i v EmptyCol = Some (Inr EmptyCol)"
| "col_set_any i v (FixedCol t vs) =
     (if prop_type v \<noteq> t then Some (Inl TypeMismatch)
      else if i < length vs then Some (Inr (FixedCol t (vs[i := v]))) else Some (Inl IndexOutOfRange))"
| "col_set_any i v (StrCol c) =
     (if i \<ge> scol_size c then Some (Inl IndexOutOfRange)
      else case v of PVarchar s \<Rightarrow> rmap StrCol (set_any i s c) | _ \<Rightarrow> Some (Inl TypeMismatch))"

fun col_resize :: "nat \<Rightarrow> column \<Rightarrow> column" where
  "col_resize n EmptyCol = EmptyCol"
| "col_resize n (FixedCol t vs) = FixedCol t (grow_to (zero_value t) n vs)"
| "col_resize n (StrCol c) = StrCol (scol_resize n c)"

fun col_resize_default :: "nat \<Rightarrow> property_t \<Rightarrow> column \<Rightarrow> column result" where
  "col_resize_default n v EmptyCol = Some (Inr EmptyCol)"
| "col_resize_default n v (FixedCol t vs) =
     (if prop_type v \<noteq> t then Some (Inl TypeMismatch) else Some (Inr (FixedCol t (grow_to v n vs))))"
| "col_resize_default n v (StrCol c) = rmap StrCol (scol_resize_default n v c)"

section \<open>Tables\<close>

record table =
  col_names :: "string list"
  col_id_map :: "string \<Rightarrow> nat option"
  columns :: "column list"

definition table_new :: table where
  "table_new = \<lparr>col_names = [], col_id_map = Map.empty, columns = []\<rparr>"

text \<open>\<^verbatim>\<open>unordered_map::insert\<close> keeps the entry that is there.\<close>

definition map_insert :: "'k \<Rightarrow> 'v \<Rightarrow> ('k \<Rightarrow> 'v option) \<Rightarrow> ('k \<Rightarrow> 'v option)" where
  "map_insert k v m = (case m k of None \<Rightarrow> m(k \<mapsto> v) | Some _ \<Rightarrow> m)"

definition add_name :: "string \<Rightarrow> table \<Rightarrow> table" where
  "add_name name t =
     t\<lparr>col_id_map := map_insert name (length (col_names t)) (col_id_map t), col_names := col_names t @ [name]\<rparr>"

text \<open>
  \<^verbatim>\<open>initColumns\<close>, for a list of types as long as that of the names; the columns are cut to the
  number of different names.
\<close>

definition init_columns :: "string list \<Rightarrow> data_type list \<Rightarrow> table \<Rightarrow> table option" where
  "init_columns names types t =
     map_option (\<lambda>cs. (fold add_name names table_new)\<lparr>columns := take (card (set names)) cs\<rparr>)
       (those (map create_column types))"

text \<open>One step per column, with the value at the same position.\<close>

fun each_column :: "(property_t \<Rightarrow> 'c \<Rightarrow> 'c result) \<Rightarrow> property_t list \<Rightarrow> 'c list \<Rightarrow> 'c list result"
  where
  "each_column f (v # vs) (c # cs) = rbind (f v c) (\<lambda>c. rmap ((#) c) (each_column f vs cs))"
| "each_column f _ _ = Some (Inr [])"

text \<open>
  \<^verbatim>\<open>add_columns\<close>: the new columns go to the positions from the number of names on, which is the
  number of columns. The files the columns open, named by their positions, and the exception for an
  unknown memory level are left out.
\<close>

definition add_columns ::
  "string list \<Rightarrow> data_type list \<Rightarrow> property_t list \<Rightarrow> nat \<Rightarrow> table \<Rightarrow> table result" where
  "add_columns names types default_values capacity t =
     (if length default_values \<noteq> length names then Some (Inl SizeMismatch)
      else case those (map create_column types) of
             None \<Rightarrow> Some (Inl UnsupportedType)
           | Some cs \<Rightarrow>
               rmap (\<lambda>cs. (fold add_name names t)\<lparr>columns := columns t @ cs\<rparr>)
                 (each_column (col_resize_default capacity) default_values cs))"

definition rename_column :: "string \<Rightarrow> string \<Rightarrow> table \<Rightarrow> table" where
  "rename_column old_name new_name t =
     (case col_id_map t old_name of
        Some col_id \<Rightarrow>
          t\<lparr>col_id_map := map_insert new_name col_id ((col_id_map t)(old_name := None)),
            col_names := (col_names t)[col_id := new_name]\<rparr>
      | None \<Rightarrow> t)"

definition remove_at :: "nat \<Rightarrow> 'a list \<Rightarrow> 'a list" where
  "remove_at i xs = take i xs @ drop (Suc i) xs"

definition delete_column :: "string \<Rightarrow> table \<Rightarrow> table" where
  "delete_column name t =
     (case col_id_map t name of
        Some col_id \<Rightarrow>
          t\<lparr>columns := remove_at col_id (columns t), col_names := remove_at col_id (col_names t),
            col_id_map := (\<lambda>n. map_option (\<lambda>i. if i > col_id then i - 1 else i)
              (((col_id_map t)(name := None)) n))\<rparr>
      | None \<Rightarrow> t)"

definition reset_header :: "string list \<Rightarrow> table \<Rightarrow> table option" where
  "reset_header names t =
     (let m = fold (\<lambda>(i, n) m. map_insert n i m) (enumerate 0 names) Map.empty
      in if length names \<le> length (col_names t) \<and> length names = card (set names)
         then Some (t\<lparr>col_names := names @ drop (length names) (col_names t), col_id_map := m\<rparr>) else None)"

definition get_column_id_by_name :: "string \<Rightarrow> table \<Rightarrow> int" where
  "get_column_id_by_name name t = (case col_id_map t name of Some i \<Rightarrow> int i | None \<Rightarrow> - 1)"

definition get_column :: "string \<Rightarrow> table \<Rightarrow> column option" where
  "get_column name t =
     (case col_id_map t name of
        Some col_id \<Rightarrow> if col_id < length (columns t) then Some (columns t ! col_id) else None
      | None \<Rightarrow> None)"

definition get_column_by_id :: "nat \<Rightarrow> table \<Rightarrow> column option" where
  "get_column_by_id i t = (if i \<ge> length (columns t) then None else Some (columns t ! i))"

definition table_size :: "table \<Rightarrow> nat" where
  "table_size t = (if columns t = [] then 0 else col_size (hd (columns t)))"

definition get_row :: "nat \<Rightarrow> table \<Rightarrow> property_t list option" where
  "get_row row t = those (map (col_get_prop row) (columns t))"

definition table_insert :: "nat \<Rightarrow> property_t list \<Rightarrow> table \<Rightarrow> table result" where
  "table_insert index values t =
     (if length values \<noteq> length (columns t) then Some (Inl SizeMismatch)
      else rmap (\<lambda>cs. t\<lparr>columns := cs\<rparr>) (each_column (col_set_any index) values (columns t)))"

definition table_resize :: "nat \<Rightarrow> table \<Rightarrow> table" where
  "table_resize row_num t = t\<lparr>columns := map (col_resize row_num) (columns t)\<rparr>"

definition table_resize_default :: "nat \<Rightarrow> property_t list \<Rightarrow> table \<Rightarrow> table result" where
  "table_resize_default row_num default_values t =
     (if length default_values \<noteq> length (columns t) then Some (Inl SizeMismatch)
      else rmap (\<lambda>cs. t\<lparr>columns := cs\<rparr>)
        (each_column (col_resize_default row_num) default_values (columns t)))"

definition table_close :: "table \<Rightarrow> table" where
  "table_close t = t\<lparr>columns := []\<rparr>"

section \<open>Rows\<close>

lemma rmap_Some [simp]: "rmap f (Some (Inr x)) = Some (Inr (f x))"
  by (simp add: rmap_def)

lemma each_column_spec:
  assumes "length vs = length cs" "\<And>k. k < length cs \<Longrightarrow> f (vs ! k) (cs ! k) = Some (Inr (g k))"
  shows "each_column f vs cs = Some (Inr (map g [0..<length cs]))"
  using assms
proof (induction vs cs arbitrary: g rule: list_induct2)
  case (Cons v vs c cs)
  have "f v c = Some (Inr (g 0))" using Cons.prems [of 0] by simp
  moreover have "each_column f vs cs = Some (Inr (map (\<lambda>k. g (Suc k)) [0..<length cs]))"
    by (rule Cons.IH) (use Cons.prems [of "Suc _"] in simp)
  ultimately show ?case by (simp add: map_upt_Suc del: upt_Suc)
qed simp

text \<open>
  The contract of a column: a write succeeds when the row exists and the column takes the value, the
  row then reads as the value the column keeps, and other rows read as before; growing keeps the rows
  and fills the new ones with the default.
\<close>

locale column_store =
  fixes ok :: "'c \<Rightarrow> bool" and size :: "'c \<Rightarrow> nat" and row :: "nat \<Rightarrow> 'c \<Rightarrow> bool"
    and get :: "nat \<Rightarrow> 'c \<Rightarrow> property_t option" and put :: "nat \<Rightarrow> property_t \<Rightarrow> 'c \<Rightarrow> 'c result"
    and grow :: "nat \<Rightarrow> property_t \<Rightarrow> 'c \<Rightarrow> 'c result" and keeps :: "'c \<Rightarrow> property_t \<Rightarrow> property_t option"
  assumes put_get: "ok c \<Longrightarrow> row i c \<Longrightarrow> keeps c v = Some w \<Longrightarrow>
      \<exists>c'. put i v c = Some (Inr c') \<and> ok c' \<and> size c' = size c \<and> (\<forall>j. row j c' = row j c) \<and>
        (\<forall>j. get j c' = (if j = i then Some w else get j c))"
    and grow_get: "ok c \<Longrightarrow> keeps c v = Some w \<Longrightarrow> size c \<le> n \<Longrightarrow>
      \<exists>c'. grow n v c = Some (Inr c') \<and> ok c' \<and> (\<forall>j. row j c' \<longleftrightarrow> row j c \<or> j < n) \<and>
        (\<forall>j<n. get j c' = (if row j c then get j c else Some w))"
begin

lemma put_row:
  assumes "length vs = length cs" "length ws = length cs"
    "\<And>k. k < length cs \<Longrightarrow> ok (cs ! k) \<and> row i (cs ! k) \<and> keeps (cs ! k) (vs ! k) = Some (ws ! k)"
  shows "\<exists>cs'. each_column (put i) vs cs = Some (Inr cs') \<and> length cs' = length cs \<and>
    (\<forall>k<length cs. ok (cs' ! k) \<and> size (cs' ! k) = size (cs ! k) \<and> (\<forall>j. row j (cs' ! k) = row j (cs ! k)) \<and>
      (\<forall>j. get j (cs' ! k) = (if j = i then Some (ws ! k) else get j (cs ! k))))"
proof -
  have "\<forall>k. \<exists>c'. k < length cs \<longrightarrow> put i (vs ! k) (cs ! k) = Some (Inr c') \<and> ok c' \<and> size c' = size (cs ! k) \<and>
      (\<forall>j. row j c' = row j (cs ! k)) \<and> (\<forall>j. get j c' = (if j = i then Some (ws ! k) else get j (cs ! k)))"
    using put_get assms(3) by blast
  then obtain g where g: "\<And>k. k < length cs \<Longrightarrow> put i (vs ! k) (cs ! k) = Some (Inr (g k)) \<and> ok (g k) \<and>
      size (g k) = size (cs ! k) \<and> (\<forall>j. row j (g k) = row j (cs ! k)) \<and>
      (\<forall>j. get j (g k) = (if j = i then Some (ws ! k) else get j (cs ! k)))"
    using choice [of "\<lambda>k c'. k < length cs \<longrightarrow> put i (vs ! k) (cs ! k) = Some (Inr c') \<and> ok c' \<and> size c' = size (cs ! k) \<and>
      (\<forall>j. row j c' = row j (cs ! k)) \<and> (\<forall>j. get j c' = (if j = i then Some (ws ! k) else get j (cs ! k)))"] by blast
  have "each_column (put i) vs cs = Some (Inr (map g [0..<length cs]))"
    by (rule each_column_spec [OF assms(1)]) (use g in blast)
  then show ?thesis using g by (intro exI [of _ "map g [0..<length cs]"]) simp
qed

lemma grow_all:
  assumes "length vs = length cs" "length ws = length cs"
    "\<And>k. k < length cs \<Longrightarrow> ok (cs ! k) \<and> size (cs ! k) \<le> n \<and> keeps (cs ! k) (vs ! k) = Some (ws ! k)"
  shows "\<exists>cs'. each_column (grow n) vs cs = Some (Inr cs') \<and> length cs' = length cs \<and>
    (\<forall>k<length cs. ok (cs' ! k) \<and> (\<forall>j. row j (cs' ! k) \<longleftrightarrow> row j (cs ! k) \<or> j < n) \<and>
      (\<forall>j<n. get j (cs' ! k) = (if row j (cs ! k) then get j (cs ! k) else Some (ws ! k))))"
proof -
  let ?P = "\<lambda>k c'. grow n (vs ! k) (cs ! k) = Some (Inr c') \<and> ok c' \<and> (\<forall>j. row j c' \<longleftrightarrow> row j (cs ! k) \<or> j < n) \<and>
      (\<forall>j<n. get j c' = (if row j (cs ! k) then get j (cs ! k) else Some (ws ! k)))"
  have "\<forall>k. \<exists>c'. k < length cs \<longrightarrow> ?P k c'" using grow_get assms(3) by blast
  then obtain g where g: "\<And>k. k < length cs \<Longrightarrow> ?P k (g k)"
    using choice [of "\<lambda>k c'. k < length cs \<longrightarrow> ?P k c'"] by blast
  have "each_column (grow n) vs cs = Some (Inr (map g [0..<length cs]))"
    by (rule each_column_spec [OF assms(1)]) (use g in blast)
  then show ?thesis using g by (intro exI [of _ "map g [0..<length cs]"]) simp
qed

end

fun col_ok :: "column \<Rightarrow> bool" where
  "col_ok EmptyCol = True"
| "col_ok (FixedCol t vs) = (\<forall>v\<in>set vs. prop_type v = t)"
| "col_ok (StrCol c) = scol_ok c"

fun col_row :: "nat \<Rightarrow> column \<Rightarrow> bool" where
  "col_row i EmptyCol = True"
| "col_row i (FixedCol t vs) = (i < length vs)"
| "col_row i (StrCol c) = (i < scol_size c)"

text \<open>What a column keeps of a value: strings are cut, and a string column has addresses of 48 bits.\<close>

fun col_keeps :: "column \<Rightarrow> property_t \<Rightarrow> property_t option" where
  "col_keeps EmptyCol v = Some PEmpty"
| "col_keeps (FixedCol t vs) v = (if prop_type v = t then Some v else None)"
| "col_keeps (StrCol c) v =
     (case v of
        PVarchar s \<Rightarrow> if sc_pos c + length s < 2 ^ 48 then map_option PVarchar (stored s c) else None
      | _ \<Rightarrow> None)"

interpretation cs: column_store col_ok col_size col_row col_get_prop col_set_any col_resize_default col_keeps
proof unfold_locales
  fix c :: column and i v w n
  assume ok: "col_ok c" and keeps: "col_keeps c v = Some w"
  show "\<exists>c'. col_set_any i v c = Some (Inr c') \<and> col_ok c' \<and> col_size c' = col_size c \<and>
      (\<forall>j. col_row j c' = col_row j c) \<and> (\<forall>j. col_get_prop j c' = (if j = i then Some w else col_get_prop j c))"
    if row: "col_row i c"
  proof (cases c)
    case (FixedCol t vs)
    then show ?thesis using ok keeps row
      by (auto simp: nth_list_update split: if_splits dest!: subsetD [OF set_update_subset_insert])
  next
    case (StrCol c0)
    then obtain s u where s: "v = PVarchar s" "stored s c0 = Some u" "w = PVarchar u" "sc_pos c0 + length s < 2 ^ 48"
      using keeps by (auto split: property_t.splits if_splits)
    have i: "scol_ok c0" "i < scol_size c0" using ok row StrCol by simp_all
    obtain c1 where "set_any i s c0 = Some (Inr c1)" "scol_ok c1" "scol_size c1 = scol_size c0"
      "\<forall>j. get_view j c1 = (if j = i then Some u else get_view j c0)"
      using set_any_spec [OF i(1) s(2) i(2) s(4)] by blast
    then show ?thesis using StrCol s i(2) by (intro exI [of _ "StrCol c1"]) simp
  qed (use keeps in simp)
  show "\<exists>c'. col_resize_default n v c = Some (Inr c') \<and> col_ok c' \<and> (\<forall>j. col_row j c' \<longleftrightarrow> col_row j c \<or> j < n) \<and>
      (\<forall>j<n. col_get_prop j c' = (if col_row j c then col_get_prop j c else Some w))"
    if size: "col_size c \<le> n"
  proof (cases c)
    case (FixedCol t vs)
    then show ?thesis using ok keeps size
      by (auto simp: nth_append grow_to_def split: if_splits)
  next
    case (StrCol c0)
    then obtain s u where s: "v = PVarchar s" "stored s c0 = Some u" "w = PVarchar u" "sc_pos c0 + length s < 2 ^ 48"
      using keeps by (auto split: property_t.splits if_splits)
    have i: "scol_ok c0" "scol_size c0 \<le> n" using ok size StrCol by simp_all
    have "sc_pos c0 + length u < 2 ^ 48" using stored_shorter [OF s(2)] s(4) by simp
    from scol_resize_default_spec [OF i(1) s(2) i(2) this]
    obtain c1 where "scol_resize_default n (PVarchar s) c0 = Some (Inr c1)" "scol_ok c1" "scol_size c1 = n"
      "\<forall>j<n. get_view j c1 = (if j < scol_size c0 then get_view j c0 else Some u)" by blast
    then show ?thesis using StrCol s i(2) by (intro exI [of _ "StrCol c1"]) auto
  qed (use keeps in simp)
qed

section \<open>Names\<close>

definition names_wf :: "table \<Rightarrow> bool" where
  "names_wf t \<longleftrightarrow> distinct (col_names t) \<and>
     (\<forall>n i. col_id_map t n = Some i \<longleftrightarrow> i < length (col_names t) \<and> col_names t ! i = n)"

definition table_wf :: "table \<Rightarrow> bool" where
  "table_wf t \<longleftrightarrow> names_wf t \<and> length (columns t) = length (col_names t)"

lemma names_wf_None: "names_wf t \<Longrightarrow> col_id_map t n = None \<longleftrightarrow> n \<notin> set (col_names t)"
  unfolding names_wf_def by (metis in_set_conv_nth option.distinct(1) option.exhaust)

lemma add_name_wf:
  assumes wf: "names_wf t" and new: "n \<notin> set (col_names t)"
  shows "names_wf (add_name n t)"
proof -
  have none: "col_id_map t n = None" using names_wf_None [OF wf] new by simp
  have "col_id_map (add_name n t) m = Some i \<longleftrightarrow>
      i < length (col_names (add_name n t)) \<and> col_names (add_name n t) ! i = m" for m i
  proof (cases "m = n")
    case True
    then show ?thesis using none new nth_mem [of i "col_names t"]
      by (auto simp: add_name_def map_insert_def nth_append)
  next
    case False
    have "col_id_map t m = Some i \<longleftrightarrow> i < length (col_names t) \<and> col_names t ! i = m"
      using wf by (simp add: names_wf_def)
    then show ?thesis using False none by (auto simp: add_name_def map_insert_def nth_append)
  qed
  moreover have "distinct (col_names (add_name n t))" using wf new by (simp add: add_name_def names_wf_def)
  ultimately show ?thesis unfolding names_wf_def by blast
qed

lemma fold_add_name:
  assumes "names_wf t" "distinct ns" "set ns \<inter> set (col_names t) = {}"
  shows "names_wf (fold add_name ns t) \<and> col_names (fold add_name ns t) = col_names t @ ns \<and>
    columns (fold add_name ns t) = columns t"
  using assms
proof (induction ns arbitrary: t)
  case (Cons n ns)
  have "names_wf (add_name n t)" using add_name_wf [OF Cons.prems(1)] Cons.prems(3) by simp
  moreover have "col_names (add_name n t) = col_names t @ [n]" "columns (add_name n t) = columns t"
    by (simp_all add: add_name_def)
  ultimately show ?case using Cons.IH [of "add_name n t"] Cons.prems(2,3) by auto
qed simp

lemma table_wfD:
  assumes "table_wf t"
  shows "distinct (col_names t)" "length (columns t) = length (col_names t)"
    "col_id_map t n = Some i \<longleftrightarrow> i < length (col_names t) \<and> col_names t ! i = n"
    "col_id_map t n = None \<longleftrightarrow> n \<notin> set (col_names t)"
proof -
  show "distinct (col_names t)" "length (columns t) = length (col_names t)"
    and id: "col_id_map t n = Some i \<longleftrightarrow> i < length (col_names t) \<and> col_names t ! i = n" for i
    using assms by (simp_all add: table_wf_def names_wf_def)
  show "col_id_map t n = None \<longleftrightarrow> n \<notin> set (col_names t)"
    using id by (cases "col_id_map t n") (auto simp: in_set_conv_nth)
qed

lemma get_column_wf:
  assumes "table_wf t"
  shows "get_column n t = Some c \<longleftrightarrow> (\<exists>i<length (col_names t). col_names t ! i = n \<and> columns t ! i = c)"
proof -
  have "get_column n t = Some c \<longleftrightarrow> (\<exists>i. col_id_map t n = Some i \<and> i < length (columns t) \<and> columns t ! i = c)"
    by (auto simp: get_column_def split: option.splits)
  then show ?thesis using table_wfD(2,3) [OF assms] by auto
qed

lemma length_remove_at: "i < length xs \<Longrightarrow> length (remove_at i xs) = length xs - 1"
  by (simp add: remove_at_def)

lemma nth_remove_at:
  "i < length xs \<Longrightarrow> j < length xs - 1 \<Longrightarrow> remove_at i xs ! j = xs ! (if j < i then j else Suc j)"
  by (auto simp: remove_at_def nth_append min_def)

lemma distinct_remove_at: "distinct xs \<Longrightarrow> distinct (remove_at i xs)"
  by (simp add: remove_at_def set_take_disj_set_drop_if_distinct)

text \<open>Positions before and after a deletion.\<close>

definition skip :: "nat \<Rightarrow> nat \<Rightarrow> nat" where
  "skip i j = (if j < i then j else Suc j)"

lemma skip_inverse: "k \<noteq> i \<Longrightarrow> skip i (if k > i then k - 1 else k) = k" "(if skip i j > i then skip i j - 1 else skip i j) = j"
  "skip i j \<noteq> i"
  by (auto simp: skip_def)

lemma delete_column_wf:
  assumes wf: "table_wf t" and n: "col_id_map t n = Some i"
  shows "table_wf (delete_column n t)"
    and "get_column m (delete_column n t) = (if m = n then None else get_column m t)"
proof -
  note f = table_wfD [OF wf]
  let ?t = "delete_column n t" and ?l = "length (col_names t)"
  have i: "i < ?l" "col_names t ! i = n" using n f(3) by blast+
  have t': "columns ?t = remove_at i (columns t)" "col_names ?t = remove_at i (col_names t)"
    "col_id_map ?t m = map_option (\<lambda>k. if k > i then k - 1 else k) (if m = n then None else col_id_map t m)" for m
    by (simp_all add: delete_column_def n)
  have len: "length (col_names ?t) = ?l - 1" "length (columns ?t) = ?l - 1" using i f(2) by (simp_all add: t' length_remove_at)
  have nth: "col_names ?t ! j = col_names t ! skip i j" "columns ?t ! j = columns t ! skip i j" if "j < ?l - 1" for j
    using that i f(2) by (simp_all add: t' nth_remove_at skip_def)
  have other: "col_names t ! k \<noteq> n" if "k < ?l" "k \<noteq> i" for k
    using that i f(1) by (metis nth_eq_iff_index_eq)
  have "col_id_map ?t m = Some j \<longleftrightarrow> j < ?l - 1 \<and> col_names ?t ! j = m" for m j
  proof
    assume "col_id_map ?t m = Some j"
    then have mj: "map_option (\<lambda>k. if k > i then k - 1 else k) (if m = n then None else col_id_map t m) = Some j"
      by (simp only: t'(3))
    then have "m \<noteq> n" by auto
    then obtain k where k: "m \<noteq> n" "col_id_map t m = Some k" "j = (if k > i then k - 1 else k)"
      using mj by (cases "col_id_map t m") simp_all
    then have "k < ?l" "col_names t ! k = m" "k \<noteq> i" using f(3) i by auto
    moreover from this have "j < ?l - 1" "skip i j = k" using k(3) i skip_inverse(1) [of k i] by auto
    ultimately show "j < ?l - 1 \<and> col_names ?t ! j = m" using nth by simp
  next
    assume j: "j < ?l - 1 \<and> col_names ?t ! j = m"
    then have k: "skip i j < ?l" "col_names t ! skip i j = m" using nth by (auto simp: skip_def)
    then have "m \<noteq> n" using other skip_inverse(3) by blast
    moreover have "col_id_map t m = Some (skip i j)" using f(3) k by blast
    ultimately have "col_id_map ?t m = Some (if skip i j > i then skip i j - 1 else skip i j)" by (simp add: t'(3))
    then show "col_id_map ?t m = Some j" unfolding skip_inverse(2) .
  qed
  then show wf': "table_wf ?t" using distinct_remove_at [OF f(1)] len by (simp add: table_wf_def names_wf_def t'(2))
  have eq: "get_column m ?t = Some c \<longleftrightarrow> m \<noteq> n \<and> get_column m t = Some c" for c
  proof -
    have "get_column m ?t = Some c \<longleftrightarrow> (\<exists>j<?l - 1. col_names t ! skip i j = m \<and> columns t ! skip i j = c)"
      unfolding get_column_wf [OF wf'] len using nth by auto
    also have "\<dots> \<longleftrightarrow> (\<exists>k<?l. k \<noteq> i \<and> col_names t ! k = m \<and> columns t ! k = c)"
    proof
      assume "\<exists>j<?l - 1. col_names t ! skip i j = m \<and> columns t ! skip i j = c"
      then obtain j where "j < ?l - 1" "col_names t ! skip i j = m" "columns t ! skip i j = c" by blast
      then show "\<exists>k<?l. k \<noteq> i \<and> col_names t ! k = m \<and> columns t ! k = c"
        by (intro exI [of _ "skip i j"]) (auto simp: skip_def)
    next
      assume "\<exists>k<?l. k \<noteq> i \<and> col_names t ! k = m \<and> columns t ! k = c"
      then obtain k where k: "k < ?l" "k \<noteq> i" "col_names t ! k = m" "columns t ! k = c" by blast
      then show "\<exists>j<?l - 1. col_names t ! skip i j = m \<and> columns t ! skip i j = c"
        using skip_inverse(1) [OF k(2)] i by (intro exI [of _ "if k > i then k - 1 else k"]) auto
    qed
    also have "\<dots> \<longleftrightarrow> m \<noteq> n \<and> get_column m t = Some c" unfolding get_column_wf [OF wf] using other i by metis
    finally show ?thesis .
  qed
  show "get_column m ?t = (if m = n then None else get_column m t)"
  proof (cases "get_column m ?t")
    case (Some c)
    from Some eq [THEN iffD1, OF Some] show ?thesis by simp
  next
    case None
    then have "\<not> (m \<noteq> n \<and> get_column m t = Some c)" for c using eq [THEN iffD2, of c] by (metis option.distinct(1))
    then show ?thesis using None by (cases "get_column m t") auto
  qed
qed

lemma rename_column_wf:
  assumes wf: "table_wf t" and n: "col_id_map t old = Some i" and new: "new = old \<or> new \<notin> set (col_names t)"
  shows "table_wf (rename_column old new t)"
    and "get_column m (rename_column old new t) =
      (if m = new then get_column old t else if m = old then None else get_column m t)"
proof -
  note f = table_wfD [OF wf]
  let ?t = "rename_column old new t" and ?l = "length (col_names t)"
  have i: "i < ?l" "col_names t ! i = old" using n f(3) by blast+
  have "((col_id_map t)(old := None)) new = None" using new f(4) by auto
  then have t': "columns ?t = columns t" "col_names ?t = (col_names t)[i := new]"
    "col_id_map ?t m = (if m = new then Some i else if m = old then None else col_id_map t m)" for m
    by (simp_all add: rename_column_def n map_insert_def)
  have other: "col_names t ! k \<noteq> old" "col_names t ! k \<noteq> new" if "k < ?l" "k \<noteq> i" for k
  proof -
    show "col_names t ! k \<noteq> old" using that i f(1) by (metis nth_eq_iff_index_eq)
    then show "col_names t ! k \<noteq> new" using new that nth_mem by metis
  qed
  have "col_id_map ?t m = Some j \<longleftrightarrow> j < ?l \<and> col_names ?t ! j = m" for m j
    using i other f(3) [of m j] by (cases "j = i") (auto simp: t')
  moreover have "distinct (col_names ?t)"
    using f(1) new i distinct_list_update [of "col_names t" new i] by (auto simp: t'(2))
  ultimately show "table_wf ?t" using f(2) by (simp add: table_wf_def names_wf_def t'(1,2))
  show "get_column m ?t = (if m = new then get_column old t else if m = old then None else get_column m t)"
    unfolding get_column_def t' by (simp add: n)
qed

section \<open>Properties\<close>

definition table_example :: table where
  "table_example = \<lparr>col_names = [''name'', ''age'', ''city''],
     col_id_map = [''name'' \<mapsto> 0, ''age'' \<mapsto> 1, ''city'' \<mapsto> 2],
     columns = [FixedCol kInt32 [PInt32 1, PInt32 2], FixedCol kInt64 [PInt64 30, PInt64 40],
       FixedCol kBoolean [PBool True, PBool False]]\<rparr>"

lemma table_example_wf: "table_wf table_example"
  by (auto simp: table_wf_def names_wf_def table_example_def nth_Cons split: nat.splits)

text \<open>
  C26. Deleting a column renumbers the columns after it consistently: afterwards the name finds no
  column, and every other name finds the column it found before.
\<close>

theorem delete_column_get_column:
  assumes "table_wf t" and "n \<in> set (col_names t)"
  shows "table_wf (delete_column n t) \<and>
    (\<forall>m. get_column m (delete_column n t) = (if m = n then None else get_column m t))"
proof -
  obtain i where "col_id_map t n = Some i" using table_wfD(4) [OF assms(1), of n] assms(2) by auto
  from delete_column_wf [OF assms(1) this] show ?thesis by blast
qed

theorem delete_column_get_column_witness:
  "get_column ''city'' (delete_column ''age'' table_example) = Some (FixedCol kBoolean [PBool True, PBool False]) \<and>
   get_column ''age'' (delete_column ''age'' table_example) = None"
  using delete_column_get_column [OF table_example_wf, of "''age''"]
  by (simp add: table_example_def get_column_def)

text \<open>
  Renaming a column to a name that is not in use keeps the table well-formed, and exactly the name
  changes: the new name finds the column, the old one finds nothing, others find what they found.
\<close>

theorem rename_column_get_column:
  assumes "table_wf t" and "old \<in> set (col_names t)" and "new \<notin> set (col_names t)"
  shows "table_wf (rename_column old new t) \<and> (\<forall>m. get_column m (rename_column old new t) =
    (if m = new then get_column old t else if m = old then None else get_column m t))"
proof -
  obtain i where "col_id_map t old = Some i" using table_wfD(4) [OF assms(1), of old] assms(2) by auto
  from rename_column_wf [OF assms(1) this disjI2 [OF assms(3)]] show ?thesis by blast
qed

theorem rename_column_get_column_witness:
  "get_column ''years'' (rename_column ''age'' ''years'' table_example) = Some (FixedCol kInt64 [PInt64 30, PInt64 40])"
  using rename_column_get_column [OF table_example_wf, of "''age''" "''years''"]
  by (simp add: table_example_def get_column_def)

lemma table_insert_spec:
  assumes "length vs = length (columns t)" and "length ws = length (columns t)"
    and "\<And>k. k < length (columns t) \<Longrightarrow> col_ok (columns t ! k) \<and> col_row index (columns t ! k) \<and>
      col_keeps (columns t ! k) (vs ! k) = Some (ws ! k)"
  shows "\<exists>cs'. table_insert index vs t = Some (Inr (t\<lparr>columns := cs'\<rparr>)) \<and> length cs' = length (columns t) \<and>
    (\<forall>k<length (columns t). col_ok (cs' ! k) \<and> col_size (cs' ! k) = col_size (columns t ! k) \<and>
      (\<forall>j. col_row j (cs' ! k) = col_row j (columns t ! k))) \<and>
    get_row index (t\<lparr>columns := cs'\<rparr>) = Some ws \<and> (\<forall>j. j \<noteq> index \<longrightarrow> get_row j (t\<lparr>columns := cs'\<rparr>) = get_row j t)"
proof -
  obtain cs' where cs': "each_column (col_set_any index) vs (columns t) = Some (Inr cs')" "length cs' = length (columns t)"
    "\<forall>k<length (columns t). col_ok (cs' ! k) \<and> col_size (cs' ! k) = col_size (columns t ! k) \<and>
      (\<forall>j. col_row j (cs' ! k) = col_row j (columns t ! k)) \<and>
      (\<forall>j. col_get_prop j (cs' ! k) = (if j = index then Some (ws ! k) else col_get_prop j (columns t ! k)))"
    using cs.put_row [OF assms] by blast
  have "map (col_get_prop index) cs' = map Some ws"
    by (rule nth_equalityI) (use cs'(2,3) assms(2) in simp_all)
  moreover have "those (map Some xs) = Some xs" for xs :: "property_t list" by (induction xs) simp_all
  moreover have "map (col_get_prop j) cs' = map (col_get_prop j) (columns t)" if "j \<noteq> index" for j
    by (rule nth_equalityI) (use cs'(2,3) that in simp_all)
  ultimately show ?thesis using cs' assms(1)
    by (intro exI [of _ cs']) (simp add: table_insert_def get_row_def)
qed

text \<open>
  C21. A row reads back as it was written: inserting values into a row that exists in every column
  succeeds when every column takes its value, the row then consists of what the columns keep of the
  values, and every other row reads as before.
\<close>

theorem table_insert_get_row:
  assumes "length vs = length (columns t)" and "length ws = length (columns t)"
    and "\<And>k. k < length (columns t) \<Longrightarrow> col_ok (columns t ! k) \<and> col_row index (columns t ! k) \<and>
      col_keeps (columns t ! k) (vs ! k) = Some (ws ! k)"
  shows "\<exists>t'. table_insert index vs t = Some (Inr t') \<and> col_names t' = col_names t \<and> col_id_map t' = col_id_map t \<and>
    get_row index t' = Some ws \<and> (\<forall>j. j \<noteq> index \<longrightarrow> get_row j t' = get_row j t)"
proof -
  obtain cs' where "table_insert index vs t = Some (Inr (t\<lparr>columns := cs'\<rparr>))" "get_row index (t\<lparr>columns := cs'\<rparr>) = Some ws"
    "\<forall>j. j \<noteq> index \<longrightarrow> get_row j (t\<lparr>columns := cs'\<rparr>) = get_row j t"
    using table_insert_spec [OF assms] by blast
  then show ?thesis by (intro exI [of _ "t\<lparr>columns := cs'\<rparr>"]) simp
qed

theorem table_insert_get_row_witness:
  "\<exists>t'. table_insert 1 [PInt32 7, PInt64 8, PBool True] table_example = Some (Inr t') \<and>
     get_row 1 t' = Some [PInt32 7, PInt64 8, PBool True] \<and> get_row 0 t' = Some [PInt32 1, PInt64 30, PBool True]"
proof -
  have cols: "col_ok (columns table_example ! k) \<and> col_row 1 (columns table_example ! k) \<and>
      col_keeps (columns table_example ! k) ([PInt32 7, PInt64 8, PBool True] ! k) = Some ([PInt32 7, PInt64 8, PBool True] ! k)"
    if "k < length (columns table_example)" for k
    using that by (auto simp: table_example_def less_Suc_eq numeral_3_eq_3)
  have row0: "get_row 0 table_example = Some [PInt32 1, PInt64 30, PBool True]" by (simp add: get_row_def table_example_def)
  show ?thesis
    using table_insert_get_row [where index = 1 and t = table_example and vs = "[PInt32 7, PInt64 8, PBool True]", OF _ _ cols] row0
    by (auto simp: table_example_def)
qed

lemma create_column_fresh:
  assumes "create_column ty = Some c"
  shows "col_ok c" "col_size c = 0" "col_row j c \<Longrightarrow> c = EmptyCol"
proof -
  have "unat (w :: 16 word) < 2 ^ LENGTH(16)" for w by (rule unsigned_less)
  then have "unat (w :: 16 word) < 65536" for w by simp
  then have *: "col_ok c \<and> col_size c = 0 \<and> (col_row j c \<longrightarrow> c = EmptyCol)" for j
    using assms by (auto simp: create_column_def scol_ok_def scol_size_def split: if_splits data_type.splits)
  show "col_ok c" "col_size c = 0" "col_row j c \<Longrightarrow> c = EmptyCol" using * [of j] by blast+
qed

lemma those_nth: "those xs = Some ys \<Longrightarrow> length ys = length xs \<and> (\<forall>k<length xs. xs ! k = Some (ys ! k))"
proof (induction xs arbitrary: ys)
  case (Cons x xs)
  then obtain y zs where *: "x = Some y" "those xs = Some zs" "ys = y # zs" by (auto split: option.splits)
  from Cons.IH [OF *(2)] show ?case using * by (auto simp: nth_Cons split: nat.splits)
qed simp

lemma get_column_append:
  assumes wf: "table_wf t" "table_wf t'" and t': "col_names t' = col_names t @ ns" "columns t' = columns t @ cs"
    and m: "m \<notin> set ns"
  shows "get_column m t' = get_column m t"
proof -
  have l: "length (columns t) = length (col_names t)" by (rule table_wfD(2) [OF wf(1)])
  have "get_column m t' = Some c \<longleftrightarrow> get_column m t = Some c" for c
  proof
    assume "get_column m t' = Some c"
    then obtain i where i: "i < length (col_names t @ ns)" "(col_names t @ ns) ! i = m" "(columns t @ cs) ! i = c"
      unfolding get_column_wf [OF wf(2)] t' by blast
    have "i < length (col_names t)" using i(1,2) m nth_mem [of "i - length (col_names t)" ns] by (auto simp: nth_append split: if_splits)
    then show "get_column m t = Some c" unfolding get_column_wf [OF wf(1)] using i l by (auto simp: nth_append)
  next
    assume "get_column m t = Some c"
    then obtain i where "i < length (col_names t)" "col_names t ! i = m" "columns t ! i = c"
      unfolding get_column_wf [OF wf(1)] by blast
    then show "get_column m t' = Some c" unfolding get_column_wf [OF wf(2)] t' using l
      by (intro exI [of _ i]) (auto simp: nth_append)
  qed
  then show ?thesis by (metis option.exhaust)
qed

text \<open>
  C30. Adding columns under new names keeps the table well-formed: each new name finds a column that
  holds its default value in every row up to the capacity, and every other name finds what it found.
\<close>

theorem add_columns_get_column:
  assumes "table_wf t" and "distinct names" and "set names \<inter> set (col_names t) = {}"
    and "those (map create_column types) = Some cs" and "length types = length names"
    and "length defaults = length names" and "length ws = length names"
    and "\<And>k. k < length names \<Longrightarrow> col_keeps (cs ! k) (defaults ! k) = Some (ws ! k)"
  shows "\<exists>t'. add_columns names types defaults capacity t = Some (Inr t') \<and> table_wf t' \<and>
    (\<forall>k<length names. \<exists>c. get_column (names ! k) t' = Some c \<and>
      (\<forall>j<capacity. col_get_prop j c = Some (ws ! k))) \<and>
    (\<forall>m. m \<notin> set names \<longrightarrow> get_column m t' = get_column m t)"
proof -
  have fresh: "create_column (types ! k) = Some (cs ! k)" if "k < length names" for k
    using those_nth [OF assms(4)] assms(5) that by simp
  have l: "length cs = length names" using those_nth [OF assms(4)] assms(5) by simp
  obtain cs' where cs': "each_column (col_resize_default capacity) defaults cs = Some (Inr cs')" "length cs' = length cs"
    "\<forall>k<length cs. \<forall>j<capacity. col_get_prop j (cs' ! k) = (if col_row j (cs ! k) then col_get_prop j (cs ! k) else Some (ws ! k))"
    using cs.grow_all [of defaults cs ws capacity] assms(6-8) l create_column_fresh(1,2) [OF fresh] by auto
  have val: "col_get_prop j (cs' ! k) = Some (ws ! k)" if "k < length names" "j < capacity" for j k
    using cs'(3) that l create_column_fresh(3) [OF fresh [OF that(1)], of j] assms(8) [OF that(1)] by auto
  define t' where "t' = (fold add_name names t)\<lparr>columns := columns t @ cs'\<rparr>"
  note wf = assms(1) [unfolded table_wf_def]
  have f: "names_wf (fold add_name names t)" "col_names (fold add_name names t) = col_names t @ names"
    using fold_add_name [OF conjunct1 [OF wf] assms(2,3)] by blast+
  then have wf': "table_wf t'" using wf cs'(2) l by (simp add: table_wf_def names_wf_def t'_def)
  have t': "col_names t' = col_names t @ names" "columns t' = columns t @ cs'" by (simp_all add: t'_def f(2))
  have new: "get_column (names ! k) t' = Some (cs' ! k)" if "k < length names" for k
    unfolding get_column_wf [OF wf'] t' using that wf
    by (intro exI [of _ "length (col_names t) + k"]) (simp add: nth_append)
  have "get_column m t' = get_column m t" if "m \<notin> set names" for m
    using get_column_append [OF assms(1) wf' t' that] .
  moreover have "add_columns names types defaults capacity t = Some (Inr t')"
    using assms(4,6) cs'(1) by (simp add: add_columns_def t'_def)
  ultimately show ?thesis using wf' new val by blast
qed

theorem add_columns_get_column_witness:
  "\<exists>t' c. add_columns [''score''] [Plain kDouble] [PDouble 5] 100 table_example = Some (Inr t') \<and>
     get_column ''score'' t' = Some c \<and> col_get_prop 42 c = Some (PDouble 5) \<and>
     get_column ''age'' t' = Some (FixedCol kInt64 [PInt64 30, PInt64 40])"
proof -
  have "those (map create_column [Plain kDouble]) = Some [FixedCol kDouble []]"
    by (simp add: create_column_def fixed_types_def)
  from add_columns_get_column [where names = "[''score'']" and defaults = "[PDouble 5]" and ws = "[PDouble 5]"
      and capacity = 100, OF table_example_wf _ _ this]
  show ?thesis by (auto simp: table_example_def get_column_def)
qed

end
