(* ===== verification/Vertex_Timestamp.thy ===== *)
theory Vertex_Timestamp
  imports Archive
begin

text \<open>
  The insertion timestamps of the vertices of a label,
  \<^verbatim>\<open>include/neug/storages/graph/vertex_timestamp.h\<close> and
  \<^verbatim>\<open>src/storages/graph/vertex_timestamp.cc\<close>. Vertices below \<^verbatim>\<open>init_vertex_num_\<close>
  exist since timestamp 0 unless they are in the set of removed vertices; the others have a slot in
  an array, which holds \<^verbatim>\<open>DELETED_TIMESTAMP\<close> when the vertex does not exist.

  Vertex ids and sizes stay below \<open>2 ^ 32\<close> and are \<open>nat\<close>. A null \<^verbatim>\<open>unique_ptr\<close> is
  \<open>None\<close>; a slot that is read outside the array is undefined behaviour, the result \<open>None\<close> of a
  query or the error \<open>OutOfBounds\<close> of an update. An update returns the state it leaves behind also
  when it throws.
\<close>

section \<open>State and operations\<close>

record vts =
  init_vertex_num :: nat
  inserted_vertices :: "timestamp_t list option"
  max_vertex_num :: nat
  removed_vertices :: "nat set option"

datatype vts_error = OutOfRange | HasBeenDeleted | NotRemoved | AlreadyExists | OutOfBounds

abbreviation DELETED_TIMESTAMP :: timestamp_t where
  "DELETED_TIMESTAMP \<equiv> INVALID_TIMESTAMP"

definition vts_new :: vts where
  "vts_new = \<lparr>init_vertex_num = 0, inserted_vertices = None, max_vertex_num = 0,
     removed_vertices = None\<rparr>"

definition vts_Reset :: "vts \<Rightarrow> vts" where
  "vts_Reset s = \<lparr>init_vertex_num = 0, inserted_vertices = None, max_vertex_num = 0,
     removed_vertices = None\<rparr>"

definition vts_Init :: "vts \<Rightarrow> nat \<Rightarrow> nat \<Rightarrow> vts" where
  "vts_Init s n m =
     (if init_vertex_num s = n \<and> max_vertex_num s = m then s
      else let r = vts_Reset s; m' = max n m; capacity = m' - n
           in r\<lparr>init_vertex_num := n, max_vertex_num := m',
                inserted_vertices := (if capacity \<noteq> 0
                  then Some (replicate capacity DELETED_TIMESTAMP) else None)\<rparr>)"

definition resize_inserted_vertices :: "vts \<Rightarrow> nat \<Rightarrow> bool \<Rightarrow> vts" where
  "resize_inserted_vertices s new_size keep_front =
     (case inserted_vertices s of
        None \<Rightarrow> s\<lparr>inserted_vertices := Some (replicate new_size DELETED_TIMESTAMP)\<rparr>
      | Some xs \<Rightarrow>
          let old_size = max_vertex_num s - init_vertex_num s;
              min_size = min new_size old_size;
              kept = (if keep_front then take min_size xs
                      else let offset = old_size - min_size in take min_size (drop offset xs))
          in s\<lparr>inserted_vertices :=
                 Some (kept @ replicate (new_size - min_size) DELETED_TIMESTAMP)\<rparr>)"

definition vts_Reserve :: "vts \<Rightarrow> nat \<Rightarrow> vts" where
  "vts_Reserve s new_size =
     (if max_vertex_num s \<ge> new_size \<and> new_size > init_vertex_num s then s
      else if new_size \<le> init_vertex_num s
      then s\<lparr>inserted_vertices := None, max_vertex_num := new_size, init_vertex_num := new_size,
             removed_vertices := map_option (\<lambda>R. {v \<in> R. v < new_size}) (removed_vertices s)\<rparr>
      else (resize_inserted_vertices s (new_size - init_vertex_num s) True)
             \<lparr>max_vertex_num := new_size\<rparr>)"

definition vts_slot :: "vts \<Rightarrow> nat \<Rightarrow> timestamp_t option" where
  "vts_slot s i = (case inserted_vertices s of
      None \<Rightarrow> None
    | Some xs \<Rightarrow> if i < length xs then Some (xs ! i) else None)"

definition vts_set_slot :: "vts \<Rightarrow> nat \<Rightarrow> timestamp_t \<Rightarrow> vts" where
  "vts_set_slot s i ts =
     s\<lparr>inserted_vertices := map_option (\<lambda>xs. xs[i := ts]) (inserted_vertices s)\<rparr>"

text \<open>
  \<^verbatim>\<open>InsertVertex\<close> claims the slot with \<^verbatim>\<open>compare_exchange_weak\<close> and no loop around
  it; \<open>spurious\<close> says whether that call fails although the slot holds the expected value, as the
  C++ standard allows.
\<close>

definition InsertVertex :: "bool \<Rightarrow> vts \<Rightarrow> nat \<Rightarrow> timestamp_t \<Rightarrow> vts \<times> vts_error option" where
  "InsertVertex spurious s v ts =
     (if v < init_vertex_num s \<and> ts = 0 then (s, None)
      else let s1 = (if v < init_vertex_num s
                     then (resize_inserted_vertices s (max_vertex_num s - v) False)
                            \<lparr>init_vertex_num := v\<rparr>
                     else s);
               i = v - init_vertex_num s1
           in case vts_slot s1 i of
                None \<Rightarrow> (s1, Some OutOfBounds)
              | Some old \<Rightarrow>
                  if old = DELETED_TIMESTAMP \<and> \<not> spurious then (vts_set_slot s1 i ts, None)
                  else (s1, Some AlreadyExists))"

definition IsVertexValid :: "vts \<Rightarrow> nat \<Rightarrow> timestamp_t \<Rightarrow> bool option" where
  "IsVertexValid s v ts =
     (if v > max_vertex_num s then Some False
      else if v \<ge> init_vertex_num s
      then map_option (\<lambda>t. t \<le> ts) (vts_slot s (v - init_vertex_num s))
      else case removed_vertices s of None \<Rightarrow> Some True | Some R \<Rightarrow> Some (v \<notin> R))"

text \<open>The count starts from the low vertices, subtracts the removed ones and adds the slots.\<close>

definition ValidVertexNum :: "vts \<Rightarrow> timestamp_t \<Rightarrow> nat \<Rightarrow> nat" where
  "ValidVertexNum s ts limit0 =
     (let limit = min limit0 (max_vertex_num s);
          valid_num = min (init_vertex_num s) limit
            - (case removed_vertices s of None \<Rightarrow> 0 | Some R \<Rightarrow> card {v \<in> R. v < limit})
      in if limit \<le> init_vertex_num s then valid_num
         else valid_num + length (filter (\<lambda>t. t \<le> ts)
                (take (limit - init_vertex_num s) (case inserted_vertices s of None \<Rightarrow> [] | Some xs \<Rightarrow> xs))))"

definition RemoveVertex :: "vts \<Rightarrow> nat \<Rightarrow> vts \<times> (vts_error + timestamp_t)" where
  "RemoveVertex s v =
     (if v \<ge> max_vertex_num s then (s, Inl OutOfRange)
      else if v \<ge> init_vertex_num s
      then let i = v - init_vertex_num s
           in case vts_slot s i of
                None \<Rightarrow> (s, Inl OutOfBounds)
              | Some old_ts \<Rightarrow>
                  if old_ts = DELETED_TIMESTAMP then (s, Inl HasBeenDeleted)
                  else (vts_set_slot s i DELETED_TIMESTAMP, Inr old_ts)
      else (s\<lparr>removed_vertices := Some (insert v (case removed_vertices s of None \<Rightarrow> {} | Some R \<Rightarrow> R))\<rparr>,
            Inr 0))"

definition RevertRemoveVertex :: "vts \<Rightarrow> nat \<Rightarrow> timestamp_t \<Rightarrow> vts \<times> vts_error option" where
  "RevertRemoveVertex s v old_ts =
     (if v \<ge> init_vertex_num s then (vts_set_slot s (v - init_vertex_num s) old_ts, None)
      else case removed_vertices s of
             None \<Rightarrow> (s, Some NotRemoved)
           | Some R \<Rightarrow> (s\<lparr>removed_vertices := Some (R - {v})\<rparr>, None))"

definition IsRemoved :: "vts \<Rightarrow> nat \<Rightarrow> bool option" where
  "IsRemoved s v =
     (if v \<ge> max_vertex_num s then Some False
      else if v \<ge> init_vertex_num s
      then map_option (\<lambda>t. t = DELETED_TIMESTAMP) (vts_slot s (v - init_vertex_num s))
      else case removed_vertices s of None \<Rightarrow> Some False | Some R \<Rightarrow> Some (v \<in> R))"

text \<open>The vertices that \<^verbatim>\<open>foreach_vertex\<close> calls its function on, in order.\<close>

definition vts_foreach :: "vts \<Rightarrow> nat \<Rightarrow> timestamp_t \<Rightarrow> nat list" where
  "vts_foreach s vnum ts =
     (let limit = min vnum (max_vertex_num s);
          low = (case removed_vertices s of
                   Some R \<Rightarrow> filter (\<lambda>i. i \<notin> R) [0..<init_vertex_num s]
                 | None \<Rightarrow> [0..<init_vertex_num s])
      in if limit \<le> init_vertex_num s then low
         else low @ map (\<lambda>i. i + init_vertex_num s)
                (filter (\<lambda>i. case vts_slot s i of None \<Rightarrow> False
                           | Some t \<Rightarrow> t \<noteq> DELETED_TIMESTAMP \<and> t \<le> ts)
                  [0..<limit - init_vertex_num s]))"

definition ResetTimestamps :: "vts \<Rightarrow> vts" where
  "ResetTimestamps s =
     (let num = max_vertex_num s - init_vertex_num s
      in s\<lparr>inserted_vertices := map_option
             (\<lambda>xs. map (\<lambda>t. if t \<noteq> DELETED_TIMESTAMP then 0 else t) (take num xs) @ drop num xs)
             (inserted_vertices s)\<rparr>)"

definition vts_Compact :: "vts \<Rightarrow> vts" where
  "vts_Compact s0 =
     (let s = ResetTimestamps s0
      in case inserted_vertices s of
           None \<Rightarrow> s
         | Some xs \<Rightarrow>
             let num = max_vertex_num s - init_vertex_num s;
                 first_non_zero = length (takeWhile (\<lambda>t. t = 0) (take num xs))
             in if first_non_zero > 0
                then (resize_inserted_vertices s (num - first_non_zero) False)
                       \<lparr>init_vertex_num := init_vertex_num s + first_non_zero\<rparr>
                else s)"

text \<open>The file: all fields are 32-bit integers; a \<^verbatim>\<open>std::set\<close> is written in ascending order.\<close>

definition dump_ts :: "vts \<Rightarrow> bytes" where
  "dump_ts s =
     (let vec_size = max_vertex_num s - init_vertex_num s
      in put32 (of_nat (init_vertex_num s)) @ put32 (of_nat (max_vertex_num s)) @
         (case removed_vertices s of
            Some R \<Rightarrow> put32 (of_nat (card R)) @ concat (map (\<lambda>v. put32 (of_nat v)) (sorted_list_of_set R))
          | None \<Rightarrow> put32 0) @
         put32 (of_nat vec_size) @
         concat (map put32 (case inserted_vertices s of None \<Rightarrow> [] | Some xs \<Rightarrow> take vec_size xs)))"

definition load_ts :: "vts \<Rightarrow> bytes \<Rightarrow> vts option" where
  "load_ts s0 bs = do {
     (n, r1) \<leftarrow> get32 bs;
     (m, r2) \<leftarrow> get32 r1;
     let s1 = s0\<lparr>init_vertex_num := unat n, max_vertex_num := unat m\<rparr>;
     let s2 = vts_Init s1 (unat n) (unat m);
     (removed_size, r3) \<leftarrow> get32 r2;
     (removed, r4) \<leftarrow> get_items get32 (unat removed_size) r3;
     let s3 = (if unat removed_size > 0
               then s2\<lparr>removed_vertices := Some
                      ((case removed_vertices s2 of None \<Rightarrow> {} | Some R \<Rightarrow> R) \<union> set (map unat removed))\<rparr>
               else s2);
     (vec_size, r5) \<leftarrow> get32 r4;
     let s4 = resize_inserted_vertices s3 (unat vec_size) True;
     (ts, r6) \<leftarrow> get_items get32 (unat vec_size) r5;
     Some (s4\<lparr>inserted_vertices :=
       map_option (\<lambda>xs. ts @ drop (length ts) xs) (inserted_vertices s4)\<rparr>)
   }"

definition vts_Dump :: "vts \<Rightarrow> vts \<times> bytes" where
  "vts_Dump s = (let c = vts_Compact (ResetTimestamps s) in (c, dump_ts c))"

definition vts_Open :: "vts \<Rightarrow> bytes option \<Rightarrow> vts option" where
  "vts_Open s file = (case file of Some bs \<Rightarrow> load_ts s bs | None \<Rightarrow> Some (vts_Init s 0 4096))"

section \<open>Well-formedness and the abstract view\<close>

definition vts_wf :: "vts \<Rightarrow> bool" where
  "vts_wf s \<longleftrightarrow> init_vertex_num s \<le> max_vertex_num s \<and>
     (case inserted_vertices s of None \<Rightarrow> init_vertex_num s = max_vertex_num s
      | Some xs \<Rightarrow> length xs = max_vertex_num s - init_vertex_num s) \<and>
     (\<forall>R. removed_vertices s = Some R \<longrightarrow> R \<subseteq> {..<init_vertex_num s})"

text \<open>The timestamp since which a vertex exists.\<close>

definition slots :: "vts \<Rightarrow> timestamp_t list" where
  "slots s = (case inserted_vertices s of None \<Rightarrow> [] | Some xs \<Rightarrow> xs)"

definition gone :: "vts \<Rightarrow> nat set" where
  "gone s = (case removed_vertices s of None \<Rightarrow> {} | Some R \<Rightarrow> R)"

definition vts_at :: "vts \<Rightarrow> nat \<Rightarrow> timestamp_t" where
  "vts_at s v =
     (if v < init_vertex_num s then (if v \<in> gone s then DELETED_TIMESTAMP else 0)
      else if v < max_vertex_num s then slots s ! (v - init_vertex_num s)
      else DELETED_TIMESTAMP)"

lemma vts_wf_simps:
  assumes "vts_wf s"
  shows "length (slots s) = max_vertex_num s - init_vertex_num s"
    and "init_vertex_num s \<le> max_vertex_num s" and "gone s \<subseteq> {..<init_vertex_num s}"
  using assms by (auto simp: vts_wf_def slots_def gone_def split: option.splits)

lemma vts_slot_eq: "vts_slot s i = (if i < length (slots s) then Some (slots s ! i) else None)"
  by (auto simp: vts_slot_def slots_def split: option.splits)

lemma slots_set_slot [simp]: "slots (vts_set_slot s i ts) = (slots s)[i := ts]"
  by (auto simp: slots_def vts_set_slot_def split: option.splits)

lemma set_slot_frame [simp]:
  "init_vertex_num (vts_set_slot s i ts) = init_vertex_num s"
  "max_vertex_num (vts_set_slot s i ts) = max_vertex_num s"
  "removed_vertices (vts_set_slot s i ts) = removed_vertices s"
  "gone (vts_set_slot s i ts) = gone s"
  by (simp_all add: vts_set_slot_def gone_def)

lemma vts_wf_set_slot: "vts_wf s \<Longrightarrow> vts_wf (vts_set_slot s i ts)"
  by (auto simp: vts_wf_def vts_set_slot_def split: option.splits)

lemma vts_at_set_slot:
  assumes "vts_wf s" and "init_vertex_num s \<le> v" and "v < max_vertex_num s"
  shows "vts_at (vts_set_slot s (v - init_vertex_num s) ts) = (vts_at s)(v := ts)"
  using assms vts_wf_simps [OF assms(1)] by (intro ext) (auto simp: vts_at_def nth_list_update)

lemma vts_new_wf: "vts_wf vts_new"
  by (simp add: vts_wf_def vts_new_def)

lemma vts_Init_wf: "vts_wf s \<Longrightarrow> vts_wf (vts_Init s n m)"
  by (auto simp: vts_Init_def vts_wf_def vts_Reset_def Let_def)

lemma IsVertexValid_at:
  assumes "vts_wf s" and "v < max_vertex_num s" and "ts \<noteq> DELETED_TIMESTAMP"
  shows "IsVertexValid s v ts = Some (vts_at s v \<le> ts)"
proof -
  have "\<not> DELETED_TIMESTAMP \<le> ts"
    using assms(3) timestamp_le_INVALID [of ts] by (meson order.antisym)
  then show ?thesis
    using assms vts_wf_simps [OF assms(1)]
    by (auto simp: IsVertexValid_def vts_at_def vts_slot_eq gone_def split: option.splits)
qed

lemma IsRemoved_at:
  assumes "vts_wf s" and "v < max_vertex_num s"
  shows "IsRemoved s v = Some (vts_at s v = DELETED_TIMESTAMP)"
proof -
  have "(0 :: timestamp_t) \<noteq> DELETED_TIMESTAMP" by (simp add: INVALID_TIMESTAMP_def)
  then show ?thesis
    using assms vts_wf_simps [OF assms(1)]
    by (auto simp: IsRemoved_def vts_at_def vts_slot_eq gone_def split: option.splits)
qed

lemma InsertVertex_at:
  assumes "vts_wf s" and "init_vertex_num s \<le> v" and "v < max_vertex_num s"
  shows "InsertVertex False s v ts =
    (if vts_at s v = DELETED_TIMESTAMP then (vts_set_slot s (v - init_vertex_num s) ts, None)
     else (s, Some AlreadyExists))"
  using assms vts_wf_simps [OF assms(1)]
  by (auto simp: InsertVertex_def vts_at_def vts_slot_eq Let_def)

lemma RemoveVertex_at:
  assumes "vts_wf s" and "v < max_vertex_num s" and "vts_at s v \<noteq> DELETED_TIMESTAMP"
  shows "snd (RemoveVertex s v) = Inr (vts_at s v)"
    and "vts_at (fst (RemoveVertex s v)) = (vts_at s)(v := DELETED_TIMESTAMP)"
    and "vts_wf (fst (RemoveVertex s v))"
proof -
  note wf = vts_wf_simps [OF assms(1)]
  consider (slot) "init_vertex_num s \<le> v" | (low) "v < init_vertex_num s" by linarith
  then have "snd (RemoveVertex s v) = Inr (vts_at s v) \<and>
      vts_at (fst (RemoveVertex s v)) = (vts_at s)(v := DELETED_TIMESTAMP) \<and>
      vts_wf (fst (RemoveVertex s v))"
  proof cases
    case slot
    then have "vts_slot s (v - init_vertex_num s) = Some (vts_at s v)"
      using assms(2) wf by (simp add: vts_slot_eq vts_at_def)
    then have "RemoveVertex s v
        = (vts_set_slot s (v - init_vertex_num s) DELETED_TIMESTAMP, Inr (vts_at s v))"
      using assms slot by (simp add: RemoveVertex_def Let_def)
    then show ?thesis using vts_at_set_slot [OF assms(1) slot assms(2)] vts_wf_set_slot [OF assms(1)]
      by simp
  next
    case low
    then have r: "RemoveVertex s v = (s\<lparr>removed_vertices := Some (insert v (gone s))\<rparr>, Inr 0)"
      using assms(2) by (simp add: RemoveVertex_def gone_def)
    moreover have "vts_at s v = 0" using low assms(3) by (auto simp: vts_at_def split: if_splits)
    moreover have "vts_at (s\<lparr>removed_vertices := Some (insert v (gone s))\<rparr>)
        = (vts_at s)(v := DELETED_TIMESTAMP)"
      using low by (intro ext) (auto simp: vts_at_def gone_def slots_def)
    moreover have "vts_wf (s\<lparr>removed_vertices := Some (insert v (gone s))\<rparr>)"
      using assms(1) low wf by (auto simp: vts_wf_def split: option.splits)
    ultimately show ?thesis by simp
  qed
  then show "snd (RemoveVertex s v) = Inr (vts_at s v)"
    "vts_at (fst (RemoveVertex s v)) = (vts_at s)(v := DELETED_TIMESTAMP)"
    "vts_wf (fst (RemoveVertex s v))" by auto
qed

lemma RevertRemove_at:
  assumes "vts_wf s" and "v < max_vertex_num s" and "vts_at s v \<noteq> DELETED_TIMESTAMP"
  defines "r \<equiv> RevertRemoveVertex (fst (RemoveVertex s v)) v (vts_at s v)"
  shows "snd r = None" and "vts_at (fst r) = vts_at s"
proof -
  note wf = vts_wf_simps [OF assms(1)] and rm = RemoveVertex_at [OF assms(1-3)]
  have frame: "init_vertex_num (fst (RemoveVertex s v)) = init_vertex_num s"
    "max_vertex_num (fst (RemoveVertex s v)) = max_vertex_num s"
    by (auto simp: RemoveVertex_def Let_def split: option.splits)
  consider (slot) "init_vertex_num s \<le> v" | (low) "v < init_vertex_num s" by linarith
  then have "snd r = None \<and> vts_at (fst r) = vts_at s"
  proof cases
    case slot
    then have "r = (vts_set_slot (fst (RemoveVertex s v)) (v - init_vertex_num s) (vts_at s v), None)"
      using frame by (simp add: r_def RevertRemoveVertex_def)
    then show ?thesis
      using vts_at_set_slot [OF rm(3), of v "vts_at s v"] rm(2) slot assms(2) frame by simp
  next
    case low
    have new: "v \<notin> gone s" using low assms(3) by (auto simp: vts_at_def)
    have "fst (RemoveVertex s v) = s\<lparr>removed_vertices := Some (insert v (gone s))\<rparr>"
      using low assms(2) by (simp add: RemoveVertex_def gone_def)
    then have "r = (s\<lparr>removed_vertices := Some (gone s)\<rparr>, None)"
      using low new by (simp add: r_def RevertRemoveVertex_def)
    then show ?thesis by (auto simp: vts_at_def gone_def slots_def fun_eq_iff)
  qed
  then show "snd r = None" "vts_at (fst r) = vts_at s" by auto
qed

section \<open>Counting and iterating\<close>

lemma card_low:
  assumes "vts_wf s" and "ts \<noteq> DELETED_TIMESTAMP"
  shows "card {v. v < min (init_vertex_num s) n \<and> vts_at s v \<le> ts}
    = min (init_vertex_num s) n - card {v \<in> gone s. v < n}"
proof -
  note wf = vts_wf_simps [OF assms(1)]
  have "\<not> DELETED_TIMESTAMP \<le> ts"
    using assms(2) timestamp_le_INVALID [of ts] by (meson order.antisym)
  then have "{v. v < min (init_vertex_num s) n \<and> vts_at s v \<le> ts}
      = {..<min (init_vertex_num s) n} - {v \<in> gone s. v < n}"
    by (auto simp: vts_at_def split: if_splits)
  moreover have "{v \<in> gone s. v < n} \<subseteq> {..<min (init_vertex_num s) n}" using wf(3) by auto
  ultimately show ?thesis
    using finite_subset [of "{v \<in> gone s. v < n}" "{..<n}"] by (auto simp: card_Diff_subset)
qed

lemma card_slots:
  assumes "vts_wf s" and "init_vertex_num s \<le> n" and "n \<le> max_vertex_num s"
  shows "card {v. init_vertex_num s \<le> v \<and> v < n \<and> vts_at s v \<le> ts}
    = length (filter (\<lambda>t. t \<le> ts) (take (n - init_vertex_num s) (slots s)))"
proof -
  note wf = vts_wf_simps [OF assms(1)]
  let ?k = "init_vertex_num s" and ?xs = "take (n - init_vertex_num s) (slots s)"
  have "length (filter (\<lambda>t. t \<le> ts) ?xs) = card {i. i < length ?xs \<and> ?xs ! i \<le> ts}"
    by (rule length_filter_conv_card)
  also have "{i. i < length ?xs \<and> ?xs ! i \<le> ts} = {i. i < n - ?k \<and> slots s ! i \<le> ts}"
    using wf assms by auto
  also have "card \<dots> = card ((\<lambda>i. i + ?k) ` {i. i < n - ?k \<and> slots s ! i \<le> ts})"
    by (rule card_image [symmetric]) simp
  also have "(\<lambda>i. i + ?k) ` {i. i < n - ?k \<and> slots s ! i \<le> ts}
      = {v. ?k \<le> v \<and> v < n \<and> vts_at s v \<le> ts}"
  proof (intro set_eqI iffI)
    fix v assume "v \<in> {v. ?k \<le> v \<and> v < n \<and> vts_at s v \<le> ts}"
    then show "v \<in> (\<lambda>i. i + ?k) ` {i. i < n - ?k \<and> slots s ! i \<le> ts}"
      using assms(3) by (intro image_eqI [of _ _ "v - ?k"]) (auto simp: vts_at_def split: if_splits)
  qed (use assms(3) in \<open>auto simp: vts_at_def\<close>)
  finally show ?thesis by simp
qed

lemma ValidVertexNum_card:
  assumes "vts_wf s" and "ts \<noteq> DELETED_TIMESTAMP"
  shows "ValidVertexNum s ts limit
    = card {v. v < min limit (max_vertex_num s) \<and> vts_at s v \<le> ts}"
proof -
  note wf = vts_wf_simps [OF assms(1)] and low = card_low [OF assms]
  let ?n = "min limit (max_vertex_num s)" and ?k = "init_vertex_num s"
  have v: "ValidVertexNum s ts limit =
      (let valid_num = min ?k ?n - card {v \<in> gone s. v < ?n}
       in if ?n \<le> ?k then valid_num
          else valid_num + length (filter (\<lambda>t. t \<le> ts) (take (?n - ?k) (slots s))))"
    unfolding ValidVertexNum_def gone_def slots_def Let_def by (simp split: option.splits)
  show ?thesis
  proof (cases "?n \<le> ?k")
    case True
    then have "min ?k ?n = ?n" by simp
    then show ?thesis using low [of ?n] True by (simp add: v Let_def)
  next
    case False
    define n where "n = ?n"
    have n: "?k < n" "n \<le> max_vertex_num s" unfolding n_def using False by linarith simp
    have "{v. v < n \<and> vts_at s v \<le> ts} =
        {v. v < min ?k n \<and> vts_at s v \<le> ts} \<union> {v. ?k \<le> v \<and> v < n \<and> vts_at s v \<le> ts}"
      using n by auto
    then have "card {v. v < n \<and> vts_at s v \<le> ts} = card ({v. v < min ?k n \<and> vts_at s v \<le> ts}
        \<union> {v. ?k \<le> v \<and> v < n \<and> vts_at s v \<le> ts})"
      by (rule arg_cong)
    also have "\<dots> = card {v. v < min ?k n \<and> vts_at s v \<le> ts}
        + card {v. ?k \<le> v \<and> v < n \<and> vts_at s v \<le> ts}"
      by (rule card_Un_disjoint) auto
    also have "\<dots> = ValidVertexNum s ts limit"
      unfolding v n_def [symmetric] low card_slots [OF assms(1) less_imp_le [OF n(1)] n(2)]
      using n(1) by (simp add: Let_def)
    finally show ?thesis by (simp only: n_def)
  qed
qed

lemma foreach_filter:
  assumes "vts_wf s" and "ts \<noteq> DELETED_TIMESTAMP" and "init_vertex_num s \<le> vnum"
  shows "vts_foreach s vnum ts
    = filter (\<lambda>v. vts_at s v \<le> ts) [0..<min vnum (max_vertex_num s)]"
proof -
  note wf = vts_wf_simps [OF assms(1)]
  let ?k = "init_vertex_num s" and ?n = "min vnum (max_vertex_num s)"
  have no: "\<not> DELETED_TIMESTAMP \<le> ts"
    using assms(2) timestamp_le_INVALID [of ts] by (meson order.antisym)
  have k: "?k \<le> ?n" using assms(3) wf(2) by simp
  have low: "filter (\<lambda>v. vts_at s v \<le> ts) [0..<?k] = filter (\<lambda>i. i \<notin> gone s) [0..<?k]"
    by (rule filter_cong) (use no in \<open>auto simp: vts_at_def\<close>)
  have shift: "[?k..<?n] = map (\<lambda>i. i + ?k) [0..<?n - ?k]"
    using k by (simp add: map_add_upt)
  have high: "filter (\<lambda>v. vts_at s v \<le> ts) [?k..<?n]
      = map (\<lambda>i. i + ?k) (filter (\<lambda>i. case vts_slot s i of None \<Rightarrow> False
          | Some t \<Rightarrow> t \<noteq> DELETED_TIMESTAMP \<and> t \<le> ts) [0..<?n - ?k])"
    unfolding shift filter_map
    by (intro arg_cong [where f = "map (\<lambda>i. i + ?k)"] filter_cong)
      (use no wf in \<open>auto simp: vts_at_def vts_slot_eq\<close>)
  have "[0..<?n] = [0..<?k] @ [?k..<?n]" using k upt_add_eq_append [of 0 ?k "?n - ?k"] by simp
  then have "filter (\<lambda>v. vts_at s v \<le> ts) [0..<?n]
      = filter (\<lambda>i. i \<notin> gone s) [0..<?k] @ filter (\<lambda>v. vts_at s v \<le> ts) [?k..<?n]"
    using low by simp
  moreover have "(case removed_vertices s of Some R \<Rightarrow> filter (\<lambda>i. i \<notin> R) [0..<?k]
      | None \<Rightarrow> [0..<?k]) = filter (\<lambda>i. i \<notin> gone s) [0..<?k]"
    by (simp add: gone_def split: option.splits)
  ultimately show ?thesis
    using k high by (auto simp: vts_foreach_def Let_def)
qed

section \<open>Compaction\<close>

definition settle :: "timestamp_t \<Rightarrow> timestamp_t" where
  "settle t = (if t \<noteq> DELETED_TIMESTAMP then 0 else t)"

lemma settle_idem [simp]: "settle (settle t) = settle t"
  by (simp add: settle_def INVALID_TIMESTAMP_def)

lemma ResetTimestamps_wf:
  assumes "vts_wf s"
  shows "vts_wf (ResetTimestamps s)" and "slots (ResetTimestamps s) = map settle (slots s)"
    and "init_vertex_num (ResetTimestamps s) = init_vertex_num s"
    and "max_vertex_num (ResetTimestamps s) = max_vertex_num s"
    and "gone (ResetTimestamps s) = gone s"
  using assms unfolding ResetTimestamps_def vts_wf_def slots_def gone_def settle_def Let_def
  by (auto split: option.splits)

lemma vts_at_settled:
  assumes "vts_wf s" and "slots r = map settle (slots s)" and "gone r = gone s"
    and "init_vertex_num r = init_vertex_num s" and "max_vertex_num r = max_vertex_num s"
  shows "vts_at r v = settle (vts_at s v)"
  using assms vts_wf_simps [OF assms(1)]
  by (auto simp: vts_at_def) (auto simp: settle_def)

lemma compact_shift:
  fixes s :: vts
  assumes wf: "vts_wf s" and xs: "inserted_vertices s = Some xs"
  defines "k \<equiv> length (takeWhile (\<lambda>t. t = 0) xs)"
  defines "r \<equiv> (resize_inserted_vertices s (max_vertex_num s - init_vertex_num s - k) False)
      \<lparr>init_vertex_num := init_vertex_num s + k\<rparr>"
  shows "vts_wf r" and "vts_at r = vts_at s" and "max_vertex_num r = max_vertex_num s"
proof -
  let ?n = "init_vertex_num s" and ?m = "max_vertex_num s"
  have len: "length xs = ?m - ?n" and le: "?n \<le> ?m" and g: "gone s \<subseteq> {..<?n}"
    using wf xs vts_wf_simps [OF wf] by (auto simp: vts_wf_def)
  have k: "k \<le> ?m - ?n" unfolding k_def len [symmetric] by (rule length_takeWhile_le)
  have e: "?m - (?n + (?m - (?n + k))) = k" using k le by linarith
  have r: "r = s\<lparr>inserted_vertices := Some (drop k xs), init_vertex_num := ?n + k\<rparr>"
    using e len by (simp add: r_def resize_inserted_vertices_def xs Let_def min_def)
  have zero: "xs ! i = 0" if "i < k" for i
    using that nth_mem [of i "takeWhile (\<lambda>t. t = 0) xs"] set_takeWhileD
    by (fastforce simp: k_def takeWhile_nth)
  show "max_vertex_num r = max_vertex_num s" by (simp add: r)
  show "vts_wf r" using wf k len le g by (auto simp: r vts_wf_def gone_def)
  show "vts_at r = vts_at s"
  proof (rule ext)
    fix v
    consider "v < ?n" | "?n \<le> v" "v < ?n + k" | "?n + k \<le> v" by linarith
    then show "vts_at r v = vts_at s v"
    proof cases
      case 2
      then have "vts_at s v = 0" using zero [of "v - ?n"] k by (auto simp: vts_at_def slots_def xs)
      moreover have "v \<notin> gone s" using 2 g by auto
      ultimately show ?thesis using 2 by (auto simp: vts_at_def r gone_def)
    qed (auto simp: vts_at_def r gone_def slots_def xs len)
  qed
qed

lemma vts_Compact_at:
  assumes wf: "vts_wf s"
  shows "vts_wf (vts_Compact s)" and "vts_at (vts_Compact s) v = settle (vts_at s v)"
    and "max_vertex_num (vts_Compact s) = max_vertex_num s"
proof -
  let ?r = "ResetTimestamps s"
  note R = ResetTimestamps_wf [OF wf]
  have at: "vts_at ?r v = settle (vts_at s v)" by (rule vts_at_settled [OF wf R(2,5,3,4)])
  have "vts_wf (vts_Compact s) \<and> vts_at (vts_Compact s) v = settle (vts_at s v) \<and>
      max_vertex_num (vts_Compact s) = max_vertex_num s"
  proof (cases "inserted_vertices ?r")
    case None
    then show ?thesis using R at by (simp add: vts_Compact_def Let_def)
  next
    case (Some xs)
    have "length xs = max_vertex_num ?r - init_vertex_num ?r"
      using R(1) Some by (simp add: vts_wf_def)
    then have "vts_Compact s = (let k = length (takeWhile (\<lambda>t. t = 0) xs) in if k > 0
        then (resize_inserted_vertices ?r (max_vertex_num ?r - init_vertex_num ?r - k) False)
               \<lparr>init_vertex_num := init_vertex_num ?r + k\<rparr> else ?r)"
      using Some by (simp add: vts_Compact_def Let_def)
    then show ?thesis using compact_shift [OF R(1) Some] R at by (auto simp: Let_def)
  qed
  then show "vts_wf (vts_Compact s)" "vts_at (vts_Compact s) v = settle (vts_at s v)"
    "max_vertex_num (vts_Compact s) = max_vertex_num s" by auto
qed

section \<open>The file\<close>

lemma unat_vid: "n < 2 ^ 32 \<Longrightarrow> unat (of_nat n :: 32 word) = n"
  by (simp add: unat_of_nat)

lemma load_dump:
  assumes wf: "vts_wf s" and "max_vertex_num s < 2 ^ 32"
  obtains r where "load_ts vts_new (dump_ts s) = Some r" and "vts_wf r" and "vts_at r = vts_at s"
    and "max_vertex_num r = max_vertex_num s" and "init_vertex_num r = init_vertex_num s"
proof -
  let ?n = "init_vertex_num s" and ?m = "max_vertex_num s"
  let ?R = "sorted_list_of_set (gone s)" and ?xs = "slots s"
  note W = vts_wf_simps [OF wf]
  have fin: "finite (gone s)" using W(3) finite_subset by blast
  have "card (gone s) \<le> ?n" using card_mono [OF _ W(3)] by simp
  then have sizes: "?n < 2 ^ 32" "?m < 2 ^ 32" "card (gone s) < 2 ^ 32" "?m - ?n < 2 ^ 32"
    using W(2) assms(2) by auto
  have R: "map unat (map (\<lambda>v. of_nat v :: 32 word) ?R) = ?R"
    using fin W(3) sizes(1) by (auto simp: unat_vid intro!: map_idI)
  have len: "length ?R = card (gone s)" using fin by simp
  have items: "get_items get32 (length xs) (concat (map put32 xs) @ q) = Some (xs, q)" for xs q
    by (rule c32.get_items_put) (simp add: list_all_iff)
  have removed: "(case removed_vertices s of
      Some R \<Rightarrow> put32 (of_nat (card R)) @ concat (map (\<lambda>v. put32 (of_nat v)) (sorted_list_of_set R))
    | None \<Rightarrow> put32 0) = put32 (of_nat (length ?R)) @ concat (map put32 (map of_nat ?R))"
    by (auto simp: gone_def len [unfolded gone_def] comp_def split: option.splits)
  have vec: "(case inserted_vertices s of None \<Rightarrow> [] | Some xs \<Rightarrow> take (?m - ?n) xs) = ?xs"
    using W(1) by (auto simp: slots_def split: option.splits)
  have d: "dump_ts s = put32 (of_nat ?n) @ put32 (of_nat ?m) @ put32 (of_nat (length ?R)) @
      concat (map put32 (map of_nat ?R)) @ put32 (of_nat (?m - ?n)) @ concat (map put32 ?xs) @ []"
    unfolding dump_ts_def Let_def removed vec by simp
  define r where "r = \<lparr>init_vertex_num = ?n, inserted_vertices = Some ?xs, max_vertex_num = ?m,
    removed_vertices = (if gone s = {} then None else Some (gone s))\<rparr>"
  have "load_ts vts_new (dump_ts s) = Some r"
    unfolding d load_ts_def r_def
    using items [of "map of_nat ?R"] items [of ?xs "[]"] R fin sizes W(1)
    by (auto simp: codec_simps unat_vid len vts_Init_def vts_new_def Let_def
        resize_inserted_vertices_def)
  moreover have "vts_wf r" using W by (auto simp: r_def vts_wf_def)
  moreover have "vts_at r = vts_at s"
    by (auto simp: r_def vts_at_def gone_def slots_def fun_eq_iff split: option.splits)
  ultimately show ?thesis by (rule that) (simp_all add: r_def)
qed

section \<open>Properties\<close>

definition vts_example :: vts where
  "vts_example = \<lparr>init_vertex_num = 3, inserted_vertices = Some [5, DELETED_TIMESTAMP],
     max_vertex_num = 5, removed_vertices = Some {1}\<rparr>"

lemma vts_example_wf: "vts_wf vts_example"
  by (auto simp: vts_wf_def vts_example_def)

lemma vts_example_at:
  "vts_at vts_example 0 = 0" "vts_at vts_example 1 = DELETED_TIMESTAMP" "vts_at vts_example 2 = 0"
  "vts_at vts_example 3 = 5" "vts_at vts_example 4 = DELETED_TIMESTAMP"
  by (simp_all add: vts_at_def vts_example_def gone_def slots_def)

text \<open>
  C31. The three ways to read the vertices at a timestamp agree: iteration visits, in ascending
  order, exactly the vertices whose validity test succeeds, and the count is the number of them.
\<close>

theorem vts_readers_agree:
  assumes "vts_wf s" and "ts \<noteq> DELETED_TIMESTAMP" and "init_vertex_num s \<le> n"
    and "n \<le> max_vertex_num s"
  shows "vts_foreach s n ts = filter (\<lambda>v. IsVertexValid s v ts = Some True) [0..<n] \<and>
    ValidVertexNum s ts n = length (vts_foreach s n ts)"
proof -
  have n: "min n (max_vertex_num s) = n" using assms(4) by simp
  have "vts_foreach s n ts = filter (\<lambda>v. vts_at s v \<le> ts) [0..<n]"
    using foreach_filter [OF assms(1-3)] n by simp
  also have "\<dots> = filter (\<lambda>v. IsVertexValid s v ts = Some True) [0..<n]"
    by (rule filter_cong) (use IsVertexValid_at [OF assms(1) _ assms(2)] assms(4) in auto)
  finally have f: "vts_foreach s n ts = filter (\<lambda>v. IsVertexValid s v ts = Some True) [0..<n]" .
  have "ValidVertexNum s ts n = length (filter (\<lambda>v. vts_at s v \<le> ts) [0..<n])"
    using ValidVertexNum_card [OF assms(1,2), of n] n
    by (simp add: length_filter_conv_card cong: conj_cong)
  then show ?thesis using f foreach_filter [OF assms(1-3)] n by simp
qed

theorem vts_readers_agree_witness:
  "vts_foreach vts_example 5 7 = [0, 2, 3] \<and> ValidVertexNum vts_example 7 5 = 3"
proof -
  have ne: "(7 :: timestamp_t) \<noteq> DELETED_TIMESTAMP" "\<not> DELETED_TIMESTAMP \<le> 7"
    by (simp_all add: INVALID_TIMESTAMP_def)
  have a: "vts_foreach vts_example 5 7 = [0, 2, 3]"
    using foreach_filter [OF vts_example_wf ne(1), of 5] ne(2)
    by (simp add: vts_example_def vts_at_def gone_def slots_def upt_rec)
  show ?thesis
    using vts_readers_agree [OF vts_example_wf ne(1), of 5] a by (simp add: vts_example_def)
qed

text \<open>
  C33. The life of a vertex in a fresh slot: inserting it makes it exist since \<open>ts\<close> and changes no
  other vertex, removing it returns \<open>ts\<close> and makes it invisible, and reverting the removal with the
  returned timestamp restores the state before.
\<close>

theorem vts_insert_remove_revert:
  assumes "vts_wf s" and "init_vertex_num s \<le> v" and "v < max_vertex_num s"
    and "vts_at s v = DELETED_TIMESTAMP" and "ts \<noteq> DELETED_TIMESTAMP"
  shows "let ins = InsertVertex False s v ts; del = RemoveVertex (fst ins) v;
      undo = RevertRemoveVertex (fst del) v ts
    in snd ins = None \<and> vts_at (fst ins) = (vts_at s)(v := ts) \<and>
      snd del = Inr ts \<and> vts_at (fst del) = vts_at s \<and>
      snd undo = None \<and> vts_at (fst undo) = vts_at (fst ins)"
proof -
  let ?ins = "InsertVertex False s v ts"
  have i: "?ins = (vts_set_slot s (v - init_vertex_num s) ts, None)"
    using InsertVertex_at [OF assms(1-3), of ts] assms(4) by simp
  then have at: "vts_at (fst ?ins) = (vts_at s)(v := ts)" and wf: "vts_wf (fst ?ins)"
    and m: "max_vertex_num (fst ?ins) = max_vertex_num s"
    using vts_at_set_slot [OF assms(1-3)] vts_wf_set_slot [OF assms(1)] by simp_all
  have v: "v < max_vertex_num (fst ?ins)" "vts_at (fst ?ins) v \<noteq> DELETED_TIMESTAMP"
    "vts_at (fst ?ins) v = ts"
    using at m assms(3,5) by simp_all
  note r = RemoveVertex_at [OF wf v(1,2)] RevertRemove_at [OF wf v(1,2)]
  have "vts_at (fst (RemoveVertex (fst ?ins) v)) = vts_at s"
    unfolding r(2) at using assms(4) by (simp add: fun_upd_idem)
  then show ?thesis
    using r at i unfolding Let_def v(3) by simp
qed

theorem vts_insert_remove_revert_witness:
  "snd (InsertVertex False vts_example 4 9) = None \<and>
   snd (RemoveVertex (fst (InsertVertex False vts_example 4 9)) 4) = Inr 9"
  using vts_insert_remove_revert [OF vts_example_wf, of 4 9]
  by (simp add: vts_example_at) (simp add: vts_example_def INVALID_TIMESTAMP_def Let_def)

text \<open>
  C13. A checkpoint keeps the vertices: dumping and opening the file in a new object succeeds, and
  the vertices that existed at any timestamp exist since timestamp 0, the others still do not.
\<close>

theorem vts_checkpoint_roundtrip:
  assumes "vts_wf s" and "max_vertex_num s < 2 ^ 32"
  shows "\<exists>r. vts_Open vts_new (Some (snd (vts_Dump s))) = Some r \<and> vts_wf r \<and>
    max_vertex_num r = max_vertex_num s \<and>
    (\<forall>v. vts_at r v = (if vts_at s v = DELETED_TIMESTAMP then DELETED_TIMESTAMP else 0))"
proof -
  let ?r = "ResetTimestamps s" and ?c = "vts_Compact (ResetTimestamps s)"
  note R = ResetTimestamps_wf [OF assms(1)]
  note C = vts_Compact_at [OF R(1)]
  have at: "vts_at ?c v = settle (vts_at s v)" for v
    using C(2) [of v] vts_at_settled [OF assms(1) R(2,5,3,4), of v] by simp
  obtain r where r: "load_ts vts_new (dump_ts ?c) = Some r" "vts_wf r" "vts_at r = vts_at ?c"
    "max_vertex_num r = max_vertex_num ?c"
    using load_dump [OF C(1)] C(3) R(4) assms(2) by (metis (no_types, lifting))
  then show ?thesis
    using at C(3) R(4) by (auto simp: vts_Open_def vts_Dump_def Let_def settle_def)
qed

theorem vts_checkpoint_roundtrip_witness:
  "\<exists>r. vts_Open vts_new (Some (snd (vts_Dump vts_example))) = Some r \<and> vts_at r 3 = 0 \<and>
     vts_at r 1 = DELETED_TIMESTAMP"
proof -
  have "(5 :: timestamp_t) \<noteq> DELETED_TIMESTAMP" by (simp add: INVALID_TIMESTAMP_def)
  then show ?thesis
    using vts_checkpoint_roundtrip [OF vts_example_wf] vts_example_at
    by (auto simp: vts_example_def)
qed

text \<open>
  Putting back a vertex below \<^verbatim>\<open>init_vertex_num_\<close> (one that was removed after a
  checkpoint) with a nonzero timestamp moves the timestamps of other vertices: the array grows at
  its end instead of its front, so the slot of every vertex after it now holds the timestamp of a
  vertex further up.
\<close>

theorem vts_reinsert_shifts:
  assumes "vts_wf s" and "v < init_vertex_num s" and "init_vertex_num s < max_vertex_num s"
    and "vts_at s (init_vertex_num s) = DELETED_TIMESTAMP" and "ts \<noteq> 0"
    and "v < w" and "w < max_vertex_num s"
  shows "vts_at (fst (InsertVertex False s v ts)) w =
    (if w - v < max_vertex_num s - init_vertex_num s then vts_at s (w + (init_vertex_num s - v))
     else DELETED_TIMESTAMP)"
proof -
  let ?n = "init_vertex_num s" and ?m = "max_vertex_num s"
  note W = vts_wf_simps [OF assms(1)]
  obtain xs where xs: "inserted_vertices s = Some xs"
    using assms(1,3) by (auto simp: vts_wf_def split: option.splits)
  then have sl: "slots s = xs" and len: "length xs = ?m - ?n" using W(1) by (auto simp: slots_def)
  have hd: "xs ! 0 = DELETED_TIMESTAMP" using assms(3,4) sl by (simp add: vts_at_def)
  let ?ys = "xs @ replicate (?n - v) DELETED_TIMESTAMP"
  have e: "?m - (v + (?m - ?n)) = ?n - v" "min (?m - v) (?m - ?n) = ?m - ?n"
    using assms(2,3) by auto
  have "(resize_inserted_vertices s (?m - v) False)\<lparr>init_vertex_num := v\<rparr>
      = s\<lparr>inserted_vertices := Some ?ys, init_vertex_num := v\<rparr>"
    by (simp add: resize_inserted_vertices_def xs Let_def e len)
  moreover have "?ys ! 0 = DELETED_TIMESTAMP" "0 < length ?ys"
    using hd len assms(3) by (auto simp: nth_append)
  ultimately have "fst (InsertVertex False s v ts)
      = vts_set_slot (s\<lparr>inserted_vertices := Some ?ys, init_vertex_num := v\<rparr>) 0 ts"
    using assms(2,5) by (simp add: InsertVertex_def Let_def vts_slot_eq slots_def)
  then show ?thesis
    using assms(2,3,6,7) len sl
    by (auto simp: vts_at_def slots_def nth_append vts_set_slot_def)
qed

theorem vts_reinsert_shifts_witness:
  "\<exists>s. vts_wf s \<and> vts_at s 2 = 0 \<and> vts_at (fst (InsertVertex False s 1 9)) 2 = 7"
proof -
  let ?s = "\<lparr>init_vertex_num = 3, inserted_vertices = Some [DELETED_TIMESTAMP, 7],
     max_vertex_num = 5, removed_vertices = Some {1}\<rparr>"
  have wf: "vts_wf ?s" by (auto simp: vts_wf_def)
  have "vts_at (fst (InsertVertex False ?s 1 9)) 2 = vts_at ?s 4"
    using vts_reinsert_shifts [OF wf, of 1 9 2] by (simp add: vts_at_def slots_def)
  then have "vts_wf ?s \<and> vts_at ?s 2 = 0 \<and> vts_at (fst (InsertVertex False ?s 1 9)) 2 = 7"
    using wf by (simp add: vts_at_def slots_def gone_def)
  then show ?thesis by blast
qed

text \<open>
  Putting back a removed vertex below \<^verbatim>\<open>init_vertex_num_\<close> with timestamp 0, as the bulk
  loader does, reports success and changes nothing: the vertex stays removed.
\<close>

theorem vts_reinsert_zero_ignored:
  assumes "v < init_vertex_num s" and "removed_vertices s = Some R" and "v \<in> R"
    and "init_vertex_num s \<le> max_vertex_num s"
  shows "InsertVertex spurious s v 0 = (s, None) \<and>
    IsVertexValid (fst (InsertVertex spurious s v 0)) v MAX_TIMESTAMP = Some False"
  using assms by (simp add: InsertVertex_def IsVertexValid_def)

theorem vts_reinsert_zero_ignored_witness:
  "IsVertexValid (fst (InsertVertex False vts_example 1 0)) 1 MAX_TIMESTAMP = Some False"
  by (rule vts_reinsert_zero_ignored [of 1 vts_example "{1}" False, THEN conjunct2])
    (simp_all add: vts_example_def)


end
