(* ===== verification/Vertex_Table.thy ===== *)
theory Vertex_Table
  imports Lf_Indexer Property_Table Vertex_Timestamp
begin

text \<open>
  The vertices of a label, \<^verbatim>\<open>VertexTable\<close> of
  \<^verbatim>\<open>include/neug/storages/graph/vertex_table.h\<close> and \<^verbatim>\<open>src/storages/graph/vertex_table.cc\<close>:
  the primary key index, the insertion timestamps and the table of the properties. The outer \<open>None\<close>
  of a result is a loop that does not return or a read outside an array. An exception gives the error
  and not the state it leaves behind. Operations that log a warning and return leave the table as it is.

  The lemmas show that the three parts together implement a map from primary keys to a vertex id and
  the timestamp since which the vertex exists: lookups read the map, adding, deleting and restoring a
  vertex update it at one key, growing leaves it alone, and the properties of other vertices are not
  touched.
\<close>

section \<open>State and operations\<close>

record vtable =
  vt_indexer :: lfi
  vt_table :: table
  vt_ts :: vts
  vt_defaults :: "property_t list"

datatype vt_error =
    VertexExists
  | NotEnoughSpace
  | LidOutOfRange
  | LidDeleted
  | Timestamps vts_error
  | Columns column_error

type_synonym 'a vt_result = "(vt_error + 'a) option"

type_synonym hash_fun = "property_t \<Rightarrow> 64 word"

definition vt_get_index :: "hash_fun \<Rightarrow> vtable \<Rightarrow> property_t \<Rightarrow> timestamp_t \<Rightarrow> vid_t option option" where
  "vt_get_index stdh t oid ts =
     do { res \<leftarrow> lf_get_index stdh (vt_indexer t) oid;
          case res of
            None \<Rightarrow> Some None
          | Some lid \<Rightarrow>
              do { valid \<leftarrow> IsVertexValid (vt_ts t) (unat lid) ts;
                   Some (if \<not> valid then None else Some lid) } }"

definition vt_VertexNum :: "vtable \<Rightarrow> timestamp_t \<Rightarrow> nat" where
  "vt_VertexNum t ts = ValidVertexNum (vt_ts t) ts (lf_num (vt_indexer t))"

definition vt_LidNum :: "vtable \<Rightarrow> nat" where
  "vt_LidNum t = lf_num (vt_indexer t)"

text \<open>
  \<^verbatim>\<open>insert_vertex_pk\<close>; \<open>spurious\<close> is the failure of the compare and exchange in
  \<^verbatim>\<open>InsertVertex\<close>.
\<close>

definition vt_claim :: "bool \<Rightarrow> vid_t \<Rightarrow> timestamp_t \<Rightarrow> vtable \<Rightarrow> (vid_t \<times> vtable) vt_result" where
  "vt_claim spurious vid ts t =
     (case InsertVertex spurious (vt_ts t) (unat vid) ts of
        (s, None) \<Rightarrow> Some (Inr (vid, t\<lparr>vt_ts := s\<rparr>))
      | (s, Some e) \<Rightarrow> Some (Inl (Timestamps e)))"

definition insert_vertex_pk ::
  "hash_fun \<Rightarrow> bool \<Rightarrow> property_t \<Rightarrow> timestamp_t \<Rightarrow> bool \<Rightarrow> vtable \<Rightarrow> (vid_t \<times> vtable) vt_result" where
  "insert_vertex_pk stdh spurious pk ts insert_safe t =
     do { res \<leftarrow> lf_get_index stdh (vt_indexer t) pk;
          case res of
            Some vid \<Rightarrow>
              do { valid \<leftarrow> IsVertexValid (vt_ts t) (unat vid) ts;
                   if valid then Some (Inl VertexExists) else vt_claim spurious vid ts t }
          | None \<Rightarrow>
              do { (r, c) \<leftarrow> lf_insert stdh pk insert_safe (vt_indexer t);
                   case r of
                     None \<Rightarrow> Some (Inl NotEnoughSpace)
                   | Some vid \<Rightarrow> vt_claim spurious vid ts (t\<lparr>vt_indexer := c\<rparr>) } }"

text \<open>\<^verbatim>\<open>AddVertex\<close>; the vertex id is \<open>None\<close> when it returns false.\<close>

definition AddVertex ::
  "hash_fun \<Rightarrow> bool \<Rightarrow> property_t \<Rightarrow> property_t list \<Rightarrow> timestamp_t \<Rightarrow> bool \<Rightarrow> vtable \<Rightarrow>
     (vid_t option \<times> vtable) vt_result" where
  "AddVertex stdh spurious pk props ts insert_safe t =
     (if lf_capacity (vt_indexer t) \<le> lf_num (vt_indexer t) then Some (Inr (None, t))
      else case insert_vertex_pk stdh spurious pk ts insert_safe t of
             None \<Rightarrow> None
           | Some (Inl e) \<Rightarrow> Some (Inl e)
           | Some (Inr (vid, t)) \<Rightarrow>
               (case table_insert (unat vid) props (vt_table t) of
                  None \<Rightarrow> None
                | Some (Inl e) \<Rightarrow> Some (Inl (Columns e))
                | Some (Inr tab) \<Rightarrow> Some (Inr (Some vid, t\<lparr>vt_table := tab\<rparr>))))"

definition UpdateProperty ::
  "vid_t \<Rightarrow> int \<Rightarrow> property_t \<Rightarrow> timestamp_t \<Rightarrow> vtable \<Rightarrow> (bool \<times> vtable) vt_result" where
  "UpdateProperty vid prop_id value ts t =
     (if unat vid \<ge> lf_num (vt_indexer t) then Some (Inr (False, t))
      else do { valid \<leftarrow> IsVertexValid (vt_ts t) (unat vid) ts;
                if \<not> valid then Some (Inr (False, t))
                else if prop_id < 0 \<or> prop_id \<ge> int (length (columns (vt_table t))) then Some (Inr (False, t))
                else case col_set_any (unat vid) value (columns (vt_table t) ! nat prop_id) of
                       None \<Rightarrow> None
                     | Some (Inl e) \<Rightarrow> Some (Inl (Columns e))
                     | Some (Inr c) \<Rightarrow>
                         Some (Inr (True, t\<lparr>vt_table := (vt_table t)
                           \<lparr>columns := (columns (vt_table t))[nat prop_id := c]\<rparr>\<rparr>)) })"

definition GetOid :: "vid_t \<Rightarrow> timestamp_t \<Rightarrow> vtable \<Rightarrow> property_t vt_result" where
  "GetOid lid ts t =
     (if unat lid \<ge> lf_num (vt_indexer t) then Some (Inl LidOutOfRange)
      else do { valid \<leftarrow> IsVertexValid (vt_ts t) (unat lid) ts;
                if \<not> valid then Some (Inl LidDeleted)
                else map_option Inr (lf_get_key (vt_indexer t) lid) })"

definition IsValidLid :: "vid_t \<Rightarrow> timestamp_t \<Rightarrow> vtable \<Rightarrow> bool option" where
  "IsValidLid lid ts t =
     (if unat lid < lf_num (vt_indexer t) then IsVertexValid (vt_ts t) (unat lid) ts else Some False)"

definition EnsureCapacity :: "hash_fun \<Rightarrow> nat \<Rightarrow> vtable \<Rightarrow> (nat \<times> vtable) vt_result" where
  "EnsureCapacity stdh capacity t =
     (if capacity \<le> lf_capacity (vt_indexer t) then Some (Inr (lf_capacity (vt_indexer t), t))
      else
        let capacity = max capacity 4096
        in case (if capacity > lf_capacity (vt_indexer t) then lf_reserve stdh capacity (vt_indexer t)
                 else Some (vt_indexer t)) of
             None \<Rightarrow> None
           | Some c \<Rightarrow>
               (case (if table_size (vt_table t) < capacity
                      then table_resize_default capacity (vt_defaults t) (vt_table t)
                      else Some (Inr (vt_table t))) of
                  None \<Rightarrow> None
                | Some (Inl e) \<Rightarrow> Some (Inl (Columns e))
                | Some (Inr tab) \<Rightarrow>
                    Some (Inr (lf_capacity c, t\<lparr>vt_indexer := c, vt_table := tab,
                      vt_ts := vts_Reserve (vt_ts t) capacity\<rparr>))))"

definition DeleteVertex_lid :: "vid_t \<Rightarrow> timestamp_t \<Rightarrow> vtable \<Rightarrow> vtable vt_result" where
  "DeleteVertex_lid lid ts t =
     (if unat lid \<ge> lf_num (vt_indexer t) then Some (Inr t)
      else do { valid \<leftarrow> IsVertexValid (vt_ts t) (unat lid) ts;
                if valid
                then case RemoveVertex (vt_ts t) (unat lid) of
                       (s, Inl e) \<Rightarrow> Some (Inl (Timestamps e))
                     | (s, Inr _) \<Rightarrow> Some (Inr (t\<lparr>vt_ts := s\<rparr>))
                else Some (Inr t) })"

definition DeleteVertex :: "hash_fun \<Rightarrow> property_t \<Rightarrow> timestamp_t \<Rightarrow> vtable \<Rightarrow> vtable vt_result" where
  "DeleteVertex stdh pk ts t =
     do { r \<leftarrow> vt_get_index stdh t pk ts;
          case r of None \<Rightarrow> Some (Inr t) | Some vid \<Rightarrow> DeleteVertex_lid vid ts t }"

fun BatchDeleteVertices :: "vid_t list \<Rightarrow> vtable \<Rightarrow> vtable vt_result" where
  "BatchDeleteVertices [] t = Some (Inr t)"
| "BatchDeleteVertices (v # vids) t =
     do { valid \<leftarrow> (if unat v < lf_num (vt_indexer t) then IsVertexValid (vt_ts t) (unat v) MAX_TIMESTAMP
                    else Some False);
          if valid
          then case RemoveVertex (vt_ts t) (unat v) of
                 (s, Inl e) \<Rightarrow> Some (Inl (Timestamps e))
               | (s, Inr _) \<Rightarrow> BatchDeleteVertices vids (t\<lparr>vt_ts := s\<rparr>)
          else BatchDeleteVertices vids t }"

definition RevertDeleteVertex :: "vid_t \<Rightarrow> timestamp_t \<Rightarrow> vtable \<Rightarrow> vtable vt_result" where
  "RevertDeleteVertex lid ts t =
     do { removed \<leftarrow> IsRemoved (vt_ts t) (unat lid);
          if removed
          then case RevertRemoveVertex (vt_ts t) (unat lid) ts of
                 (s, None) \<Rightarrow> Some (Inr (t\<lparr>vt_ts := s\<rparr>))
               | (s, Some e) \<Rightarrow> Some (Inl (Timestamps e))
          else Some (Inr t) }"

definition DeleteProperties :: "string list \<Rightarrow> vtable \<Rightarrow> vtable" where
  "DeleteProperties properties t = t\<lparr>vt_table := fold delete_column properties (vt_table t)\<rparr>"

definition AddProperties ::
  "string list \<Rightarrow> data_type list \<Rightarrow> property_t list \<Rightarrow> vtable \<Rightarrow> vtable vt_result" where
  "AddProperties properties types default_values t =
     (case add_columns properties types default_values (lf_capacity (vt_indexer t)) (vt_table t) of
        None \<Rightarrow> None
      | Some (Inl e) \<Rightarrow> Some (Inl (Columns e))
      | Some (Inr tab) \<Rightarrow> Some (Inr (t\<lparr>vt_table := tab\<rparr>)))"

definition RenameProperties :: "string list \<Rightarrow> string list \<Rightarrow> vtable \<Rightarrow> vtable option" where
  "RenameProperties old_names new_names t =
     (if length old_names = length new_names
      then Some (t\<lparr>vt_table := fold (\<lambda>(old, new). rename_column old new) (zip old_names new_names) (vt_table t)\<rparr>)
      else None)"

definition vt_Compact :: "vtable \<Rightarrow> vtable" where
  "vt_Compact t = t\<lparr>vt_ts := vts_Compact (vt_ts t)\<rparr>"

text \<open>
  The batch insertion of primary keys, without spurious failures; a key that exists gets the largest id.
\<close>

fun insert_primary_keys :: "hash_fun \<Rightarrow> property_t list \<Rightarrow> vtable \<Rightarrow> (vid_t list \<times> vtable) vt_result" where
  "insert_primary_keys stdh [] t = Some (Inr ([], t))"
| "insert_primary_keys stdh (oid # oids) t =
     do { res \<leftarrow> lf_get_index stdh (vt_indexer t) oid;
          r \<leftarrow> (case res of
                  Some vid \<Rightarrow>
                    do { valid \<leftarrow> IsVertexValid (vt_ts t) (unat vid) MAX_TIMESTAMP;
                         if valid then Some (Inr (0xFFFFFFFF, t)) else vt_claim False vid 0 t }
                | None \<Rightarrow> insert_vertex_pk stdh False oid 0 False t);
          case r of
            Inl e \<Rightarrow> Some (Inl e)
          | Inr (vid, t) \<Rightarrow>
              map_option (map_sum id (\<lambda>(vids, t). (vid # vids, t))) (insert_primary_keys stdh oids t) }"

function grow_capacity :: "nat \<Rightarrow> nat \<Rightarrow> nat" where
  "grow_capacity new_size cap =
     (if new_size \<ge> cap then grow_capacity new_size (if cap < 4096 then 4096 else cap + cap div 4) else cap)"
  by pat_completeness auto
termination
  by (relation "measure (\<lambda>(new_size, cap). Suc new_size - cap)") auto

declare grow_capacity.simps [simp del]

text \<open>
  Room for a number of rows: run at the start with the number the supplier announces, and again before
  each batch with the number of its rows.
\<close>

definition reserve_batch :: "hash_fun \<Rightarrow> nat \<Rightarrow> vtable \<Rightarrow> vtable vt_result" where
  "reserve_batch stdh row_nums t =
     (let new_size = lf_num (vt_indexer t) + row_nums
      in if new_size > lf_capacity (vt_indexer t)
         then map_option (map_sum id snd)
           (EnsureCapacity stdh (grow_capacity new_size (lf_capacity (vt_indexer t))) t)
         else Some (Inr t))"

section \<open>The vertex table as a map\<close>

definition vt_ok :: "hash_fun \<Rightarrow> vtable \<Rightarrow> bool" where
  "vt_ok stdh t \<longleftrightarrow>
     lf_ok stdh (vt_indexer t) \<and> lf_capacity (vt_indexer t) < 2 ^ 58 \<and> vts_wf (vt_ts t) \<and>
     init_vertex_num (vt_ts t) \<le> lf_num (vt_indexer t) \<and>
     lf_capacity (vt_indexer t) \<le> max_vertex_num (vt_ts t) \<and>
     (\<forall>v\<ge>lf_num (vt_indexer t). vts_at (vt_ts t) v = DELETED_TIMESTAMP) \<and>
     (\<forall>c\<in>set (columns (vt_table t)). col_ok c \<and> c \<noteq> EmptyCol \<and> col_size c = lf_capacity (vt_indexer t))"

text \<open>The vertex with a primary key and the timestamp since which it exists.\<close>

definition view_of :: "lfi \<Rightarrow> (nat \<Rightarrow> timestamp_t) \<Rightarrow> property_t \<Rightarrow> (vid_t \<times> timestamp_t) option" where
  "view_of c since pk =
     (case abs_index c pk of
        None \<Rightarrow> None
      | Some v \<Rightarrow> if since (unat v) = DELETED_TIMESTAMP then None else Some (v, since (unat v)))"

definition vt_view :: "vtable \<Rightarrow> property_t \<Rightarrow> (vid_t \<times> timestamp_t) option" where
  "vt_view t = view_of (vt_indexer t) (vts_at (vt_ts t))"

lemma vt_okD:
  assumes "vt_ok stdh t"
  shows "lf_ok stdh (vt_indexer t)" "lf_capacity (vt_indexer t) < 2 ^ 58" "vts_wf (vt_ts t)"
    "init_vertex_num (vt_ts t) \<le> lf_num (vt_indexer t)" "lf_capacity (vt_indexer t) \<le> max_vertex_num (vt_ts t)"
    "lf_num (vt_indexer t) \<le> v \<Longrightarrow> vts_at (vt_ts t) v = DELETED_TIMESTAMP"
    "c \<in> set (columns (vt_table t)) \<Longrightarrow> col_ok c \<and> c \<noteq> EmptyCol \<and> col_size c = lf_capacity (vt_indexer t)"
    "lf_num (vt_indexer t) \<le> lf_capacity (vt_indexer t)" "lf_num (vt_indexer t) < 2 ^ 32 - 1"
  using assms lf_ok_keys [of stdh "vt_indexer t"] by (simp_all add: vt_ok_def keys_ok_def)

lemma not_DELETED_le: "ts \<noteq> DELETED_TIMESTAMP \<Longrightarrow> \<not> DELETED_TIMESTAMP \<le> ts"
  using timestamp_le_INVALID [of ts] by (meson order.antisym)

lemma abs_index_range:
  assumes "lf_ok stdh c" "abs_index c pk = Some v"
  shows "unat v < lf_num c" "abs_index c q = Some v \<Longrightarrow> q = pk"
proof -
  note k = lf_ok_keys [OF assms(1)]
  obtain i where i: "i < lf_num c" "lf_keys c ! i = pk" "v = of_nat i" using abs_index_Some [OF k assms(2)] .
  have u: "unat v = i" using vid_inject(2) [OF num_small [OF k i(1)]] i(3) by simp
  then show "unat v < lf_num c" using i(1) by simp
  assume "abs_index c q = Some v"
  then obtain j where j: "j < lf_num c" "lf_keys c ! j = q" "v = of_nat j" using abs_index_Some [OF k] by blast
  then have "unat v = j" using vid_inject(2) [OF num_small [OF k j(1)]] by simp
  then show "q = pk" using u i j by simp
qed

lemma IsVertexValid_index:
  assumes ok: "vt_ok stdh t" and v: "unat v < lf_num (vt_indexer t)" and ts: "ts \<noteq> DELETED_TIMESTAMP"
  shows "IsVertexValid (vt_ts t) (unat v) ts = Some (vts_at (vt_ts t) (unat v) \<le> ts)"
proof -
  have "unat v < max_vertex_num (vt_ts t)" using v vt_okD(5,8) [OF ok] by linarith
  then show ?thesis using IsVertexValid_at [OF vt_okD(3) [OF ok] _ ts] by blast
qed

lemma vt_get_index_view:
  assumes ok: "vt_ok stdh t" and ts: "ts \<noteq> DELETED_TIMESTAMP"
  shows "vt_get_index stdh t pk ts =
    Some (case vt_view t pk of None \<Rightarrow> None | Some (v, since) \<Rightarrow> if since \<le> ts then Some v else None)"
proof (cases "abs_index (vt_indexer t) pk")
  case None
  then show ?thesis by (simp add: vt_get_index_def lf_get_index_abs [OF vt_okD(1) [OF ok]] vt_view_def view_of_def)
next
  case (Some v)
  note r = abs_index_range(1) [OF vt_okD(1) [OF ok] Some]
  show ?thesis using not_DELETED_le [OF ts]
    by (auto simp: vt_get_index_def lf_get_index_abs [OF vt_okD(1) [OF ok]] Some vt_view_def view_of_def
      IsVertexValid_index [OF ok r ts])
qed

text \<open>Changing the timestamp of one vertex, with its key perhaps new, changes the map at its key.\<close>

lemma view_of_update:
  assumes "\<And>q. abs_index c' q = (if q = pk then Some v else abs_index c q)"
    and "\<And>q. q \<noteq> pk \<Longrightarrow> abs_index c q \<noteq> Some v"
  shows "view_of c' (since(unat v := x)) =
    (view_of c since)(pk := (if x = DELETED_TIMESTAMP then None else Some (v, x)))"
proof (rule ext)
  fix q
  show "view_of c' (since(unat v := x)) q = ((view_of c since)(pk := (if x = DELETED_TIMESTAMP then None else Some (v, x)))) q"
  proof (cases "q = pk")
    case True
    then show ?thesis using assms(1) [of pk] by (simp add: view_of_def)
  next
    case False
    have "unat w \<noteq> unat v" if "abs_index c q = Some w" for w
      using that assms(2) [OF False] by (auto simp: unsigned_word_eqI)
    then show ?thesis using False assms(1) [of q] by (auto simp: view_of_def split: option.splits)
  qed
qed

lemma vt_view_since:
  assumes ok: "vt_ok stdh t" and pk: "abs_index (vt_indexer t) pk = Some v"
    and at: "vts_at s = (vts_at (vt_ts t))(unat v := x)"
  shows "vt_view (t\<lparr>vt_ts := s\<rparr>) = (vt_view t)(pk := (if x = DELETED_TIMESTAMP then None else Some (v, x)))"
proof -
  have "vt_view (t\<lparr>vt_ts := s\<rparr>) = view_of (vt_indexer t) ((vts_at (vt_ts t))(unat v := x))"
    by (simp add: vt_view_def at)
  also have "\<dots> = (view_of (vt_indexer t) (vts_at (vt_ts t)))(pk := (if x = DELETED_TIMESTAMP then None else Some (v, x)))"
  proof (rule view_of_update)
    show "abs_index (vt_indexer t) q = (if q = pk then Some v else abs_index (vt_indexer t) q)" for q by (simp add: pk)
    show "abs_index (vt_indexer t) q \<noteq> Some v" if "q \<noteq> pk" for q
      using abs_index_range(2) [OF vt_okD(1) [OF ok] pk, of q] that by blast
  qed
  finally show ?thesis by (simp add: vt_view_def)
qed

section \<open>Adding vertices\<close>

lemma vt_claim_spec:
  assumes ok: "vt_ok stdh t" and v: "init_vertex_num (vt_ts t) \<le> unat v" "unat v < lf_num (vt_indexer t)"
    and free: "vts_at (vt_ts t) (unat v) = DELETED_TIMESTAMP" and pk: "abs_index (vt_indexer t) pk = Some v"
    and ts: "ts \<noteq> DELETED_TIMESTAMP"
  shows "\<exists>s. vt_claim False v ts t = Some (Inr (v, t\<lparr>vt_ts := s\<rparr>)) \<and> vt_ok stdh (t\<lparr>vt_ts := s\<rparr>) \<and>
    vt_view (t\<lparr>vt_ts := s\<rparr>) = (vt_view t)(pk \<mapsto> (v, ts))"
proof -
  let ?s = "vts_set_slot (vt_ts t) (unat v - init_vertex_num (vt_ts t)) ts"
  have m: "unat v < max_vertex_num (vt_ts t)" using v(2) vt_okD(5,8) [OF ok] by linarith
  have ins: "InsertVertex False (vt_ts t) (unat v) ts = (?s, None)"
    using InsertVertex_at [OF vt_okD(3) [OF ok] v(1) m] free by simp
  have at: "vts_at ?s = (vts_at (vt_ts t))(unat v := ts)" by (rule vts_at_set_slot [OF vt_okD(3) [OF ok] v(1) m])
  have "vt_ok stdh (t\<lparr>vt_ts := ?s\<rparr>)" using ok v(2) at vts_wf_set_slot by (auto simp: vt_ok_def)
  moreover have "vt_view (t\<lparr>vt_ts := ?s\<rparr>) = (vt_view t)(pk \<mapsto> (v, ts))"
    using vt_view_since [OF ok pk at] ts by simp
  ultimately show ?thesis using ins by (auto simp: vt_claim_def)
qed

lemma vt_new_key:
  assumes ok: "vt_ok stdh t" and room: "lf_num (vt_indexer t) < lf_capacity (vt_indexer t)" "lf_num (vt_indexer t) < 2 ^ 32 - 2"
    and fits: "lf_fits (vt_indexer t) pk" and new: "abs_index (vt_indexer t) pk = None"
  shows "\<exists>c. lf_insert stdh pk insert_safe (vt_indexer t) = Some (Some (of_nat (lf_num (vt_indexer t))), c) \<and>
    vt_ok stdh (t\<lparr>vt_indexer := c\<rparr>) \<and> lf_num c = lf_num (vt_indexer t) + 1 \<and> lf_capacity c = lf_capacity (vt_indexer t) \<and>
    (\<forall>q. abs_index c q = (if q = pk then Some (of_nat (lf_num (vt_indexer t))) else abs_index (vt_indexer t) q)) \<and>
    lf_fits c = lf_fits (vt_indexer t) \<and> vt_view (t\<lparr>vt_indexer := c\<rparr>) = vt_view t"
proof -
  let ?c = "vt_indexer t"
  note f = vt_okD [OF ok] and get = lf_get_index_abs [OF vt_okD(1) [OF ok]]
  have n: "lf_get_index stdh ?c pk = Some None" by (simp add: get new)
  obtain c where c: "lf_insert stdh pk insert_safe ?c = Some (Some (of_nat (lf_num ?c)), c)" "lf_ok stdh c"
    "lf_num c = lf_num ?c + 1" "lf_capacity c = lf_capacity ?c"
    "lf_fits c = lf_fits ?c" "\<forall>q. lf_get_index stdh c q = (if q = pk then Some (Some (of_nat (lf_num ?c))) else lf_get_index stdh ?c q)"
    using lf.ins_fresh [of stdh ?c pk insert_safe] f(1,2) fits n room by blast
  have a: "abs_index c q = (if q = pk then Some (of_nat (lf_num ?c)) else abs_index ?c q)" for q
    using c(6) [rule_format, of q] by (auto simp: lf_get_index_abs [OF c(2)] get split: if_splits)
  have u: "unat (of_nat (lf_num ?c) :: vid_t) = lf_num ?c" using vid_inject(2) [OF f(9)] .
  have "vt_ok stdh (t\<lparr>vt_indexer := c\<rparr>)" using ok c(2-4) by (auto simp: vt_ok_def)
  moreover have "vt_view (t\<lparr>vt_indexer := c\<rparr>) = vt_view t"
  proof (rule ext)
    show "vt_view (t\<lparr>vt_indexer := c\<rparr>) q = vt_view t q" for q
      using a [of q] new u f(6) [of "lf_num ?c"] by (auto simp: vt_view_def view_of_def)
  qed
  ultimately show ?thesis using c(1,3,4,5) a by auto
qed

lemma insert_new_vertex:
  assumes ok: "vt_ok stdh t" and room: "lf_num (vt_indexer t) < lf_capacity (vt_indexer t)" "lf_num (vt_indexer t) < 2 ^ 32 - 2"
    and fits: "lf_fits (vt_indexer t) pk" and new: "abs_index (vt_indexer t) pk = None" and ts: "ts \<noteq> DELETED_TIMESTAMP"
  defines "v \<equiv> of_nat (lf_num (vt_indexer t)) :: vid_t"
  shows "\<exists>t'. insert_vertex_pk stdh False pk ts insert_safe t = Some (Inr (v, t')) \<and> vt_ok stdh t' \<and>
    vt_view t' = (vt_view t)(pk \<mapsto> (v, ts)) \<and> unat v < lf_capacity (vt_indexer t) \<and>
    lf_capacity (vt_indexer t') = lf_capacity (vt_indexer t) \<and> vt_table t' = vt_table t \<and> vt_defaults t' = vt_defaults t \<and>
    lf_num (vt_indexer t') = lf_num (vt_indexer t) + 1 \<and> lf_fits (vt_indexer t') = lf_fits (vt_indexer t) \<and>
    (\<forall>q. abs_index (vt_indexer t') q = (if q = pk then Some v else abs_index (vt_indexer t) q))"
proof -
  obtain c where c: "lf_insert stdh pk insert_safe (vt_indexer t) = Some (Some v, c)" "vt_ok stdh (t\<lparr>vt_indexer := c\<rparr>)"
    "lf_num c = lf_num (vt_indexer t) + 1" "lf_capacity c = lf_capacity (vt_indexer t)"
    "\<forall>q. abs_index c q = (if q = pk then Some v else abs_index (vt_indexer t) q)"
    "lf_fits c = lf_fits (vt_indexer t)" "vt_view (t\<lparr>vt_indexer := c\<rparr>) = vt_view t"
    using vt_new_key [OF ok room fits new] unfolding v_def by blast
  have u: "unat v = lf_num (vt_indexer t)" unfolding v_def using vid_inject(2) [OF vt_okD(9) [OF ok]] .
  have "init_vertex_num (vt_ts t) \<le> unat v" "unat v < lf_num c" "vts_at (vt_ts t) (unat v) = DELETED_TIMESTAMP"
    "abs_index c pk = Some v"
    using vt_okD(4,6) [OF ok] c(3,5) by (simp_all add: u)
  then obtain s where s: "vt_claim False v ts (t\<lparr>vt_indexer := c\<rparr>) = Some (Inr (v, t\<lparr>vt_indexer := c, vt_ts := s\<rparr>))"
    "vt_ok stdh (t\<lparr>vt_indexer := c, vt_ts := s\<rparr>)" "vt_view (t\<lparr>vt_indexer := c, vt_ts := s\<rparr>) = (vt_view t)(pk \<mapsto> (v, ts))"
    using vt_claim_spec [OF c(2), of v pk ts] c(7) ts by auto
  have "insert_vertex_pk stdh False pk ts insert_safe t = Some (Inr (v, t\<lparr>vt_indexer := c, vt_ts := s\<rparr>))"
    using s(1) c(1) by (simp add: insert_vertex_pk_def lf_get_index_abs [OF vt_okD(1) [OF ok]] new)
  then show ?thesis using s(2,3) u room(1) c(3-6)
    by (intro exI [of _ "t\<lparr>vt_indexer := c, vt_ts := s\<rparr>"]) simp
qed

lemma insert_vertex_pk_spec:
  assumes ok: "vt_ok stdh t" and room: "lf_num (vt_indexer t) < lf_capacity (vt_indexer t)" "lf_num (vt_indexer t) < 2 ^ 32 - 2"
    and fits: "lf_fits (vt_indexer t) pk" and new: "vt_view t pk = None" and ts: "ts \<noteq> DELETED_TIMESTAMP"
    and slot: "\<And>v. abs_index (vt_indexer t) pk = Some v \<Longrightarrow> init_vertex_num (vt_ts t) \<le> unat v"
  shows "\<exists>v t'. insert_vertex_pk stdh False pk ts insert_safe t = Some (Inr (v, t')) \<and> vt_ok stdh t' \<and>
    vt_view t' = (vt_view t)(pk \<mapsto> (v, ts)) \<and> unat v < lf_capacity (vt_indexer t) \<and>
    lf_capacity (vt_indexer t') = lf_capacity (vt_indexer t) \<and> vt_table t' = vt_table t \<and> vt_defaults t' = vt_defaults t"
proof (cases "abs_index (vt_indexer t) pk")
  case (Some v)
  note r = abs_index_range(1) [OF vt_okD(1) [OF ok] Some]
  have free: "vts_at (vt_ts t) (unat v) = DELETED_TIMESTAMP"
    using new Some by (simp add: vt_view_def view_of_def split: if_splits)
  obtain s where s: "vt_claim False v ts t = Some (Inr (v, t\<lparr>vt_ts := s\<rparr>))" "vt_ok stdh (t\<lparr>vt_ts := s\<rparr>)"
    "vt_view (t\<lparr>vt_ts := s\<rparr>) = (vt_view t)(pk \<mapsto> (v, ts))"
    using vt_claim_spec [OF ok slot [OF Some] r free Some ts] by blast
  have "insert_vertex_pk stdh False pk ts insert_safe t = Some (Inr (v, t\<lparr>vt_ts := s\<rparr>))"
    using s(1) IsVertexValid_index [OF ok r ts] free not_DELETED_le [OF ts]
    by (simp add: insert_vertex_pk_def lf_get_index_abs [OF vt_okD(1) [OF ok]] Some)
  then show ?thesis using s(2,3) r room(1) by auto
next
  case None
  from insert_new_vertex [OF ok room fits None ts] show ?thesis using room(1) by blast
qed

lemma col_row_size: "c \<noteq> EmptyCol \<Longrightarrow> col_row i c \<longleftrightarrow> i < col_size c"
  by (cases c) simp_all

lemma not_Empty: "\<forall>j. col_row j c \<longleftrightarrow> j < n \<Longrightarrow> c \<noteq> EmptyCol"
  using col_row.simps(1) [of n] by (metis less_irrefl)

lemma vt_write_row:
  assumes ok: "vt_ok stdh t" and i: "i < lf_capacity (vt_indexer t)" and l: "length vs = length (columns (vt_table t))"
    "length ws = length (columns (vt_table t))"
    and keeps: "\<And>k. k < length (columns (vt_table t)) \<Longrightarrow> col_keeps (columns (vt_table t) ! k) (vs ! k) = Some (ws ! k)"
  shows "\<exists>tab. table_insert i vs (vt_table t) = Some (Inr tab) \<and> vt_ok stdh (t\<lparr>vt_table := tab\<rparr>) \<and>
    get_row i tab = Some ws \<and> (\<forall>j. j \<noteq> i \<longrightarrow> get_row j tab = get_row j (vt_table t))"
proof -
  let ?cs = "columns (vt_table t)"
  have col: "col_ok (?cs ! k)" "?cs ! k \<noteq> EmptyCol" "col_size (?cs ! k) = lf_capacity (vt_indexer t)" if "k < length ?cs" for k
    using vt_okD(7) [OF ok nth_mem [OF that]] by blast+
  have pre: "col_ok (?cs ! k) \<and> col_row i (?cs ! k) \<and> col_keeps (?cs ! k) (vs ! k) = Some (ws ! k)" if "k < length ?cs" for k
    using col [OF that] keeps [OF that] col_row_size [OF col(2) [OF that]] i by simp
  obtain cs' where cs': "table_insert i vs (vt_table t) = Some (Inr ((vt_table t)\<lparr>columns := cs'\<rparr>))" "length cs' = length ?cs"
    "\<forall>k<length ?cs. col_ok (cs' ! k) \<and> col_size (cs' ! k) = col_size (?cs ! k) \<and>
      (\<forall>j. col_row j (cs' ! k) = col_row j (?cs ! k))"
    "get_row i ((vt_table t)\<lparr>columns := cs'\<rparr>) = Some ws"
    "\<forall>j. j \<noteq> i \<longrightarrow> get_row j ((vt_table t)\<lparr>columns := cs'\<rparr>) = get_row j (vt_table t)"
    using table_insert_spec [OF l pre] by blast
  have "col_ok c \<and> c \<noteq> EmptyCol \<and> col_size c = lf_capacity (vt_indexer t)" if c: "c \<in> set cs'" for c
  proof -
    obtain k where k: "k < length ?cs" "c = cs' ! k" using c cs'(2) by (auto simp: in_set_conv_nth)
    have "\<forall>j. col_row j c \<longleftrightarrow> j < lf_capacity (vt_indexer t)"
      using cs'(3) [rule_format, OF k(1)] k(2) col(3) [OF k(1)] col_row_size [OF col(2) [OF k(1)]] by simp
    then have "c \<noteq> EmptyCol" by (rule not_Empty)
    then show ?thesis using cs'(3) k col(3) [OF k(1)] by auto
  qed
  then have "vt_ok stdh (t\<lparr>vt_table := (vt_table t)\<lparr>columns := cs'\<rparr>\<rparr>)" using ok by (simp add: vt_ok_def)
  then show ?thesis using cs'(1,4,5) by blast
qed

lemma vts_Reserve_at:
  assumes wf: "vts_wf s" and n: "init_vertex_num s < n"
  shows "vts_wf (vts_Reserve s n)" "vts_at (vts_Reserve s n) = vts_at s" "init_vertex_num (vts_Reserve s n) = init_vertex_num s"
    "max_vertex_num (vts_Reserve s n) = max (max_vertex_num s) n"
proof -
  have *: "vts_wf (vts_Reserve s n) \<and> vts_at (vts_Reserve s n) = vts_at s \<and>
      init_vertex_num (vts_Reserve s n) = init_vertex_num s \<and> max_vertex_num (vts_Reserve s n) = max (max_vertex_num s) n"
  proof (cases "n \<le> max_vertex_num s")
    case True
    then show ?thesis using wf n by (simp add: vts_Reserve_def)
  next
    case False
    note w = vts_wf_simps [OF wf]
    let ?k = "max_vertex_num s - init_vertex_num s"
    define xs where "xs = slots s @ replicate (n - max_vertex_num s) DELETED_TIMESTAMP"
    have "inserted_vertices (resize_inserted_vertices s (n - init_vertex_num s) True) = Some xs"
    proof (cases "inserted_vertices s")
      case None
      then have "init_vertex_num s = max_vertex_num s" using wf by (simp add: vts_wf_def)
      then show ?thesis using None by (simp add: resize_inserted_vertices_def xs_def slots_def)
    next
      case (Some ys)
      then have l: "length ys = ?k" using wf by (simp add: vts_wf_def)
      have m: "min (n - init_vertex_num s) ?k = ?k" using False by simp
      show ?thesis using Some l w(2) by (simp add: resize_inserted_vertices_def Let_def m xs_def slots_def)
    qed
    moreover have "resize_inserted_vertices s m b = s\<lparr>inserted_vertices := inserted_vertices (resize_inserted_vertices s m b)\<rparr>" for m b
      by (simp add: resize_inserted_vertices_def Let_def split: option.splits)
    ultimately have r: "vts_Reserve s n = s\<lparr>inserted_vertices := Some xs, max_vertex_num := n\<rparr>"
      using False n by (simp add: vts_Reserve_def) metis
    have len: "length xs = n - init_vertex_num s" using w False by (simp add: xs_def)
    have "vts_wf (vts_Reserve s n)" using wf False len by (auto simp: r vts_wf_def)
    moreover have "vts_at (vts_Reserve s n) = vts_at s"
    proof (rule ext)
      show "vts_at (vts_Reserve s n) v = vts_at s v" for v
        using False w by (auto simp: r vts_at_def gone_def xs_def slots_def nth_append)
    qed
    ultimately show ?thesis using False by (simp add: r)
  qed
  then show "vts_wf (vts_Reserve s n)" "vts_at (vts_Reserve s n) = vts_at s" "init_vertex_num (vts_Reserve s n) = init_vertex_num s"
    "max_vertex_num (vts_Reserve s n) = max (max_vertex_num s) n" by blast+
qed

section \<open>Properties\<close>

text \<open>
  C20. A lookup reads the map from primary keys to vertices: it returns the vertex id of the key when the
  vertex exists since a timestamp not after the reader's, and nothing otherwise.
\<close>

theorem get_index_refines:
  assumes "vt_ok stdh t" and "ts \<noteq> DELETED_TIMESTAMP"
  shows "vt_get_index stdh t pk ts =
    Some (case vt_view t pk of None \<Rightarrow> None | Some (v, since) \<Rightarrow> if since \<le> ts then Some v else None)"
  by (rule vt_get_index_view [OF assms])

text \<open>
  C7. Adding a vertex implements the update of the map at its key: the vertex exists since the
  transaction's timestamp, every other key maps to what it did, the properties of the vertex are what
  the columns keep of the given ones, and the properties of all other vertices are unchanged. The key must
  not be visible, and if it belongs to a deleted vertex, not to one of the last checkpoint.
\<close>

theorem AddVertex_refines:
  assumes "vt_ok stdh t" and "lf_num (vt_indexer t) < lf_capacity (vt_indexer t)" and "lf_num (vt_indexer t) < 2 ^ 32 - 2"
    and "lf_fits (vt_indexer t) pk" and "vt_view t pk = None" and "ts \<noteq> DELETED_TIMESTAMP"
    and "\<And>v. abs_index (vt_indexer t) pk = Some v \<Longrightarrow> init_vertex_num (vt_ts t) \<le> unat v"
    and "length props = length (columns (vt_table t))" and "length ws = length (columns (vt_table t))"
    and "\<And>k. k < length (columns (vt_table t)) \<Longrightarrow> col_keeps (columns (vt_table t) ! k) (props ! k) = Some (ws ! k)"
  shows "\<exists>v t'. AddVertex stdh False pk props ts insert_safe t = Some (Inr (Some v, t')) \<and> vt_ok stdh t' \<and>
    vt_view t' = (vt_view t)(pk \<mapsto> (v, ts)) \<and> get_row (unat v) (vt_table t') = Some ws \<and>
    (\<forall>j. j \<noteq> unat v \<longrightarrow> get_row j (vt_table t') = get_row j (vt_table t))"
proof -
  obtain v t1 where t1: "insert_vertex_pk stdh False pk ts insert_safe t = Some (Inr (v, t1))" "vt_ok stdh t1"
    "vt_view t1 = (vt_view t)(pk \<mapsto> (v, ts))" "unat v < lf_capacity (vt_indexer t1)" "vt_table t1 = vt_table t"
    using insert_vertex_pk_spec [OF assms(1-7)] by metis
  obtain tab where tab: "table_insert (unat v) props (vt_table t1) = Some (Inr tab)" "vt_ok stdh (t1\<lparr>vt_table := tab\<rparr>)"
    "get_row (unat v) tab = Some ws" "\<forall>j. j \<noteq> unat v \<longrightarrow> get_row j tab = get_row j (vt_table t1)"
    using vt_write_row [OF t1(2,4), of props ws] assms(8-10) t1(5) by auto
  have "AddVertex stdh False pk props ts insert_safe t = Some (Inr (Some v, t1\<lparr>vt_table := tab\<rparr>))"
    using t1(1) tab(1) assms(2) by (simp add: AddVertex_def)
  moreover have "vt_view (t1\<lparr>vt_table := tab\<rparr>) = vt_view t1" by (simp add: vt_view_def)
  ultimately show ?thesis using t1(3,5) tab(2-4)
    by (intro exI [of _ v] exI [of _ "t1\<lparr>vt_table := tab\<rparr>"]) simp
qed

text \<open>
  C32. A primary key is unique among the vertices a transaction sees: adding a vertex whose key belongs
  to a vertex visible at the timestamp is refused.
\<close>

theorem AddVertex_exists:
  assumes "vt_ok stdh t" and "lf_num (vt_indexer t) < lf_capacity (vt_indexer t)"
    and "vt_view t pk = Some (v, since)" and "since \<le> ts" and "ts \<noteq> DELETED_TIMESTAMP"
  shows "AddVertex stdh spurious pk props ts insert_safe t = Some (Inl VertexExists)"
proof -
  have a: "abs_index (vt_indexer t) pk = Some v" "since = vts_at (vt_ts t) (unat v)"
    using assms(3) by (auto simp: vt_view_def view_of_def split: option.splits if_splits)
  note r = abs_index_range(1) [OF vt_okD(1) [OF assms(1)] a(1)]
  show ?thesis using assms(2,4) IsVertexValid_index [OF assms(1) r assms(5)] a(2)
    by (simp add: AddVertex_def insert_vertex_pk_def lf_get_index_abs [OF vt_okD(1) [OF assms(1)]] a(1))
qed

lemma DeleteVertex_spec:
  assumes "vt_ok stdh t" and "vt_view t pk = Some (v, since)" and "since \<le> ts" and "ts \<noteq> DELETED_TIMESTAMP"
  shows "\<exists>s. DeleteVertex stdh pk ts t = Some (Inr (t\<lparr>vt_ts := s\<rparr>)) \<and> vt_ok stdh (t\<lparr>vt_ts := s\<rparr>) \<and>
    vt_view (t\<lparr>vt_ts := s\<rparr>) = (vt_view t)(pk := None) \<and> s = fst (RemoveVertex (vt_ts t) (unat v))"
proof -
  note f = vt_okD [OF assms(1)]
  have a: "abs_index (vt_indexer t) pk = Some v" "since = vts_at (vt_ts t) (unat v)" "since \<noteq> DELETED_TIMESTAMP"
    using assms(2) by (auto simp: vt_view_def view_of_def split: option.splits if_splits)
  note r = abs_index_range(1) [OF f(1) a(1)]
  have m: "unat v < max_vertex_num (vt_ts t)" using r f(5,8) by linarith
  note rm = RemoveVertex_at [OF f(3) m a(3) [unfolded a(2)]]
  define s where "s = fst (RemoveVertex (vt_ts t) (unat v))"
  have "RemoveVertex (vt_ts t) (unat v) = (s, Inr since)" using rm(1) a(2) by (metis prod.collapse s_def)
  moreover have "vt_get_index stdh t pk ts = Some (Some v)"
    using vt_get_index_view [OF assms(1,4), of pk] assms(2,3) by simp
  ultimately have "DeleteVertex stdh pk ts t = Some (Inr (t\<lparr>vt_ts := s\<rparr>))"
    using IsVertexValid_index [OF assms(1) r assms(4)] r assms(3) a(2)
    by (simp add: DeleteVertex_def DeleteVertex_lid_def)
  moreover have frame: "init_vertex_num s = init_vertex_num (vt_ts t)" "max_vertex_num s = max_vertex_num (vt_ts t)"
    by (auto simp: s_def RemoveVertex_def Let_def split: option.splits)
  then have "vt_ok stdh (t\<lparr>vt_ts := s\<rparr>)" using assms(1) rm(2,3) by (simp add: vt_ok_def s_def)
  moreover have "vt_view (t\<lparr>vt_ts := s\<rparr>) = (vt_view t)(pk := None)"
    using vt_view_since [OF assms(1) a(1) rm(2)] by (simp add: s_def)
  ultimately show ?thesis using s_def by blast
qed

text \<open>
  C11. Deleting a vertex by its key removes exactly this key from the map, and restoring it with its old
  timestamp gives the map before the deletion back.
\<close>

theorem DeleteVertex_refines:
  assumes "vt_ok stdh t" and "vt_view t pk = Some (v, since)" and "since \<le> ts" and "ts \<noteq> DELETED_TIMESTAMP"
  shows "\<exists>t' t''. DeleteVertex stdh pk ts t = Some (Inr t') \<and> vt_ok stdh t' \<and> vt_view t' = (vt_view t)(pk := None) \<and>
    RevertDeleteVertex v since t' = Some (Inr t'') \<and> vt_view t'' = vt_view t"
proof -
  note f = vt_okD [OF assms(1)]
  obtain s where s: "DeleteVertex stdh pk ts t = Some (Inr (t\<lparr>vt_ts := s\<rparr>))" "vt_ok stdh (t\<lparr>vt_ts := s\<rparr>)"
    "vt_view (t\<lparr>vt_ts := s\<rparr>) = (vt_view t)(pk := None)" "s = fst (RemoveVertex (vt_ts t) (unat v))"
    using DeleteVertex_spec [OF assms] by blast
  have a: "abs_index (vt_indexer t) pk = Some v" "since = vts_at (vt_ts t) (unat v)" "since \<noteq> DELETED_TIMESTAMP"
    using assms(2) by (auto simp: vt_view_def view_of_def split: option.splits if_splits)
  have m: "unat v < max_vertex_num (vt_ts t)" using abs_index_range(1) [OF f(1) a(1)] f(5,8) by linarith
  note rm = RemoveVertex_at [OF f(3) m a(3) [unfolded a(2)]] and rv = RevertRemove_at [OF f(3) m a(3) [unfolded a(2)]]
  have ms: "max_vertex_num s = max_vertex_num (vt_ts t)"
    by (auto simp: s(4) RemoveVertex_def Let_def split: option.splits)
  have "IsRemoved s (unat v) = Some True" using IsRemoved_at [of s "unat v"] rm(2,3) m ms by (simp add: s(4))
  moreover obtain s' where s': "RevertRemoveVertex s (unat v) since = (s', None)" "vts_at s' = vts_at (vt_ts t)"
    using rv a(2) s(4) by (metis prod.collapse)
  ultimately have "RevertDeleteVertex v since (t\<lparr>vt_ts := s\<rparr>) = Some (Inr (t\<lparr>vt_ts := s'\<rparr>))"
    by (simp add: RevertDeleteVertex_def)
  moreover have "vt_view (t\<lparr>vt_ts := s'\<rparr>) = vt_view t" by (simp add: vt_view_def s'(2))
  ultimately show ?thesis using s(1-3) by blast
qed

lemma vt_grow_table:
  assumes ok: "vt_ok stdh t" and n: "lf_capacity (vt_indexer t) \<le> n" and l: "length (vt_defaults t) = length (columns (vt_table t))"
    and keeps: "\<And>k. k < length (columns (vt_table t)) \<Longrightarrow> col_keeps (columns (vt_table t) ! k) (vt_defaults t ! k) \<noteq> None"
  shows "\<exists>tab. table_resize_default n (vt_defaults t) (vt_table t) = Some (Inr tab) \<and>
    (\<forall>c\<in>set (columns tab). col_ok c \<and> c \<noteq> EmptyCol \<and> col_size c = n) \<and>
    (\<forall>j<lf_capacity (vt_indexer t). get_row j tab = get_row j (vt_table t))"
proof -
  let ?cs = "columns (vt_table t)"
  let ?ws = "map (\<lambda>k. the (col_keeps (?cs ! k) (vt_defaults t ! k))) [0..<length ?cs]"
  have col: "col_ok (?cs ! k)" "?cs ! k \<noteq> EmptyCol" "col_size (?cs ! k) = lf_capacity (vt_indexer t)" if "k < length ?cs" for k
    using vt_okD(7) [OF ok nth_mem [OF that]] by blast+
  have pre: "col_ok (?cs ! k) \<and> col_size (?cs ! k) \<le> n \<and> col_keeps (?cs ! k) (vt_defaults t ! k) = Some (?ws ! k)"
    if "k < length ?cs" for k using col [OF that] keeps [OF that] n that by auto
  have lw: "length ?ws = length ?cs" by simp
  obtain cs' where cs': "each_column (col_resize_default n) (vt_defaults t) ?cs = Some (Inr cs')" "length cs' = length ?cs"
    "\<forall>k<length ?cs. col_ok (cs' ! k) \<and> (\<forall>j. col_row j (cs' ! k) \<longleftrightarrow> col_row j (?cs ! k) \<or> j < n) \<and>
      (\<forall>j<n. col_get_prop j (cs' ! k) = (if col_row j (?cs ! k) then col_get_prop j (?cs ! k) else Some (?ws ! k)))"
    using cs.grow_all [OF l lw pre] by blast
  have "col_ok c \<and> c \<noteq> EmptyCol \<and> col_size c = n" if c: "c \<in> set cs'" for c
  proof -
    obtain k where k: "k < length ?cs" "c = cs' ! k" using c cs'(2) by (auto simp: in_set_conv_nth)
    have rows: "\<forall>j. col_row j c \<longleftrightarrow> j < n"
      using cs'(3) [rule_format, OF k(1)] k(2) col_row_size [OF col(2) [OF k(1)]] col(3) [OF k(1)] n by auto
    have e: "c \<noteq> EmptyCol" by (rule not_Empty [OF rows])
    have "\<forall>j. j < col_size c \<longleftrightarrow> j < n" using rows col_row_size [OF e] by simp
    then have "col_size c = n" by (metis linorder_neqE_nat less_irrefl)
    then show ?thesis using e cs'(3) k by blast
  qed
  moreover have "map (col_get_prop j) cs' = map (col_get_prop j) ?cs" if j: "j < lf_capacity (vt_indexer t)" for j
  proof (rule nth_equalityI)
    show "map (col_get_prop j) cs' ! k = map (col_get_prop j) ?cs ! k" if "k < length (map (col_get_prop j) cs')" for k
    proof -
      have k: "k < length ?cs" using that cs'(2) by simp
      have "col_row j (?cs ! k)" using col_row_size [OF col(2) [OF k]] col(3) [OF k] j by simp
      then show ?thesis using cs'(2) cs'(3) [rule_format, OF k] k j n by simp
    qed
  qed (simp add: cs'(2))
  ultimately show ?thesis using cs'(1) l
    by (intro exI [of _ "(vt_table t)\<lparr>columns := cs'\<rparr>"]) (simp add: table_resize_default_def get_row_def)
qed

text \<open>
  C14. Growing the vertex table returns at least the capacity asked for, keeps the three parts consistent,
  and changes neither the map from primary keys to vertices nor the properties of a vertex.
\<close>

theorem EnsureCapacity_refines:
  assumes "vt_ok stdh t" and "capacity < 2 ^ 58" and "length (vt_defaults t) = length (columns (vt_table t))"
    and "\<And>k. k < length (columns (vt_table t)) \<Longrightarrow> col_keeps (columns (vt_table t) ! k) (vt_defaults t ! k) \<noteq> None"
  shows "\<exists>n t'. EnsureCapacity stdh capacity t = Some (Inr (n, t')) \<and> capacity \<le> n \<and> n = lf_capacity (vt_indexer t') \<and>
    vt_ok stdh t' \<and> vt_view t' = vt_view t \<and>
    (\<forall>j<lf_capacity (vt_indexer t). get_row j (vt_table t') = get_row j (vt_table t))"
proof (cases "capacity \<le> lf_capacity (vt_indexer t)")
  case True
  then show ?thesis using assms(1) by (auto simp: EnsureCapacity_def)
next
  case False
  note f = vt_okD [OF assms(1)]
  define n where "n = max capacity 4096"
  have n: "n < 2 ^ 58" "lf_capacity (vt_indexer t) < n" "capacity \<le> n" "4 \<le> n" using assms(2) False by (auto simp: n_def)
  have "n < 2 ^ 59" using n(1) by simp
  from lf_reserve_spec [OF f(1) this]
  obtain c where c: "lf_reserve stdh n (vt_indexer t) = Some c" "lf_ok stdh c" "lf_capacity c = max (max n (lf_num (vt_indexer t))) 4"
    "lf_num c = lf_num (vt_indexer t)" "take (lf_num (vt_indexer t)) (lf_keys c) = take (lf_num (vt_indexer t)) (lf_keys (vt_indexer t))"
    by blast
  have cap: "lf_capacity c = n" using c(3) n f(8) by simp
  obtain tab where tab: "table_resize_default n (vt_defaults t) (vt_table t) = Some (Inr tab)"
    "\<forall>c\<in>set (columns tab). col_ok c \<and> c \<noteq> EmptyCol \<and> col_size c = n"
    "\<forall>j<lf_capacity (vt_indexer t). get_row j tab = get_row j (vt_table t)"
    using vt_grow_table [OF assms(1) less_imp_le [OF n(2)] assms(3,4)] by blast
  have "table_size (vt_table t) < n"
    using n f(7) [of "hd (columns (vt_table t))"] by (auto simp: table_size_def)
  then have e: "EnsureCapacity stdh capacity t = Some (Inr (n, t\<lparr>vt_indexer := c, vt_table := tab, vt_ts := vts_Reserve (vt_ts t) n\<rparr>))"
    using False n(2) c(1) tab(1) cap by (simp add: EnsureCapacity_def Let_def n_def [symmetric])
  note r = vts_Reserve_at [OF f(3), of n]
  have i: "init_vertex_num (vt_ts t) < n" using f(4,8) n(2) by linarith
  have ok: "vt_ok stdh (t\<lparr>vt_indexer := c, vt_table := tab, vt_ts := vts_Reserve (vt_ts t) n\<rparr>)"
    using c(2,4) cap n(1) r [OF i] f(4,6) tab(2) by (simp add: vt_ok_def)
  have "abs_index c q = abs_index (vt_indexer t) q" for q by (simp add: abs_index_def c(4,5))
  then have "vt_view (t\<lparr>vt_indexer := c, vt_table := tab, vt_ts := vts_Reserve (vt_ts t) n\<rparr>) = vt_view t"
    by (simp add: vt_view_def view_of_def r(2) [OF i] fun_eq_iff)
  then show ?thesis using e ok n(3) cap tab(3)
    by (intro exI [of _ n] exI [of _ "t\<lparr>vt_indexer := c, vt_table := tab, vt_ts := vts_Reserve (vt_ts t) n\<rparr>"]) simp
qed

lemma grow_capacity_less: "n < grow_capacity n cap"
  by (induction n cap rule: grow_capacity.induct) (subst grow_capacity.simps, auto)

text \<open>
  C18. A batch of new, distinct primary keys gets consecutive vertex ids, all of them exist since timestamp
  0 afterwards, and the vertices that were there are untouched.
\<close>

theorem insert_primary_keys_refines:
  assumes "vt_ok stdh t" and "distinct oids" and "\<forall>k\<in>set oids. lf_fits (vt_indexer t) k \<and> abs_index (vt_indexer t) k = None"
    and "lf_num (vt_indexer t) + length oids \<le> lf_capacity (vt_indexer t)" and "lf_num (vt_indexer t) + length oids < 2 ^ 32 - 1"
  shows "\<exists>t'. insert_primary_keys stdh oids t =
      Some (Inr (map (\<lambda>i. of_nat (lf_num (vt_indexer t) + i)) [0..<length oids], t')) \<and> vt_ok stdh t' \<and>
    (\<forall>i<length oids. vt_view t' (oids ! i) = Some (of_nat (lf_num (vt_indexer t) + i), 0)) \<and>
    (\<forall>q. q \<notin> set oids \<longrightarrow> vt_view t' q = vt_view t q)"
  using assms
proof (induction oids arbitrary: t)
  case (Cons pk oids)
  let ?n = "lf_num (vt_indexer t)"
  have ts: "(0 :: timestamp_t) \<noteq> DELETED_TIMESTAMP" by (simp add: INVALID_TIMESTAMP_def)
  have pre: "?n < lf_capacity (vt_indexer t)" "?n < 2 ^ 32 - 2" "lf_fits (vt_indexer t) pk" "abs_index (vt_indexer t) pk = None"
    using Cons.prems(3-5) by simp_all
  obtain t1 where t1: "insert_vertex_pk stdh False pk 0 False t = Some (Inr (of_nat ?n, t1))" "vt_ok stdh t1"
    "vt_view t1 = (vt_view t)(pk \<mapsto> (of_nat ?n, 0))" "lf_capacity (vt_indexer t1) = lf_capacity (vt_indexer t)"
    "lf_num (vt_indexer t1) = ?n + 1" "lf_fits (vt_indexer t1) = lf_fits (vt_indexer t)"
    "\<forall>q. abs_index (vt_indexer t1) q = (if q = pk then Some (of_nat ?n) else abs_index (vt_indexer t) q)"
    using insert_new_vertex [OF Cons.prems(1) pre ts, of False] by blast
  have "\<forall>k\<in>set oids. lf_fits (vt_indexer t1) k \<and> abs_index (vt_indexer t1) k = None"
    using Cons.prems(2,3) t1(6,7) by auto
  then obtain t2 where t2: "insert_primary_keys stdh oids t1 =
      Some (Inr (map (\<lambda>i. of_nat (?n + 1 + i)) [0..<length oids], t2))" "vt_ok stdh t2"
    "\<forall>i<length oids. vt_view t2 (oids ! i) = Some (of_nat (?n + 1 + i), 0)" "\<forall>q. q \<notin> set oids \<longrightarrow> vt_view t2 q = vt_view t1 q"
    using Cons.IH [OF t1(2)] Cons.prems(2,4,5) t1(4,5) by auto
  have ids: "map (\<lambda>i. of_nat (?n + i) :: vid_t) [0..<length (pk # oids)] =
      of_nat ?n # map (\<lambda>i. of_nat (?n + 1 + i)) [0..<length oids]"
    by (subst upt_conv_Cons) (simp_all add: map_Suc_upt [symmetric] del: upt_Suc)
  have "vt_view t2 ((pk # oids) ! i) = Some (of_nat (?n + i), 0)" if "i < length (pk # oids)" for i
    using that t2(3,4) t1(3) Cons.prems(2) by (cases i) auto
  moreover have "insert_primary_keys stdh (pk # oids) t = Some (Inr (map (\<lambda>i. of_nat (?n + i)) [0..<length (pk # oids)], t2))"
    unfolding ids using t1(1) t2(1) by (simp add: lf_get_index_abs [OF vt_okD(1) [OF Cons.prems(1)]] pre(4))
  ultimately show ?case using t2(2,4) t1(3) by auto
qed simp

section \<open>Witnesses\<close>

text \<open>A table of four rows with one vertex, which exists since timestamp 5.\<close>

definition vt_example :: vtable where
  "vt_example = \<lparr>vt_indexer = lf_single,
     vt_table = \<lparr>col_names = [''flag''], col_id_map = [''flag'' \<mapsto> 0],
       columns = [FixedCol kBoolean [PBool True, PBool False, PBool False, PBool False]]\<rparr>,
     vt_ts = \<lparr>init_vertex_num = 0, inserted_vertices = Some [5, DELETED_TIMESTAMP, DELETED_TIMESTAMP, DELETED_TIMESTAMP],
       max_vertex_num = 4, removed_vertices = None\<rparr>,
     vt_defaults = [PBool False]\<rparr>"

lemma vt_example_ok: "vt_ok (\<lambda>_. 0) vt_example"
proof -
  have "[5, DELETED_TIMESTAMP, DELETED_TIMESTAMP, DELETED_TIMESTAMP] ! v = DELETED_TIMESTAMP" if "1 \<le> v" "v < 4" for v
    using that by (auto simp: less_Suc_eq numeral_eq_Suc)
  then show ?thesis using lf_single_ok
    by (auto simp: vt_ok_def vt_example_def lf_single_def lf_capacity_def vts_wf_def vts_at_def slots_def)
qed

lemma vt_example_view: "vt_view vt_example pk = (if pk = PInt32 7 then Some (0, 5) else None)"
  by (simp add: vt_view_def view_of_def vt_example_def abs_index_def lf_single_def vts_at_def slots_def INVALID_TIMESTAMP_def)

lemma no_DELETED: "(9 :: timestamp_t) \<noteq> DELETED_TIMESTAMP"
  by (simp add: INVALID_TIMESTAMP_def)

theorem get_index_refines_witness:
  "vt_get_index (\<lambda>_. 0) vt_example (PInt32 7) 9 = Some (Some 0) \<and> vt_get_index (\<lambda>_. 0) vt_example (PInt32 8) 9 = Some None"
  using get_index_refines [OF vt_example_ok no_DELETED] by (simp add: vt_example_view)

theorem AddVertex_refines_witness:
  "\<exists>v t'. AddVertex (\<lambda>_. 0) False (PInt32 8) [PBool True] 9 False vt_example = Some (Inr (Some v, t')) \<and>
     vt_view t' (PInt32 8) = Some (v, 9) \<and> vt_view t' (PInt32 7) = Some (0, 5)"
proof -
  have idx: "init_vertex_num (vt_ts vt_example) \<le> unat v" for v :: vid_t by (simp add: vt_example_def)
  have k: "col_keeps (columns (vt_table vt_example) ! k) ([PBool True] ! k) = Some ([PBool True] ! k)"
    if "k < length (columns (vt_table vt_example))" for k using that by (simp add: vt_example_def)
  have room: "lf_num (vt_indexer vt_example) < lf_capacity (vt_indexer vt_example)"
    "lf_num (vt_indexer vt_example) < 2 ^ 32 - 2" "lf_fits (vt_indexer vt_example) (PInt32 8)"
    "length [PBool True] = length (columns (vt_table vt_example))"
    by (simp_all add: vt_example_def lf_single_def lf_capacity_def lf_fits_def store_key_def)
  have new: "vt_view vt_example (PInt32 8) = None" by (simp add: vt_example_view)
  obtain v t' where "AddVertex (\<lambda>_. 0) False (PInt32 8) [PBool True] 9 False vt_example = Some (Inr (Some v, t'))"
    "vt_view t' = (vt_view vt_example)(PInt32 8 \<mapsto> (v, 9))"
    using AddVertex_refines [OF vt_example_ok room(1-3) new no_DELETED idx room(4,4) k] by blast
  then show ?thesis by (auto simp: vt_example_view)
qed

theorem AddVertex_exists_witness:
  "AddVertex (\<lambda>_. 0) False (PInt32 7) [PBool True] 9 False vt_example = Some (Inl VertexExists)"
proof -
  have "vt_view vt_example (PInt32 7) = Some (0, 5)" by (simp add: vt_example_view)
  from AddVertex_exists [OF vt_example_ok _ this _ no_DELETED] show ?thesis
    by (simp add: vt_example_def lf_single_def lf_capacity_def)
qed

theorem DeleteVertex_refines_witness:
  "\<exists>t'. DeleteVertex (\<lambda>_. 0) (PInt32 7) 9 vt_example = Some (Inr t') \<and> vt_view t' (PInt32 7) = None"
proof -
  have "vt_view vt_example (PInt32 7) = Some (0, 5)" by (simp add: vt_example_view)
  from DeleteVertex_refines [OF vt_example_ok this _ no_DELETED] show ?thesis by auto
qed

theorem EnsureCapacity_refines_witness:
  "\<exists>n t'. EnsureCapacity (\<lambda>_. 0) 5000 vt_example = Some (Inr (n, t')) \<and> 5000 \<le> n \<and> vt_view t' (PInt32 7) = Some (0, 5) \<and>
     get_row 0 (vt_table t') = Some [PBool True]"
proof -
  have row: "get_row 0 (vt_table vt_example) = Some [PBool True]" by (simp add: vt_example_def get_row_def)
  have cap: "lf_capacity (vt_indexer vt_example) = 4" by (simp add: vt_example_def lf_single_def lf_capacity_def)
  have l: "length (vt_defaults vt_example) = length (columns (vt_table vt_example))" by (simp add: vt_example_def)
  have k: "col_keeps (columns (vt_table vt_example) ! k) (vt_defaults vt_example ! k) \<noteq> None"
    if "k < length (columns (vt_table vt_example))" for k using that by (simp add: vt_example_def)
  obtain n t' where "EnsureCapacity (\<lambda>_. 0) 5000 vt_example = Some (Inr (n, t'))" "5000 \<le> n" "vt_view t' = vt_view vt_example"
    "\<forall>j<lf_capacity (vt_indexer vt_example). get_row j (vt_table t') = get_row j (vt_table vt_example)"
    using EnsureCapacity_refines [OF vt_example_ok _ l k, of 5000] by auto
  then show ?thesis using row cap by (simp add: vt_example_view)
qed

theorem insert_primary_keys_refines_witness:
  "\<exists>t'. insert_primary_keys (\<lambda>_. 0) [PInt32 8, PInt32 9] vt_example = Some (Inr ([1, 2], t')) \<and>
     vt_view t' (PInt32 9) = Some (2, 0) \<and> vt_view t' (PInt32 7) = Some (0, 5)"
proof -
  have n: "lf_num (vt_indexer vt_example) = 1" "lf_capacity (vt_indexer vt_example) = 4"
    by (simp_all add: vt_example_def lf_single_def lf_capacity_def)
  have fits: "\<forall>k\<in>set [PInt32 8, PInt32 9]. lf_fits (vt_indexer vt_example) k \<and> abs_index (vt_indexer vt_example) k = None"
    by (simp add: vt_example_def lf_single_def lf_fits_def store_key_def abs_index_def)
  have ids: "map (\<lambda>i. of_nat (lf_num (vt_indexer vt_example) + i) :: vid_t) [0..<length [PInt32 8, PInt32 9]] = [1, 2]"
    by (simp add: n)
  have room: "distinct [PInt32 8, PInt32 9]"
    "lf_num (vt_indexer vt_example) + length [PInt32 8, PInt32 9] \<le> lf_capacity (vt_indexer vt_example)"
    "lf_num (vt_indexer vt_example) + length [PInt32 8, PInt32 9] < 2 ^ 32 - 1" by (simp_all add: n)
  obtain t' where t': "insert_primary_keys (\<lambda>_. 0) [PInt32 8, PInt32 9] vt_example = Some (Inr ([1, 2], t'))"
    "\<forall>i<length [PInt32 8, PInt32 9]. vt_view t' ([PInt32 8, PInt32 9] ! i) = Some (of_nat (lf_num (vt_indexer vt_example) + i), 0)"
    "\<forall>q. q \<notin> set [PInt32 8, PInt32 9] \<longrightarrow> vt_view t' q = vt_view vt_example q"
    using insert_primary_keys_refines [OF vt_example_ok room(1) fits room(2,3), unfolded ids] by blast
  have "vt_view t' (PInt32 9) = Some (2, 0)" using t'(2) [rule_format, of 1] by (simp add: n)
  moreover have "vt_view t' (PInt32 7) = Some (0, 5)" using t'(3) [rule_format, of "PInt32 7"] by (simp add: vt_example_view)
  ultimately show ?thesis using t'(1) by blast
qed

end
