(* ===== verification/Spec2Isabelle.thy ===== *)
theory Spec2Isabelle
  imports Version_Manager Wal_File Mutable_Csr Kcore Louvain Vertex_Table
begin

text \<open>
  A verification library for NeuG, an embedded graph database with transactional storage, and for
  its graph analytics extensions. Paths below are relative to \<^verbatim>\<open>src/\<close>.

  \<^bold>\<open>The program's parts.\<close> A \<^emph>\<open>version manager\<close> hands out timestamps to read, insert, update and
  compaction transactions. Transactions write \<^emph>\<open>redo records\<close> into a \<^emph>\<open>write-ahead log\<close>, and
  apply them to a \<^emph>\<open>property graph\<close>: vertex tables (with the insertion timestamp of every vertex)
  and edge tables (adjacency lists, one timestamp per edge). After a crash the log is read back and
  the records are applied again in timestamp order. Readers see the vertices and edges up to their
  timestamp. Extensions read the graph at a timestamp and compute core numbers and communities.

  \<^bold>\<open>Theories and sources.\<close>
  \<^item> \<^verbatim>\<open>Prelude\<close>: the integer types of \<^verbatim>\<open>utils/property/types.h\<close>, rule collections, shared
    lemmas.
  \<^item> \<^verbatim>\<open>Bitset\<close>: \<^verbatim>\<open>utils/bitset.h\<close>; the locale \<^verbatim>\<open>bitmap\<close> is the interface its clients
    use and is interpreted on the word array.
  \<^item> \<^verbatim>\<open>Version_Manager\<close>: \<^verbatim>\<open>transaction/version_manager.cc\<close>, the member functions and the
    interleaving of any number of threads, one atomic instruction per step.
  \<^item> \<^verbatim>\<open>Archive\<close>: the byte archives; the locale \<^verbatim>\<open>codec\<close> states that reading inverts
    writing and is interpreted on every encoder.
  \<^item> \<^verbatim>\<open>Temporal\<close>: dates, date times and intervals; \<^verbatim>\<open>Property_Value\<close>: the tagged union of
    property values; \<^verbatim>\<open>Data_Type\<close>: column types.
  \<^item> \<^verbatim>\<open>Vertex_Timestamp\<close>: \<^verbatim>\<open>storages/graph/vertex_timestamp.h\<close> and \<^verbatim>\<open>.cc\<close>.
  \<^item> \<^verbatim>\<open>Mutable_Csr\<close>: \<^verbatim>\<open>storages/csr/mutable_csr.h\<close>, \<^verbatim>\<open>.cc\<close> and the readers of
    \<^verbatim>\<open>generic_view.h\<close>; the locale \<^verbatim>\<open>edge_store\<close> is the contract of both adjacency list
    classes and is interpreted on each.
  \<^item> \<^verbatim>\<open>Wal_Redo\<close>: \<^verbatim>\<open>transaction/wal/wal.cc\<close>, the redo records; \<^verbatim>\<open>Wal_File\<close>: the log
    files, their parser and the replay in \<^verbatim>\<open>main/neug_db.cc\<close>.
  \<^item> \<^verbatim>\<open>String_Column\<close>: the string column of \<^verbatim>\<open>utils/property/column.h\<close>;
    \<^verbatim>\<open>Lf_Indexer\<close>: the primary key index \<^verbatim>\<open>utils/id_indexer.h\<close>, whose contract is the
    locale \<^verbatim>\<open>key_index\<close>; \<^verbatim>\<open>Property_Table\<close>: all columns and
    \<^verbatim>\<open>utils/property/table.cc\<close>, with the contract \<^verbatim>\<open>column_store\<close> of a column;
    \<^verbatim>\<open>Vertex_Table\<close>: \<^verbatim>\<open>storages/graph/vertex_table.cc\<close>, which is built from them
    and from \<^verbatim>\<open>Vertex_Timestamp\<close>.
  \<^item> \<^verbatim>\<open>Kcore\<close>: \<^verbatim>\<open>extension/kcore/include/kcore_functions.h\<close>; \<^verbatim>\<open>Louvain\<close>:
    \<^verbatim>\<open>extension/louvain/include/louvain_functions.h\<close>, both from the adjacency lists on.

  \<^bold>\<open>What the lemmas show.\<close> A snapshot that a reader holds is never overtaken by a writer, an update
  excludes everybody else, no reachable state is stuck, and releasing an insert timestamp refines an
  abstract set of finished timestamps. A recovered log replays exactly the committed units in
  timestamp order. Records, properties, vertex timestamps and adjacency lists survive being written
  and read. The primary key index behaves as a map from keys to consecutive ids, however its hash
  function behaves and however often it grows; with the timestamps and the property table it
  implements the map of the visible vertices that the vertex table promises. Single operations on
  adjacency lists keep the edge counter exact, a reverted deletion restores the state, and for each bulk
  operation it is shown when the counter stays exact; the readers of adjacency lists agree. Calendar
  arithmetic agrees with the Gregorian calendar in the range of a 64-bit nanosecond clock, in which both
  branches of the conversion agree. The peeling algorithm computes core numbers. Community detection
  reports the modularity of the communities it reports, and coarsening preserves modularity. The properties of kind error describe inputs on which the code does
  something else than its callers expect.

  \<^bold>\<open>Bounds.\<close> Timestamps and vertex ids are 32-bit words, labels 8-bit words; they wrap. The version
  manager's theorems hold while the ring buffer of \<open>2 ^ 20\<close> entries covers the unfinished timestamps
  (\<^verbatim>\<open>in_window\<close>), which the code does not check, and for threads that acquire, release and revert;
  \<^verbatim>\<open>clear()\<close>, which a compaction calls while other threads may run, is not a step, and
  \<^verbatim>\<open>vm_compact_race\<close> shows what it breaks. Dates are right within 106751 days of 1970 in the build
  with \<^verbatim>\<open>ENABLE_CHRONO_YMD\<close>. Log files have the fixed size the writer
  allocates (\<^verbatim>\<open>log_room\<close>). Loops are structural, have a termination proof, or are partial
  functions with lemmas that say when they return; the reader of nested column types takes the number
  of bytes as fuel, which is always enough.

  \<^bold>\<open>Not modelled.\<close> The query front end and the operators work on generated grammars and protocol
  buffer classes; the service, the bindings and the loaders are input and output on third-party
  libraries; memory-mapped containers appear through their contents. Locks appear as the atomicity of
  the step they protect. Reading past the end of an archive, which \<^verbatim>\<open>OutArchive\<close> does not check, is a
  failure in the model. The functions that fill the adjacency lists of the extensions from the property
  graph are left out. Weights of communities are rational numbers, not floating point. Subgraph matching samples at random from an external library.
\<close>

end
